theory Spec2Isabelle
  imports Main "HOL-Library.AList"
begin

section \<open>Values, documents and the store\<close>

text \<open>
  The values of the cache are JavaScript values. \<open>undefined\<close> is a value of its own:
  the read path tests for it (\<open>dataFieldValue === undefined\<close>) and stores it in arrays.
  An object is an association list in insertion order.
\<close>

datatype val =
    VUndefined
  | VNull
  | VNum int
  | VStr string
  | VBool bool
  | VArr "val list"
  | VObj "(string \<times> val) list"

type_synonym data = "(string \<times> val) list"

text \<open>\<open>data[key]\<close>: a missing property reads as \<open>undefined\<close>.\<close>

definition getProp :: "data \<Rightarrow> string \<Rightarrow> val" where
  "getProp d k = (case map_of d k of None \<Rightarrow> VUndefined | Some v \<Rightarrow> v)"

text \<open>\<open>data[key] = v\<close>.\<close>

definition setProp :: "data \<Rightarrow> string \<Rightarrow> val \<Rightarrow> data" where
  "setProp d k v = AList.update k v d"

text \<open>\<open>typeof x === 'string'\<close>.\<close>

fun isString :: "val \<Rightarrow> bool" where
  "isString (VStr s) = True"
| "isString v = False"

text \<open>
  The link type of \<open>../types\<close>: \<open>Link = null | string | Link[]\<close>.
\<close>

datatype link =
    LNull
  | LKey string
  | LArr "link list"

text \<open>
  The nodes of a parsed GraphQL document (the \<open>graphql\<close> package's \<open>FieldNode\<close>,
  \<open>FragmentSpreadNode\<close>, \<open>InlineFragmentNode\<close> and \<open>FragmentDefinitionNode\<close>).
  A selection set is a list of nodes; a field without one has \<open>selectionSet === undefined\<close>.
\<close>

datatype value_node =
    VariableNode string
  | ConstNode val
  | ListNode "value_node list"
  | ObjectNode "(string \<times> value_node) list"

datatype directive = Directive string "(string \<times> value_node) list"

datatype node =
    Field "string option" string "(string \<times> value_node) list" "directive list"
      "node list option"
  | FragmentSpread string "directive list"
  | InlineFragment "string option" "directive list" "node list"
  | FragmentDefinition string "string option" "directive list" "node list"

type_synonym selection_set = "node list"
type_synonym variables = "string \<rightharpoonup> val"
type_synonym arguments = "(string \<times> val) list"
type_synonym fragments = "string \<rightharpoonup> node"

text \<open>
  Modelled from the spec: the accessors of \<open>../ast\<close> (section 2, "AST utilities":
  selection-set accessors, fragment lookup, type-condition extraction), which are imported
  by the sources but are not among them.
\<close>

fun isFieldNode :: "node \<Rightarrow> bool" where
  "isFieldNode (Field a n args ds sel) = True"
| "isFieldNode nd = False"

fun isInlineFragment :: "node \<Rightarrow> bool" where
  "isInlineFragment (InlineFragment tc ds sel) = True"
| "isInlineFragment nd = False"

fun getName :: "node \<Rightarrow> string" where
  "getName (Field a n args ds sel) = n"
| "getName (FragmentSpread n ds) = n"
| "getName (InlineFragment tc ds sel) = []"
| "getName (FragmentDefinition n tc ds sel) = n"

fun getFieldAlias :: "node \<Rightarrow> string" where
  "getFieldAlias (Field (Some a) n args ds sel) = a"
| "getFieldAlias nd = getName nd"

fun hasSelectionSet :: "node \<Rightarrow> bool" where
  "hasSelectionSet (Field a n args ds None) = False"
| "hasSelectionSet (FragmentSpread n ds) = False"
| "hasSelectionSet nd = True"

fun getSelectionSet :: "node \<Rightarrow> selection_set" where
  "getSelectionSet (Field a n args ds (Some sel)) = sel"
| "getSelectionSet (InlineFragment tc ds sel) = sel"
| "getSelectionSet (FragmentDefinition n tc ds sel) = sel"
| "getSelectionSet nd = []"

fun getTypeCondition :: "node \<Rightarrow> string option" where
  "getTypeCondition (InlineFragment tc ds sel) = tc"
| "getTypeCondition (FragmentDefinition n tc ds sel) = tc"
| "getTypeCondition nd = None"

text \<open>
  The remaining imports of \<open>../ast\<close> and \<open>../helpers\<close> are parameters of the model:
  \<open>shouldInclude\<close> (the \<open>@skip\<close>/\<open>@include\<close> directives), \<open>getFieldArguments\<close>
  (the arguments of a field with the variables substituted, \<open>null\<close> when there are none)
  and \<open>keyOfField\<close> (the field key of a name and its arguments).
\<close>

record ast_helpers =
  shouldInclude :: "node \<Rightarrow> variables \<Rightarrow> bool"
  getFieldArguments :: "node \<Rightarrow> variables \<Rightarrow> arguments option"
  keyOfField :: "string \<Rightarrow> arguments option \<Rightarrow> string"

text \<open>
  Modelled from the spec: \<open>joinKeys\<close> of \<open>../helpers\<close> (section 4.1:
  "returns \<open>parentKey + "." + childKey\<close>").
\<close>

definition joinKeys :: "string \<Rightarrow> string \<Rightarrow> string" where
  "joinKeys parentKey key = parentKey @ ''.'' @ key"

text \<open>
  The schema oracle of \<open>../ast/schemaPredicates\<close>, by its two predicates (spec, section 6).
\<close>

record schema_predicates =
  isFieldNullable :: "string \<Rightarrow> string \<Rightarrow> bool"
  isInterfaceOfType :: "string option \<Rightarrow> string option \<Rightarrow> bool"

datatype operation_type = OpQuery | OpMutation | OpSubscription

text \<open>
  Modelled from the spec: the \<open>Store\<close> class of \<open>../store\<close> (section 3, "Store state",
  and section 4.2), which the sources use but do not contain. A resolver is a user
  function \<open>(parent, args, store, ctx) -> value\<close>; the store and the context are fixed
  during a read and a resolver may not mutate them (section 5), so it is a function of
  the parent data and the arguments here. \<open>keyOfEntity\<close> is a method of the store.
\<close>

type_synonym resolver = "data \<Rightarrow> arguments \<Rightarrow> val"

record store =
  records :: "string \<rightharpoonup> val"
  links :: "string \<rightharpoonup> link"
  resolvers :: "string \<Rightarrow> string \<Rightarrow> resolver option"
  store_schemaPredicates :: "schema_predicates option"
  rootFields :: "operation_type \<Rightarrow> string"
  keyOfEntity :: "data \<Rightarrow> string option"

definition getRootKey :: "store \<Rightarrow> operation_type \<Rightarrow> string" where
  "getRootKey s name = rootFields s name"

definition getRecord :: "store \<Rightarrow> string \<Rightarrow> val" where
  "getRecord s fieldKey = (case records s fieldKey of None \<Rightarrow> VUndefined | Some v \<Rightarrow> v)"

definition getLink :: "store \<Rightarrow> string \<Rightarrow> link option" where
  "getLink s fieldKey = links s fieldKey"

definition getField :: "ast_helpers \<Rightarrow> store \<Rightarrow> string \<Rightarrow> string \<Rightarrow> val" where
  "getField h s entityKey fieldName =
     getRecord s (joinKeys entityKey (keyOfField h fieldName None))"

definition hasField :: "store \<Rightarrow> string \<Rightarrow> bool" where
  "hasField s key = (getRecord s key \<noteq> VUndefined \<or> getLink s key \<noteq> None)"

text \<open>
  The \<open>Context\<close> of \<open>operations/shared\<close> and \<open>operations/query\<close>. Its mutable field
  \<open>partial\<close> is part of the state a read threads through (\<open>read_state\<close> below).
\<close>

record read_context =
  ctx_store :: store
  ctx_variables :: variables
  ctx_fragments :: fragments
  ctx_schemaPredicates :: "schema_predicates option"

section \<open>The selection iterator (operations/shared)\<close>

text \<open>
  \<open>isFragmentHeuristicallyMatching\<close>: \<open>!typename\<close> holds for \<open>undefined\<close> and for the
  empty string.
\<close>

definition fieldMissing :: "ast_helpers \<Rightarrow> read_context \<Rightarrow> string \<Rightarrow> node \<Rightarrow> bool" where
  "fieldMissing h ctx entityKey nd =
     (if \<not> isFieldNode nd then False
      else let fieldName = getName nd;
               fieldArgs = getFieldArguments h nd (ctx_variables ctx);
               fieldKey = keyOfField h fieldName fieldArgs
           in \<not> hasField (ctx_store ctx) (joinKeys entityKey fieldKey))"

definition isFragmentHeuristicallyMatching ::
  "ast_helpers \<Rightarrow> node \<Rightarrow> string option \<Rightarrow> string \<Rightarrow> read_context \<Rightarrow> bool" where
  "isFragmentHeuristicallyMatching h nd typename entityKey ctx =
     (if typename = None \<or> typename = Some [] then False
      else if typename = getTypeCondition nd then True
      else \<not> list_ex (fieldMissing h ctx entityKey) (getSelectionSet nd))"

text \<open>
  \<open>SelectionIterator\<close>. The source keeps two arrays, \<open>indexStack\<close> and \<open>selectionStack\<close>,
  which it pushes and pops together; here they are one stack of frames (index, selection
  set) whose head is the top. \<open>typename\<close>, \<open>entityKey\<close> and \<open>context\<close> are set by the
  constructor and never change. \<open>next\<close> may loop for ever (a fragment that spreads
  itself), which is the value \<open>None\<close>; a call that returns gives the field node, or
  \<open>None\<close> for \<open>undefined\<close>, and the stack it leaves.
\<close>

type_synonym frame = "nat \<times> selection_set"

definition iter_init :: "selection_set \<Rightarrow> frame list" where
  "iter_init select = [(0, select)]"

definition fragmentNodeOf :: "read_context \<Rightarrow> node \<Rightarrow> node option" where
  "fragmentNodeOf ctx nd =
     (if \<not> isInlineFragment nd then ctx_fragments ctx (getName nd) else Some nd)"

definition isMatching ::
  "ast_helpers \<Rightarrow> read_context \<Rightarrow> string option \<Rightarrow> string \<Rightarrow> node \<Rightarrow> bool" where
  "isMatching h ctx typename entityKey fragmentNode =
     (case ctx_schemaPredicates ctx of
        Some sp \<Rightarrow> isInterfaceOfType sp (getTypeCondition fragmentNode) typename
      | None \<Rightarrow> isFragmentHeuristicallyMatching h fragmentNode typename entityKey ctx)"

partial_function (option) iter_next ::
  "ast_helpers \<Rightarrow> read_context \<Rightarrow> string option \<Rightarrow> string \<Rightarrow> frame list
     \<Rightarrow> (node option \<times> frame list) option" where
  "iter_next h ctx typename entityKey stack =
     (case stack of
        [] \<Rightarrow> Some (None, [])
      | (index, select) # rest \<Rightarrow>
          if index \<ge> length select then iter_next h ctx typename entityKey rest
          else
            let nd = select ! index;
                stack' = (Suc index, select) # rest
            in if \<not> shouldInclude h nd (ctx_variables ctx)
               then iter_next h ctx typename entityKey stack'
               else if \<not> isFieldNode nd then
                 (case fragmentNodeOf ctx nd of
                    Some fragmentNode \<Rightarrow>
                      if \<not> isMatching h ctx typename entityKey fragmentNode
                      then iter_next h ctx typename entityKey stack'
                      else iter_next h ctx typename entityKey
                             ((0, getSelectionSet fragmentNode) # stack')
                  | None \<Rightarrow> iter_next h ctx typename entityKey stack')
               else if getName nd = ''__typename''
               then iter_next h ctx typename entityKey stack'
               else Some (Some nd, stack'))"

declare iter_next.simps [code]

section \<open>Reading from the store (operations/query)\<close>

text \<open>
  A read threads two pieces of mutable state: \<open>ctx.partial\<close> and the dependency set of
  \<open>../store\<close> (\<open>addDependency\<close>, \<open>getCurrentDependencies\<close>).
\<close>

record read_state =
  partial :: bool
  dependencies :: "string set"

text \<open>
  Modelled from the spec: \<open>addDependency\<close> of \<open>../store\<close> (section 4.2:
  "\<open>addDependency(key)\<close> records a key").
\<close>

definition addDependency :: "string \<Rightarrow> read_state \<Rightarrow> read_state" where
  "addDependency key st = st\<lparr>dependencies := insert key (dependencies st)\<rparr>"

text \<open>
  What a call can end with besides a value. The source has no \<open>throw\<close>, but it casts
  \<open>data[fieldAlias]\<close> to \<open>Data | Data[]\<close> unchecked: indexing \<open>null\<close> and assigning
  \<open>__typename\<close> on \<open>null\<close> or on a primitive (strict mode) throw a \<open>TypeError\<close>. On an
  array the same assignment would add a named property to the array, which the values
  here cannot hold: the model stops there with \<open>ArrayAsData\<close>. A function of the read
  path takes fuel and returns \<open>None\<close> when it runs out of it or when the selection
  iterator does not return.
\<close>

datatype error = TypeError | ArrayAsData

type_synonym 'a result = "(error + 'a) option"

definition bindR :: "'a result \<Rightarrow> ('a \<Rightarrow> 'b result) \<Rightarrow> 'b result" where
  "bindR m f = (case m of None \<Rightarrow> None | Some (Inl e) \<Rightarrow> Some (Inl e) | Some (Inr x) \<Rightarrow> f x)"

definition returnR :: "'a \<Rightarrow> 'a result" where
  "returnR x = Some (Inr x)"

definition throwR :: "error \<Rightarrow> 'a result" where
  "throwR e = Some (Inl e)"

lemma bindR_cong [fundef_cong]:
  "m = m' \<Longrightarrow> (\<And>x. m' = Some (Inr x) \<Longrightarrow> f x = f' x) \<Longrightarrow> bindR m f = bindR m' f'"
  by (auto simp: bindR_def split: option.splits sum.splits)

text \<open>The decimal digits of an array index (\<open>`${index}`\<close>).\<close>

fun show_nat :: "nat \<Rightarrow> string" where
  "show_nat n =
     (if n < 10 then [char_of (48 + n)]
      else show_nat (n div 10) @ [char_of (48 + n mod 10)])"

text \<open>\<open>prevData !== undefined ? prevData[index] : undefined\<close>.\<close>

fun prevDataAt :: "val \<Rightarrow> nat \<Rightarrow> val result" where
  "prevDataAt VUndefined i = returnR VUndefined"
| "prevDataAt VNull i = throwR TypeError"
| "prevDataAt (VArr xs) i = returnR (if i < length xs then xs ! i else VUndefined)"
| "prevDataAt (VObj d) i = returnR (getProp d (show_nat i))"
| "prevDataAt (VStr s) i = returnR (if i < length s then VStr [s ! i] else VUndefined)"
| "prevDataAt v i = returnR VUndefined"

text \<open>\<open>prevData === undefined ? Object.create(null) : prevData\<close>.\<close>

definition dataOrNew :: "val \<Rightarrow> val" where
  "dataOrNew prevData = (if prevData = VUndefined then VObj [] else prevData)"

text \<open>
  The object that \<open>data.__typename = typename\<close> assigns to, when \<open>data\<close> is one.
\<close>

fun asData :: "val \<Rightarrow> data result" where
  "asData (VObj d) = returnR d"
| "asData (VArr xs) = throwR ArrayAsData"
| "asData v = throwR TypeError"

text \<open>The string of a value with \<open>typeof x === 'string'\<close>.\<close>

fun stringOf :: "val \<Rightarrow> string option" where
  "stringOf (VStr s) = Some s"
| "stringOf v = None"

text \<open>\<open>Array.isArray(x)\<close>, with the elements.\<close>

fun arrayOf :: "val \<Rightarrow> val list option" where
  "arrayOf (VArr xs) = Some xs"
| "arrayOf v = None"

text \<open>\<open>typeof x === 'object' && x !== null\<close>.\<close>

fun isObject :: "val \<Rightarrow> bool" where
  "isObject (VObj d) = True"
| "isObject (VArr xs) = True"
| "isObject v = False"

text \<open>A \<open>Data | undefined\<close> result as a value.\<close>

definition dataValue :: "data option \<Rightarrow> val" where
  "dataValue r = (case r of None \<Rightarrow> VUndefined | Some d \<Rightarrow> VObj d)"

fun isDataOrKey :: "val \<Rightarrow> bool" where
  "isDataOrKey (VStr s) = True"
| "isDataOrKey (VObj d) = isString (getProp d ''__typename'')"
| "isDataOrKey v = False"

text \<open>
  \<open>(typeof result === 'string' ? result : ctx.store.keyOfEntity(result)) || key\<close>,
  for a \<open>result\<close> that passed \<open>isDataOrKey\<close>.
\<close>

definition childKeyOf :: "store \<Rightarrow> val \<Rightarrow> string \<Rightarrow> string" where
  "childKeyOf s result key =
     (case (case result of VStr k \<Rightarrow> Some k | VObj d \<Rightarrow> keyOfEntity s d | _ \<Rightarrow> None) of
        None \<Rightarrow> key
      | Some k \<Rightarrow> if k = [] then key else k)"

text \<open>
  \<open>readSelection\<close>, its \<open>while\<close> loop over the iterator (\<open>readLoop\<close>), the part of the
  loop body that computes \<open>dataFieldValue\<close> (\<open>readFieldValue\<close>, which also returns
  \<open>data\<close>: the resolver branch assigns \<open>data[fieldAlias] = fieldValue\<close>),
  \<open>resolveResolverResult\<close> and \<open>resolveLink\<close> with their loops over an array.
\<close>

function (sequential) readSelection ::
    "nat \<Rightarrow> ast_helpers \<Rightarrow> read_context \<Rightarrow> read_state \<Rightarrow> string \<Rightarrow> selection_set \<Rightarrow> val
       \<Rightarrow> (data option \<times> read_state) result"
  and readLoop ::
    "nat \<Rightarrow> ast_helpers \<Rightarrow> read_context \<Rightarrow> read_state \<Rightarrow> string \<Rightarrow> string \<Rightarrow> bool
       \<Rightarrow> frame list \<Rightarrow> data \<Rightarrow> bool \<Rightarrow> (data option \<times> read_state) result"
  and readFieldValue ::
    "nat \<Rightarrow> ast_helpers \<Rightarrow> read_context \<Rightarrow> read_state \<Rightarrow> string \<Rightarrow> string \<Rightarrow> node
       \<Rightarrow> data \<Rightarrow> (val \<times> data \<times> read_state) result"
  and resolveResolverResult ::
    "nat \<Rightarrow> ast_helpers \<Rightarrow> read_context \<Rightarrow> read_state \<Rightarrow> val \<Rightarrow> string \<Rightarrow> selection_set
       \<Rightarrow> val \<Rightarrow> (val \<times> read_state) result"
  and resolveResolverResults ::
    "nat \<Rightarrow> ast_helpers \<Rightarrow> read_context \<Rightarrow> read_state \<Rightarrow> val list \<Rightarrow> nat \<Rightarrow> string
       \<Rightarrow> selection_set \<Rightarrow> val \<Rightarrow> (val list \<times> read_state) result"
  and resolveLink ::
    "nat \<Rightarrow> ast_helpers \<Rightarrow> read_context \<Rightarrow> read_state \<Rightarrow> link \<Rightarrow> selection_set \<Rightarrow> val
       \<Rightarrow> (val \<times> read_state) result"
  and resolveLinks ::
    "nat \<Rightarrow> ast_helpers \<Rightarrow> read_context \<Rightarrow> read_state \<Rightarrow> link list \<Rightarrow> nat
       \<Rightarrow> selection_set \<Rightarrow> val \<Rightarrow> (val list \<times> read_state) result"
where
  "readSelection 0 h ctx st entityKey select data = None"
| "readSelection (Suc n) h ctx st entityKey select data =
     (let store = ctx_store ctx;
          isQuery = (entityKey = getRootKey store OpQuery);
          st1 = (if \<not> isQuery then addDependency entityKey st else st);
          typename = (if isQuery then VStr (getRootKey store OpQuery)
                      else getField h store entityKey ''__typename'')
      in case stringOf typename of
           None \<Rightarrow> returnR (None, st1)
         | Some t \<Rightarrow>
             bindR (asData data) (\<lambda>d.
               readLoop n h ctx st1 t entityKey isQuery (iter_init select)
                 (setProp d ''__typename'' (VStr t)) False))"
| "readLoop 0 h ctx st typename entityKey isQuery stack data hasFields = None"
| "readLoop (Suc n) h ctx st typename entityKey isQuery stack data hasFields =
     (case iter_next h ctx (Some typename) entityKey stack of
        None \<Rightarrow> None
      | Some (None, stack') \<Rightarrow>
          returnR (if isQuery \<and> partial st \<and> \<not> hasFields then None else Some data, st)
      | Some (Some nd, stack') \<Rightarrow>
          (let fieldName = getName nd;
               fieldArgs = getFieldArguments h nd (ctx_variables ctx);
               fieldAlias = getFieldAlias nd;
               fieldKey = joinKeys entityKey (keyOfField h fieldName fieldArgs);
               st1 = (if isQuery then addDependency fieldKey st else st)
           in bindR (readFieldValue n h ctx st1 typename entityKey nd data)
                (\<lambda>(dataFieldValue, data1, st2).
                  case ctx_schemaPredicates ctx of
                    Some schemaPredicates \<Rightarrow>
                      if dataFieldValue = VUndefined \<and>
                         isFieldNullable schemaPredicates typename fieldName
                      then readLoop n h ctx (st2\<lparr>partial := True\<rparr>) typename entityKey isQuery
                             stack' (setProp data1 fieldAlias VNull) True
                      else returnR (None, st2)
                  | None \<Rightarrow>
                      if dataFieldValue = VUndefined then returnR (None, st2)
                      else readLoop n h ctx st2 typename entityKey isQuery
                             stack' (setProp data1 fieldAlias dataFieldValue) True)))"
| "readFieldValue 0 h ctx st typename entityKey nd data = None"
| "readFieldValue (Suc n) h ctx st typename entityKey nd data =
     (let store = ctx_store ctx;
          fieldName = getName nd;
          fieldArgs = getFieldArguments h nd (ctx_variables ctx);
          fieldAlias = getFieldAlias nd;
          fieldKey = joinKeys entityKey (keyOfField h fieldName fieldArgs);
          fieldValue = getRecord store fieldKey
      in case resolvers store typename fieldName of
           Some resolver \<Rightarrow>
             (let data1 = (if fieldValue \<noteq> VUndefined then setProp data fieldAlias fieldValue
                           else data);
                  resolverValue =
                    resolver data1 (case fieldArgs of None \<Rightarrow> [] | Some args \<Rightarrow> args);
                  isNull = (resolverValue = VUndefined \<or> resolverValue = VNull)
              in if \<not> hasSelectionSet nd \<or> isNull
                 then returnR (if isNull then VUndefined else resolverValue, data1, st)
                 else bindR (resolveResolverResult n h ctx st resolverValue fieldKey
                               (getSelectionSet nd) (getProp data1 fieldAlias))
                        (\<lambda>(v, st'). returnR (v, data1, st')))
         | None \<Rightarrow>
             if \<not> hasSelectionSet nd then returnR (fieldValue, data, st)
             else
               (case getLink store fieldKey of
                  Some link \<Rightarrow>
                    bindR (resolveLink n h ctx st link (getSelectionSet nd)
                             (getProp data fieldAlias))
                      (\<lambda>(v, st'). returnR (v, data, st'))
                | None \<Rightarrow>
                    returnR (if isObject fieldValue then fieldValue else VUndefined, data, st)))"
| "resolveResolverResult 0 h ctx st result key select prevData = None"
| "resolveResolverResult (Suc n) h ctx st result key select prevData =
     (case arrayOf result of
        Some rs \<Rightarrow>
          bindR (resolveResolverResults n h ctx st rs 0 key select prevData)
            (\<lambda>(vs, st'). returnR (VArr vs, st'))
      | None \<Rightarrow>
          if result = VNull then returnR (VNull, st)
          else if isDataOrKey result
          then bindR (readSelection n h ctx st (childKeyOf (ctx_store ctx) result key) select
                       (dataOrNew prevData))
                 (\<lambda>(r, st'). returnR (dataValue r, st'))
          else returnR (VUndefined, st))"
| "resolveResolverResults 0 h ctx st rs index key select prevData = None"
| "resolveResolverResults (Suc n) h ctx st [] index key select prevData = returnR ([], st)"
| "resolveResolverResults (Suc n) h ctx st (childResult # rs) index key select prevData =
     bindR (prevDataAt prevData index) (\<lambda>data.
     bindR (resolveResolverResult n h ctx st childResult (joinKeys key (show_nat index))
              select data) (\<lambda>(v, st').
     bindR (resolveResolverResults n h ctx st' rs (Suc index) key select prevData)
       (\<lambda>(vs, st''). returnR (v # vs, st''))))"
| "resolveLink 0 h ctx st link select prevData = None"
| "resolveLink (Suc n) h ctx st link select prevData =
     (case link of
        LArr ls \<Rightarrow>
          bindR (resolveLinks n h ctx st ls 0 select prevData)
            (\<lambda>(vs, st'). returnR (VArr vs, st'))
      | LNull \<Rightarrow> returnR (VNull, st)
      | LKey k \<Rightarrow>
          bindR (readSelection n h ctx st k select (dataOrNew prevData))
            (\<lambda>(r, st'). returnR (dataValue r, st')))"
| "resolveLinks 0 h ctx st ls i select prevData = None"
| "resolveLinks (Suc n) h ctx st [] i select prevData = returnR ([], st)"
| "resolveLinks (Suc n) h ctx st (l # ls) i select prevData =
     bindR (prevDataAt prevData i) (\<lambda>data.
     bindR (resolveLink n h ctx st l select data) (\<lambda>(v, st').
     bindR (resolveLinks n h ctx st' ls (Suc i) select prevData)
       (\<lambda>(vs, st''). returnR (v # vs, st''))))"

  by pat_completeness auto

termination
  by (relation "measure (\<lambda>x. case x of
          Inl (Inl a) \<Rightarrow> fst a
        | Inl (Inr (Inl a)) \<Rightarrow> fst a
        | Inl (Inr (Inr a)) \<Rightarrow> fst a
        | Inr (Inl (Inl a)) \<Rightarrow> fst a
        | Inr (Inl (Inr a)) \<Rightarrow> fst a
        | Inr (Inr (Inl a)) \<Rightarrow> fst a
        | Inr (Inr (Inr a)) \<Rightarrow> fst a)") auto

text \<open>\<open>isScalar\<close> of \<open>operations/shared\<close>.\<close>

fun isScalar :: "val \<Rightarrow> bool" where
  "isScalar (VArr xs) = list_ex isScalar xs"
| "isScalar VNull = False"
| "isScalar (VObj d) = (\<not> isString (getProp d ''__typename''))"
| "isScalar v = True"

fun objectOf :: "val \<Rightarrow> data option" where
  "objectOf (VObj d) = Some d"
| "objectOf v = None"

text \<open>
  \<open>readRoot\<close> with its \<open>while\<close> loop, and \<open>readRootField\<close> with its \<open>for\<close> loop.
  \<open>readRoot\<close> calls \<open>readRootField\<close> on values that are neither \<open>null\<close> nor scalar,
  that is on objects with a string \<open>__typename\<close> and on arrays of such values and of
  \<open>null\<close>; the last two branches of \<open>readRootField\<close> are for the other values, which it
  never gets: an object without a typename is what \<open>readRoot\<close> returns for it, anything
  else fails in \<open>keyOfEntity\<close>.
\<close>

function (sequential) readRoot ::
    "nat \<Rightarrow> ast_helpers \<Rightarrow> read_context \<Rightarrow> read_state \<Rightarrow> string \<Rightarrow> selection_set \<Rightarrow> data
       \<Rightarrow> (data \<times> read_state) result"
  and readRootLoop ::
    "nat \<Rightarrow> ast_helpers \<Rightarrow> read_context \<Rightarrow> read_state \<Rightarrow> string \<Rightarrow> frame list \<Rightarrow> data
       \<Rightarrow> data \<Rightarrow> (data \<times> read_state) result"
  and readRootField ::
    "nat \<Rightarrow> ast_helpers \<Rightarrow> read_context \<Rightarrow> read_state \<Rightarrow> selection_set \<Rightarrow> val
       \<Rightarrow> (val \<times> read_state) result"
  and readRootFields ::
    "nat \<Rightarrow> ast_helpers \<Rightarrow> read_context \<Rightarrow> read_state \<Rightarrow> selection_set \<Rightarrow> val list
       \<Rightarrow> (val list \<times> read_state) result"
where
  "readRoot 0 h ctx st entityKey select originalData = None"
| "readRoot (Suc n) h ctx st entityKey select originalData =
     (if \<not> isString (getProp originalData ''__typename'') then returnR (originalData, st)
      else readRootLoop n h ctx st entityKey (iter_init select) originalData
             (setProp [] ''__typename'' (getProp originalData ''__typename'')))"
| "readRootLoop 0 h ctx st entityKey stack originalData data = None"
| "readRootLoop (Suc n) h ctx st entityKey stack originalData data =
     (case iter_next h ctx (Some entityKey) entityKey stack of
        None \<Rightarrow> None
      | Some (None, stack') \<Rightarrow> returnR (data, st)
      | Some (Some nd, stack') \<Rightarrow>
          (let fieldAlias = getFieldAlias nd;
               fieldValue = getProp originalData fieldAlias
           in if hasSelectionSet nd \<and> fieldValue \<noteq> VNull \<and> \<not> isScalar fieldValue
              then bindR (readRootField n h ctx st (getSelectionSet nd) fieldValue)
                     (\<lambda>(v, st').
                       readRootLoop n h ctx st' entityKey stack' originalData
                         (setProp data fieldAlias v))
              else readRootLoop n h ctx st entityKey stack' originalData
                     (setProp data fieldAlias fieldValue)))"
| "readRootField 0 h ctx st select originalData = None"
| "readRootField (Suc n) h ctx st select originalData =
     (case arrayOf originalData of
        Some xs \<Rightarrow>
          bindR (readRootFields n h ctx st select xs) (\<lambda>(vs, st'). returnR (VArr vs, st'))
      | None \<Rightarrow>
          if originalData = VNull then returnR (VNull, st)
          else
            (case objectOf originalData of
               Some d \<Rightarrow>
                 (case keyOfEntity (ctx_store ctx) d of
                    Some entityKey \<Rightarrow>
                      bindR (readSelection n h ctx st entityKey select (VObj []))
                        (\<lambda>(fieldValue, st').
                          returnR (case fieldValue of None \<Rightarrow> VNull | Some d' \<Rightarrow> VObj d', st'))
                  | None \<Rightarrow>
                      (case stringOf (getProp d ''__typename'') of
                         Some typename \<Rightarrow>
                           bindR (readRoot n h ctx st typename select d)
                             (\<lambda>(d', st'). returnR (VObj d', st'))
                       | None \<Rightarrow> returnR (VObj d, st)))
             | None \<Rightarrow> throwR TypeError))"
| "readRootFields 0 h ctx st select xs = None"
| "readRootFields (Suc n) h ctx st select [] = returnR ([], st)"
| "readRootFields (Suc n) h ctx st select (x # xs) =
     bindR (readRootField n h ctx st select x) (\<lambda>(v, st').
     bindR (readRootFields n h ctx st' select xs) (\<lambda>(vs, st''). returnR (v # vs, st'')))"
  by pat_completeness auto

termination
  by (relation "measure (\<lambda>x. case x of
          Inl (Inl a) \<Rightarrow> fst a
        | Inl (Inr a) \<Rightarrow> fst a
        | Inr (Inl a) \<Rightarrow> fst a
        | Inr (Inr a) \<Rightarrow> fst a)") auto

text \<open>
  The request, by what \<open>getMainOperation\<close>, \<open>getSelectionSet\<close>, \<open>getFragments\<close> and
  \<open>normalizeVariables\<close> of \<open>../ast\<close> read from it: the kind of the main operation, its
  selection set, the fragment map and the variables.
\<close>

record operation_request =
  req_operation :: operation_type
  req_selectionSet :: selection_set
  req_fragments :: fragments
  req_variables :: variables

record query_result =
  res_dependencies :: "string set"
  res_partial :: bool
  res_data :: val

definition makeContext :: "store \<Rightarrow> operation_request \<Rightarrow> read_context" where
  "makeContext s request =
     \<lparr> ctx_store = s, ctx_variables = req_variables request,
       ctx_fragments = req_fragments request,
       ctx_schemaPredicates = store_schemaPredicates s \<rparr>"

text \<open>
  \<open>read\<close>; \<open>deps\<close> is the dependency set of \<open>../store\<close> when it is called.
\<close>

definition read ::
  "nat \<Rightarrow> ast_helpers \<Rightarrow> store \<Rightarrow> operation_request \<Rightarrow> data option \<Rightarrow> string set
     \<Rightarrow> query_result result" where
  "read fuel h s request input deps =
     (let rootKey = getRootKey s (req_operation request);
          rootSelect = req_selectionSet request;
          ctx = makeContext s request;
          st = \<lparr> partial = False, dependencies = deps \<rparr>
      in bindR (case input of
                  Some originalData \<Rightarrow>
                    bindR (readRoot fuel h ctx st rootKey rootSelect originalData)
                      (\<lambda>(d, st'). returnR (Some d, st'))
                | None \<Rightarrow> readSelection fuel h ctx st rootKey rootSelect (VObj []))
           (\<lambda>(data, st').
             returnR \<lparr> res_dependencies = dependencies st',
                       res_partial = (case data of None \<Rightarrow> False | Some d \<Rightarrow> partial st'),
                       res_data = (case data of None \<Rightarrow> VNull | Some d \<Rightarrow> VObj d) \<rparr>))"

text \<open>
  \<open>query\<close>. Modelled from the spec: \<open>initStoreState\<close> and \<open>clearStoreState\<close> of
  \<open>../store\<close> (section 4.2: the capture of dependencies begins, and ends, with the read),
  so the read starts from the empty dependency set.
\<close>

definition query ::
  "nat \<Rightarrow> ast_helpers \<Rightarrow> store \<Rightarrow> operation_request \<Rightarrow> data option \<Rightarrow> query_result result" where
  "query fuel h s request data = read fuel h s request data {}"

text \<open>
  Two names for what the loop of \<open>readSelection\<close> computes for a field node: its full
  field key, and the state after \<open>if (isQuery) addDependency(fieldKey)\<close>.
\<close>

definition fieldKeyOf :: "ast_helpers \<Rightarrow> read_context \<Rightarrow> string \<Rightarrow> node \<Rightarrow> string" where
  "fieldKeyOf h ctx entityKey nd =
     joinKeys entityKey
       (keyOfField h (getName nd) (getFieldArguments h nd (ctx_variables ctx)))"

definition loopState :: "ast_helpers \<Rightarrow> read_context \<Rightarrow> string \<Rightarrow> bool \<Rightarrow> node \<Rightarrow> read_state \<Rightarrow> read_state" where
  "loopState h ctx entityKey isQuery nd st =
     (if isQuery then addDependency (fieldKeyOf h ctx entityKey nd) st else st)"

text \<open>
  The typename \<open>readSelection\<close> reads for an entity, and the state after
  \<open>if (!isQuery) addDependency(entityKey)\<close>.
\<close>

definition entityTypename :: "ast_helpers \<Rightarrow> read_context \<Rightarrow> string \<Rightarrow> val" where
  "entityTypename h ctx entityKey =
     (if entityKey = getRootKey (ctx_store ctx) OpQuery
      then VStr (getRootKey (ctx_store ctx) OpQuery)
      else getField h (ctx_store ctx) entityKey ''__typename'')"

definition entityState :: "read_context \<Rightarrow> string \<Rightarrow> read_state \<Rightarrow> read_state" where
  "entityState ctx entityKey st =
     (if entityKey \<noteq> getRootKey (ctx_store ctx) OpQuery then addDependency entityKey st else st)"

text \<open>
  The field nodes that repeated calls of \<open>next\<close> return, starting from a stack.
\<close>

inductive iter_yields ::
  "ast_helpers \<Rightarrow> read_context \<Rightarrow> string option \<Rightarrow> string \<Rightarrow> frame list \<Rightarrow> node \<Rightarrow> bool"
  for h ctx typename entityKey where
    first: "iter_next h ctx typename entityKey stack = Some (Some nd, stack')
            \<Longrightarrow> iter_yields h ctx typename entityKey stack nd"
  | later: "iter_next h ctx typename entityKey stack = Some (Some nd', stack')
            \<Longrightarrow> iter_yields h ctx typename entityKey stack' nd
            \<Longrightarrow> iter_yields h ctx typename entityKey stack nd"

text \<open>
  A field that is missing from the cache: no resolver is registered for it, its record is
  \<open>undefined\<close> and, when it has a selection set, so is its link.
\<close>

definition uncached :: "ast_helpers \<Rightarrow> read_context \<Rightarrow> string \<Rightarrow> string \<Rightarrow> node \<Rightarrow> bool" where
  "uncached h ctx typename entityKey nd =
     (resolvers (ctx_store ctx) typename (getName nd) = None \<and>
      getRecord (ctx_store ctx) (fieldKeyOf h ctx entityKey nd) = VUndefined \<and>
      (hasSelectionSet nd \<longrightarrow> getLink (ctx_store ctx) (fieldKeyOf h ctx entityKey nd) = None))"

text \<open>
  The fields \<open>readRoot\<close> copies from the supplied data: all but those with a selection
  set whose supplied value is neither \<open>null\<close> nor scalar.
\<close>

definition copied :: "data \<Rightarrow> node \<Rightarrow> bool" where
  "copied originalData nd =
     (\<not> (hasSelectionSet nd \<and> getProp originalData (getFieldAlias nd) \<noteq> VNull \<and>
         \<not> isScalar (getProp originalData (getFieldAlias nd))))"

section \<open>Writing to the store\<close>

text \<open>
  Modelled from the spec: \<open>writeRecord\<close> and \<open>writeLink\<close> of the store (section 4.2).
\<close>

definition writeRecord :: "store \<Rightarrow> string \<Rightarrow> val \<Rightarrow> store" where
  "writeRecord s fieldKey v = s\<lparr> records := (records s)(fieldKey \<mapsto> v) \<rparr>"

definition writeLink :: "store \<Rightarrow> string \<Rightarrow> link \<Rightarrow> store" where
  "writeLink s fieldKey l = s\<lparr> links := (links s)(fieldKey \<mapsto> l) \<rparr>"

text \<open>
  Modelled from the spec: the write path of \<open>operations/write\<close> (section 4.3), which the
  tests of the sources call but the sources do not contain. The state is the store and the
  dependency set. For each field node that the selection iterator returns for the data's
  typename: a field without a selection set is written as a record under
  \<open>joinKeys(entityKey, fieldKey)\<close> and the entity key becomes a dependency; \<open>null\<close> is
  written as a null link; an array is written element by element into a parallel link, the
  element at index \<open>i\<close> under the prefix \<open>joinKeys(fullKey, i)\<close> as in the read path
  (section 4.4); a mapping is written under its entity key when \<open>keyOfEntity\<close> gives one and
  under the prefix \<open>fullKey\<close> otherwise. The \<open>__typename\<close> of the data, which the iterator
  skips, is written once per entity (sections 3 and 4.5). One detail is fixed by the
  pagination tests of the sources, which read back mappings without an identifier that
  were written before: \<open>readSelection\<close> finds a child only through the link of its field,
  so the link to the prefix is written for such a child as well. No updater is registered
  (step 4), and a value that is none of \<open>null\<close>, an array or a mapping where the field has a
  selection set is outside the algorithm of the spec: it is the error \<open>TypeError\<close> here.
\<close>

type_synonym write_state = "store \<times> string set"

function (sequential) writeSelection ::
    "nat \<Rightarrow> ast_helpers \<Rightarrow> operation_request \<Rightarrow> write_state \<Rightarrow> string \<Rightarrow> selection_set
       \<Rightarrow> data \<Rightarrow> write_state result"
  and writeLoop ::
    "nat \<Rightarrow> ast_helpers \<Rightarrow> operation_request \<Rightarrow> write_state \<Rightarrow> string option \<Rightarrow> string
       \<Rightarrow> frame list \<Rightarrow> data \<Rightarrow> write_state result"
  and writeField ::
    "nat \<Rightarrow> ast_helpers \<Rightarrow> operation_request \<Rightarrow> write_state \<Rightarrow> string \<Rightarrow> selection_set
       \<Rightarrow> val \<Rightarrow> (link \<times> write_state) result"
  and writeFields ::
    "nat \<Rightarrow> ast_helpers \<Rightarrow> operation_request \<Rightarrow> write_state \<Rightarrow> string \<Rightarrow> selection_set
       \<Rightarrow> val list \<Rightarrow> nat \<Rightarrow> (link list \<times> write_state) result"
where
  "writeSelection 0 h request st entityKey select data = None"
| "writeSelection (Suc n) h request st entityKey select data =
     (let typename = getProp data ''__typename'';
          s1 = (if isString typename
                then writeRecord (fst st)
                       (joinKeys entityKey (keyOfField h ''__typename'' None)) typename
                else fst st)
      in writeLoop n h request (s1, snd st) (stringOf typename) entityKey (iter_init select)
           data)"
| "writeLoop 0 h request st typename entityKey stack data = None"
| "writeLoop (Suc n) h request st typename entityKey stack data =
     (case iter_next h (makeContext (fst st) request) typename entityKey stack of
        None \<Rightarrow> None
      | Some (None, stack') \<Rightarrow> returnR st
      | Some (Some nd, stack') \<Rightarrow>
          (let fieldKey = keyOfField h (getName nd)
                            (getFieldArguments h nd (req_variables request));
               fullKey = joinKeys entityKey fieldKey;
               v = getProp data (getFieldAlias nd)
           in if \<not> hasSelectionSet nd
              then writeLoop n h request (writeRecord (fst st) fullKey v, insert entityKey (snd st))
                     typename entityKey stack' data
              else bindR (writeField n h request st fullKey (getSelectionSet nd) v)
                     (\<lambda>(l, st').
                        writeLoop n h request (writeLink (fst st') fullKey l, snd st')
                          typename entityKey stack' data)))"
| "writeField 0 h request st key select v = None"
| "writeField (Suc n) h request st key select v =
     (if v = VNull then returnR (LNull, st)
      else
        (case arrayOf v of
           Some xs \<Rightarrow>
             bindR (writeFields n h request st key select xs 0)
               (\<lambda>(ls, st'). returnR (LArr ls, st'))
         | None \<Rightarrow>
             (case objectOf v of
                None \<Rightarrow> throwR TypeError
              | Some d \<Rightarrow>
                  (case keyOfEntity (fst st) d of
                     Some k \<Rightarrow>
                       bindR (writeSelection n h request st k select d)
                         (\<lambda>st'. returnR (LKey k, st'))
                   | None \<Rightarrow>
                       bindR (writeSelection n h request st key select d)
                         (\<lambda>st'. returnR (LKey key, st'))))))"
| "writeFields 0 h request st key select xs i = None"
| "writeFields (Suc n) h request st key select [] i = returnR ([], st)"
| "writeFields (Suc n) h request st key select (x # xs) i =
     bindR (writeField n h request st (joinKeys key (show_nat i)) select x) (\<lambda>(l, st').
     bindR (writeFields n h request st' key select xs (Suc i)) (\<lambda>(ls, st'').
       returnR (l # ls, st'')))"
  by pat_completeness auto

termination
  by (relation "measure (\<lambda>x. case x of
          Inl (Inl a) \<Rightarrow> fst a
        | Inl (Inr a) \<Rightarrow> fst a
        | Inr (Inl a) \<Rightarrow> fst a
        | Inr (Inr a) \<Rightarrow> fst a)") auto

text \<open>
  Modelled from the spec: \<open>write\<close> (section 4.3, steps 1 and 2), from the root key of the
  main operation with its top-level selection set.
\<close>

definition writeOperation ::
  "nat \<Rightarrow> ast_helpers \<Rightarrow> store \<Rightarrow> operation_request \<Rightarrow> data \<Rightarrow> write_state result" where
  "writeOperation fuel h s request data =
     writeSelection fuel h request (s, {}) (getRootKey s (req_operation request))
       (req_selectionSet request) data"

text \<open>A write of a result against a request, then the query of the same request.\<close>

definition writeThenQuery ::
  "nat \<Rightarrow> ast_helpers \<Rightarrow> store \<Rightarrow> operation_request \<Rightarrow> data \<Rightarrow> query_result result" where
  "writeThenQuery fuel h s request data =
     bindR (writeOperation fuel h s request data)
       (\<lambda>(s', deps). query fuel h s' request None)"

section \<open>The populate transform\<close>

text \<open>
  Modelled from the spec: the schema oracle of the populate transform (section 4.6), by
  what the transform asks of it: the type of an operation root, the named type that a
  field of a type returns (list and non-null wrappers removed) and the concrete object
  types that a type expands to, in the order of the schema. An object type expands to
  itself.
\<close>

record populate_schema =
  rootTypeOf :: "operation_type \<Rightarrow> string"
  fieldTypeOf :: "string \<Rightarrow> string \<Rightarrow> string option"
  possibleTypesOf :: "string \<Rightarrow> string list"

definition isObjectType :: "populate_schema \<Rightarrow> string \<Rightarrow> bool" where
  "isObjectType sch t = (possibleTypesOf sch t = [t])"

text \<open>
  A document is its operation (kind, name, selection set) with its fragment definitions,
  and an operation of the exchange is a document with its key and its operation name
  (\<open>query\<close>, \<open>mutation\<close>, \<open>subscription\<close>, \<open>teardown\<close>), as in the tests of
  \<open>populateExchange\<close>.
\<close>

record document =
  doc_operation :: operation_type
  doc_name :: "string option"
  doc_selectionSet :: selection_set
  doc_fragments :: "node list"

datatype operation =
    QueryOperation nat document
  | MutationOperation nat document
  | SubscriptionOperation nat document
  | TeardownOperation nat


text \<open>
  Modelled from the spec: the state of the transform (section 4.6): \<open>activeQueries\<close> from
  operation key to the typenames of the query, \<open>typeFragments\<close> from typename to the
  synthesized fragments \<open>{ name, node, key }\<close> in the order in which they were recorded,
  and \<open>userFragments\<close>.
\<close>

record populate_fragment =
  pf_name :: string
  pf_node :: node
  pf_key :: nat

record populate_state =
  activeQueries :: "nat \<rightharpoonup> string list"
  typeFragments :: "string \<Rightarrow> populate_fragment list"
  userFragments :: "(string \<times> node) list"

definition initial_state :: populate_state where
  "initial_state = \<lparr> activeQueries = Map.empty, typeFragments = (\<lambda>t. []), userFragments = [] \<rparr>"

text \<open>
  Modelled from the spec: a query seen for the first time for its key (one that
  \<open>activeQueries\<close> does not hold) is walked: every selection set whose parent field returns
  a concrete object type \<open>T\<close> becomes a synthesized fragment on \<open>T\<close> with the key of the
  query, in the order of the walk (the operation, then the fragment definitions). The
  spec names a fragment \<open><Typename>_PopulateFragment_<key>\<close>; the snapshots of the tests
  have \<open>Todo_PopulateFragment_0\<close> and \<open>Todo_PopulateFragment_1\<close> for two selection sets of
  one query, so the suffix is the number of fragments recorded before on that type.
\<close>

definition fieldTypeIn :: "populate_schema \<Rightarrow> string option \<Rightarrow> string \<Rightarrow> string option" where
  "fieldTypeIn sch parent name =
     (case parent of None \<Rightarrow> None | Some p \<Rightarrow> fieldTypeOf sch p name)"

fun extractSelections :: "populate_schema \<Rightarrow> string option \<Rightarrow> node \<Rightarrow> (string \<times> selection_set) list" where
  "extractSelections sch parent (Field a n args ds None) = []"
| "extractSelections sch parent (Field a n args ds (Some sel)) =
     (case fieldTypeIn sch parent n of
        Some t \<Rightarrow> if isObjectType sch t then [(t, sel)] else []
      | None \<Rightarrow> [])
     @ concat (map (extractSelections sch (fieldTypeIn sch parent n)) sel)"
| "extractSelections sch parent (FragmentSpread n ds) = []"
| "extractSelections sch parent (InlineFragment tc ds sel) =
     concat (map (extractSelections sch (case tc of None \<Rightarrow> parent | Some t \<Rightarrow> Some t)) sel)"
| "extractSelections sch parent (FragmentDefinition n tc ds sel) =
     concat (map (extractSelections sch tc) sel)"

definition extractDocument :: "populate_schema \<Rightarrow> document \<Rightarrow> (string \<times> selection_set) list" where
  "extractDocument sch doc =
     concat (map (extractSelections sch (Some (rootTypeOf sch (doc_operation doc))))
               (doc_selectionSet doc))
     @ concat (map (extractSelections sch None) (doc_fragments doc))"

definition fragmentName :: "string \<Rightarrow> nat \<Rightarrow> string" where
  "fragmentName t i = t @ ''_PopulateFragment_'' @ show_nat i"

definition addFragment ::
  "nat \<Rightarrow> (string \<Rightarrow> populate_fragment list) \<Rightarrow> string \<times> selection_set
     \<Rightarrow> (string \<Rightarrow> populate_fragment list)" where
  "addFragment key tf ts =
     (let t = fst ts; name = fragmentName t (length (tf t))
      in tf(t := tf t @ [\<lparr> pf_name = name,
                            pf_node = FragmentDefinition name (Some t) [] (snd ts),
                            pf_key = key \<rparr>]))"

definition handleQuery :: "populate_schema \<Rightarrow> nat \<Rightarrow> document \<Rightarrow> populate_state \<Rightarrow> populate_state" where
  "handleQuery sch key doc st =
     (if activeQueries st key \<noteq> None then st
      else
        (let extracted = extractDocument sch doc
         in \<lparr> activeQueries = (activeQueries st)(key \<mapsto> remdups (map fst extracted)),
              typeFragments = foldl (addFragment key) (typeFragments st) extracted,
              userFragments = userFragments st @ map (\<lambda>d. (getName d, d)) (doc_fragments doc) \<rparr>))"

text \<open>
  Modelled from the spec: a teardown removes the query of its key from \<open>activeQueries\<close>; a
  synthesized fragment is live while the query of its key is there.
\<close>

definition handleTeardown :: "nat \<Rightarrow> populate_state \<Rightarrow> populate_state" where
  "handleTeardown key st = st\<lparr> activeQueries := (activeQueries st)(key := None) \<rparr>"

definition isLive :: "populate_state \<Rightarrow> populate_fragment \<Rightarrow> bool" where
  "isLive st f = (activeQueries st (pf_key f) \<noteq> None)"

text \<open>
  Modelled from the spec: the rewrite of a field annotated \<open>@populate\<close>. Its return type is
  expanded to its concrete types; for each of them, in the order of the expansion, the
  live fragments on it are spread, ordered by key (section 4.6, "Ordering"; the order of
  the types is that of the snapshots of the tests, \<open>User\<close> before \<open>Todo\<close> for
  \<open>union UnionType = User | Todo\<close>). The spreads come before the selections that the user
  wrote, as in the snapshots. If no fragment applies the selection set is the single
  field \<open>__typename\<close>. The directive is removed.
\<close>

definition liveFragments :: "populate_schema \<Rightarrow> populate_state \<Rightarrow> string \<Rightarrow> populate_fragment list" where
  "liveFragments sch st t =
     concat (map (\<lambda>c. sort_key pf_key (filter (isLive st) (typeFragments st c)))
               (possibleTypesOf sch t))"

definition isPopulate :: "directive \<Rightarrow> bool" where
  "isPopulate d = (case d of Directive name args \<Rightarrow> name = ''populate'')"

definition typenameField :: node where
  "typenameField = Field None ''__typename'' [] [] None"

definition populatedFragments ::
  "populate_schema \<Rightarrow> populate_state \<Rightarrow> string option \<Rightarrow> string \<Rightarrow> populate_fragment list" where
  "populatedFragments sch st parent name =
     (case fieldTypeIn sch parent name of None \<Rightarrow> [] | Some t \<Rightarrow> liveFragments sch st t)"

definition populatedSelection ::
  "populate_schema \<Rightarrow> populate_state \<Rightarrow> string option \<Rightarrow> string \<Rightarrow> selection_set \<Rightarrow> selection_set" where
  "populatedSelection sch st parent name existing =
     (let spreads = map (\<lambda>f. FragmentSpread (pf_name f) []) (populatedFragments sch st parent name)
      in if spreads = [] then [typenameField] else spreads @ existing)"

fun rewriteNode :: "populate_schema \<Rightarrow> populate_state \<Rightarrow> string option \<Rightarrow> node \<Rightarrow> node" where
  "rewriteNode sch st parent (Field a n args ds None) =
     (if list_ex isPopulate ds
      then Field a n args (filter (\<lambda>d. \<not> isPopulate d) ds)
             (Some (populatedSelection sch st parent n []))
      else Field a n args ds None)"
| "rewriteNode sch st parent (Field a n args ds (Some sel)) =
     (if list_ex isPopulate ds
      then Field a n args (filter (\<lambda>d. \<not> isPopulate d) ds)
             (Some (populatedSelection sch st parent n
                      (map (rewriteNode sch st (fieldTypeIn sch parent n)) sel)))
      else Field a n args ds (Some (map (rewriteNode sch st (fieldTypeIn sch parent n)) sel)))"
| "rewriteNode sch st parent (FragmentSpread n ds) = FragmentSpread n ds"
| "rewriteNode sch st parent (InlineFragment tc ds sel) =
     InlineFragment tc ds
       (map (rewriteNode sch st (case tc of None \<Rightarrow> parent | Some t \<Rightarrow> Some t)) sel)"
| "rewriteNode sch st parent (FragmentDefinition n tc ds sel) =
     FragmentDefinition n tc ds (map (rewriteNode sch st tc) sel)"

text \<open>
  The synthesized fragments that the rewrite of a node spreads, in the order of the
  document.
\<close>

fun usedFragments :: "populate_schema \<Rightarrow> populate_state \<Rightarrow> string option \<Rightarrow> node \<Rightarrow> populate_fragment list" where
  "usedFragments sch st parent (Field a n args ds None) =
     (if list_ex isPopulate ds then populatedFragments sch st parent n else [])"
| "usedFragments sch st parent (Field a n args ds (Some sel)) =
     (if list_ex isPopulate ds then populatedFragments sch st parent n else [])
     @ concat (map (usedFragments sch st (fieldTypeIn sch parent n)) sel)"
| "usedFragments sch st parent (FragmentSpread n ds) = []"
| "usedFragments sch st parent (InlineFragment tc ds sel) =
     concat (map (usedFragments sch st (case tc of None \<Rightarrow> parent | Some t \<Rightarrow> Some t)) sel)"
| "usedFragments sch st parent (FragmentDefinition n tc ds sel) =
     concat (map (usedFragments sch st tc) sel)"

definition firstOccurrences :: "'a list \<Rightarrow> 'a list" where
  "firstOccurrences xs = rev (remdups (rev xs))"

text \<open>
  Modelled from the spec: the definitions appended to a rewritten document: those of the
  synthesized fragments it spreads, once each, then the user fragments that these refer
  to, directly or through other user fragments, and that the document does not define.
\<close>

fun spreadNames :: "node \<Rightarrow> string list" where
  "spreadNames (Field a n args ds None) = []"
| "spreadNames (Field a n args ds (Some sel)) = concat (map spreadNames sel)"
| "spreadNames (FragmentSpread n ds) = [n]"
| "spreadNames (InlineFragment tc ds sel) = concat (map spreadNames sel)"
| "spreadNames (FragmentDefinition n tc ds sel) = concat (map spreadNames sel)"

fun referencedNames :: "nat \<Rightarrow> (string \<times> node) list \<Rightarrow> string list \<Rightarrow> string list" where
  "referencedNames 0 uf names = names"
| "referencedNames (Suc n) uf names =
     referencedNames n uf
       (firstOccurrences
          (names @ concat (map (\<lambda>x. case map_of uf x of None \<Rightarrow> [] | Some d \<Rightarrow> spreadNames d)
                             names)))"

definition documentFragments ::
  "populate_schema \<Rightarrow> populate_state \<Rightarrow> document \<Rightarrow> populate_fragment list" where
  "documentFragments sch st doc =
     firstOccurrences
       (concat (map (usedFragments sch st (Some (rootTypeOf sch (doc_operation doc))))
                  (doc_selectionSet doc))
        @ concat (map (usedFragments sch st None) (doc_fragments doc)))"

definition requiredUserFragments ::
  "populate_state \<Rightarrow> document \<Rightarrow> populate_fragment list \<Rightarrow> node list" where
  "requiredUserFragments st doc fs =
     (let uf = userFragments st;
          names = referencedNames (length uf) uf
                    (firstOccurrences (concat (map (\<lambda>f. spreadNames (pf_node f)) fs)))
      in concat (map (\<lambda>x. if x \<in> set (map getName (doc_fragments doc)) then []
                           else (case map_of uf x of None \<Rightarrow> [] | Some d \<Rightarrow> [d])) names))"

definition rewriteDocument :: "populate_schema \<Rightarrow> populate_state \<Rightarrow> document \<Rightarrow> document" where
  "rewriteDocument sch st doc =
     (let fs = documentFragments sch st doc
      in doc\<lparr> doc_selectionSet :=
                map (rewriteNode sch st (Some (rootTypeOf sch (doc_operation doc))))
                  (doc_selectionSet doc),
              doc_fragments :=
                map (rewriteNode sch st None) (doc_fragments doc)
                @ map pf_node fs @ requiredUserFragments st doc fs \<rparr>)"

text \<open>
  Modelled from the spec: the transform over the stream of operations: a query and a
  teardown change the state and pass unchanged, a mutation and a subscription are
  rewritten in the current state.
\<close>

fun populateStep :: "populate_schema \<Rightarrow> populate_state \<Rightarrow> operation \<Rightarrow> operation \<times> populate_state" where
  "populateStep sch st (QueryOperation key doc) =
     (QueryOperation key doc, handleQuery sch key doc st)"
| "populateStep sch st (TeardownOperation key) = (TeardownOperation key, handleTeardown key st)"
| "populateStep sch st (MutationOperation key doc) =
     (MutationOperation key (rewriteDocument sch st doc), st)"
| "populateStep sch st (SubscriptionOperation key doc) =
     (SubscriptionOperation key (rewriteDocument sch st doc), st)"

fun populateFrom :: "populate_schema \<Rightarrow> populate_state \<Rightarrow> operation list \<Rightarrow> operation list \<times> populate_state" where
  "populateFrom sch st [] = ([], st)"
| "populateFrom sch st (op # ops) =
     (let (op', st1) = populateStep sch st op;
          (ops', st2) = populateFrom sch st1 ops
      in (op' # ops', st2))"

definition populateExchange :: "populate_schema \<Rightarrow> operation list \<Rightarrow> operation list" where
  "populateExchange sch ops = fst (populateFrom sch initial_state ops)"

definition stateAfter :: "populate_schema \<Rightarrow> operation list \<Rightarrow> populate_state" where
  "stateAfter sch ops = snd (populateFrom sch initial_state ops)"



fun isQueryOf :: "nat \<Rightarrow> operation \<Rightarrow> bool" where
  "isQueryOf key (QueryOperation k doc) = (k = key)"
| "isQueryOf key op = False"




section \<open>Fragment references and traversals\<close>

text \<open>
  The names of the fragments that a node refers to, directly or through the selection sets
  nested in it. The iterator looks up in the fragment map the name of every node that is
  neither a field nor an inline fragment.
\<close>

fun refsOf :: "node \<Rightarrow> string set" where
  "refsOf (Field a n args ds None) = {}"
| "refsOf (Field a n args ds (Some sel)) = \<Union> (set (map refsOf sel))"
| "refsOf (FragmentSpread n ds) = {n}"
| "refsOf (InlineFragment tc ds sel) = \<Union> (set (map refsOf sel))"
| "refsOf (FragmentDefinition n tc ds sel) = insert n (\<Union> (set (map refsOf sel)))"

definition selectionRefs :: "selection_set \<Rightarrow> string set" where
  "selectionRefs sel = \<Union> (set (map refsOf sel))"

text \<open>
  The reference relation of a fragment map: \<open>(g, f)\<close> when the selection set of the
  fragment \<open>f\<close> of the map refers to the name \<open>g\<close>.
\<close>

definition fragmentRefs :: "fragments \<Rightarrow> (string \<times> string) set" where
  "fragmentRefs fs = {(g, f). \<exists>d. fs f = Some d \<and> g \<in> selectionRefs (getSelectionSet d)}"

text \<open>
  The names a selection set reaches through the map, and the selection sets whose
  references are acyclic: no name they reach refers to itself through the map.
\<close>

definition reach :: "fragments \<Rightarrow> selection_set \<Rightarrow> string set" where
  "reach fs sel = {g. \<exists>s\<in>selectionRefs sel. (g, s) \<in> (fragmentRefs fs)\<^sup>*}"

definition acyclicFrom :: "fragments \<Rightarrow> selection_set \<Rightarrow> bool" where
  "acyclicFrom fs sel = (\<forall>f\<in>reach fs sel. (f, f) \<notin> (fragmentRefs fs)\<^sup>+)"

text \<open>
  Calling \<open>next\<close> until it returns \<open>undefined\<close>, as the \<open>while\<close> loops of \<open>readSelection\<close>
  and \<open>readRoot\<close> do: the nodes returned, in order. The result is \<open>None\<close> when a call
  does not return or when the calls never return \<open>undefined\<close>.
\<close>

partial_function (option) iter_drain ::
  "ast_helpers \<Rightarrow> read_context \<Rightarrow> string option \<Rightarrow> string \<Rightarrow> frame list \<Rightarrow> node list option" where
  "iter_drain h ctx typename entityKey stack =
     Option.bind (iter_next h ctx typename entityKey stack) (\<lambda>(r, stack').
       case r of
         None \<Rightarrow> Some []
       | Some nd \<Rightarrow> Option.bind (iter_drain h ctx typename entityKey stack') (\<lambda>ns. Some (nd # ns)))"

text \<open>
  The order in which the selection sets of a traversal decrease: fewer reachable fragment
  names, or as many and a smaller syntax tree.
\<close>

definition selOrder :: "fragments \<Rightarrow> (selection_set \<times> selection_set) set" where
  "selOrder fs = {(a, b). reach fs a \<subseteq> reach fs b}
                   \<inter> measures [\<lambda>sel. card (reach fs sel), \<lambda>sel. size_list size sel]"

text \<open>The results of a function at two amounts of fuel: the larger amount changes only \<open>None\<close>.\<close>

definition fuel_le :: "'a option \<Rightarrow> 'a option \<Rightarrow> bool" where
  "fuel_le a b = (a = None \<or> a = b)"

text \<open>Every read of a selection set returns, given enough fuel.\<close>

definition selectionReturns :: "ast_helpers \<Rightarrow> read_context \<Rightarrow> selection_set \<Rightarrow> bool" where
  "selectionReturns h ctx sel =
     (\<forall>st ek data. \<exists>n r. readSelection n h ctx st ek sel data = Some r)"

definition rootReturns :: "ast_helpers \<Rightarrow> read_context \<Rightarrow> selection_set \<Rightarrow> bool" where
  "rootReturns h ctx sel = (\<forall>st ek d. \<exists>n r. readRoot n h ctx st ek sel d = Some r)"

section \<open>The calls of a read\<close>

text \<open>
  The calls that the functions of the read path make to one another, as data: a call is
  a function of query.ts with its arguments, the fuel and the state of the reader
  (\<open>partial\<close> and the dependencies) first. \<open>resultOf\<close> is what a call returns and
  \<open>stateOf\<close> the state it starts in. The \<open>undefined\<close> of \<open>readSelection\<close> is the
  value \<open>VUndefined\<close>, and a loop over a list returns the array of its elements.
\<close>

datatype read_call =
    CallSelection nat read_state string selection_set val
  | CallLoop nat read_state string string bool "frame list" data bool
  | CallFieldValue nat read_state string string node data
  | CallResolverResult nat read_state val string selection_set val
  | CallResolverResults nat read_state "val list" nat string selection_set val
  | CallLink nat read_state link selection_set val
  | CallLinks nat read_state "link list" nat selection_set val
  | CallRoot nat read_state string selection_set data
  | CallRootLoop nat read_state string "frame list" data data
  | CallRootField nat read_state selection_set val
  | CallRootFields nat read_state selection_set "val list"

fun resultOf :: "ast_helpers \<Rightarrow> read_context \<Rightarrow> read_call \<Rightarrow> (val \<times> read_state) result" where
  "resultOf h ctx (CallSelection n st ek sel data) =
     bindR (readSelection n h ctx st ek sel data) (\<lambda>(r, st'). returnR (dataValue r, st'))"
| "resultOf h ctx (CallLoop n st tn ek q stack d hf) =
     bindR (readLoop n h ctx st tn ek q stack d hf) (\<lambda>(r, st'). returnR (dataValue r, st'))"
| "resultOf h ctx (CallFieldValue n st tn ek nd d) =
     bindR (readFieldValue n h ctx st tn ek nd d) (\<lambda>(v, d1, st'). returnR (v, st'))"
| "resultOf h ctx (CallResolverResult n st res key sel prev) =
     resolveResolverResult n h ctx st res key sel prev"
| "resultOf h ctx (CallResolverResults n st rs i key sel prev) =
     bindR (resolveResolverResults n h ctx st rs i key sel prev)
       (\<lambda>(vs, st'). returnR (VArr vs, st'))"
| "resultOf h ctx (CallLink n st l sel prev) = resolveLink n h ctx st l sel prev"
| "resultOf h ctx (CallLinks n st ls i sel prev) =
     bindR (resolveLinks n h ctx st ls i sel prev) (\<lambda>(vs, st'). returnR (VArr vs, st'))"
| "resultOf h ctx (CallRoot n st ek sel d) =
     bindR (readRoot n h ctx st ek sel d) (\<lambda>(d', st'). returnR (VObj d', st'))"
| "resultOf h ctx (CallRootLoop n st ek stack inp acc) =
     bindR (readRootLoop n h ctx st ek stack inp acc) (\<lambda>(d', st'). returnR (VObj d', st'))"
| "resultOf h ctx (CallRootField n st sel v) = readRootField n h ctx st sel v"
| "resultOf h ctx (CallRootFields n st sel xs) =
     bindR (readRootFields n h ctx st sel xs) (\<lambda>(vs, st'). returnR (VArr vs, st'))"

fun stateOf :: "read_call \<Rightarrow> read_state" where
  "stateOf (CallSelection n st ek sel data) = st"
| "stateOf (CallLoop n st tn ek q stack d hf) = st"
| "stateOf (CallFieldValue n st tn ek nd d) = st"
| "stateOf (CallResolverResult n st res key sel prev) = st"
| "stateOf (CallResolverResults n st rs i key sel prev) = st"
| "stateOf (CallLink n st l sel prev) = st"
| "stateOf (CallLinks n st ls i sel prev) = st"
| "stateOf (CallRoot n st ek sel d) = st"
| "stateOf (CallRootLoop n st ek stack inp acc) = st"
| "stateOf (CallRootField n st sel v) = st"
| "stateOf (CallRootFields n st sel xs) = st"

text \<open>
  The data that \<open>readSelection\<close> hands to a resolver (the cached value of the field is
  copied into it first) and the value the resolver returns.
\<close>

definition resolverData :: "ast_helpers \<Rightarrow> read_context \<Rightarrow> string \<Rightarrow> node \<Rightarrow> data \<Rightarrow> data" where
  "resolverData h ctx entityKey nd data =
     (if getRecord (ctx_store ctx) (fieldKeyOf h ctx entityKey nd) \<noteq> VUndefined
      then setProp data (getFieldAlias nd)
             (getRecord (ctx_store ctx) (fieldKeyOf h ctx entityKey nd))
      else data)"

definition resolverValue ::
  "ast_helpers \<Rightarrow> read_context \<Rightarrow> resolver \<Rightarrow> string \<Rightarrow> node \<Rightarrow> data \<Rightarrow> val" where
  "resolverValue h ctx resolver entityKey nd data =
     resolver (resolverData h ctx entityKey nd data)
       (case getFieldArguments h nd (ctx_variables ctx) of None \<Rightarrow> [] | Some args \<Rightarrow> args)"

text \<open>
  \<open>calls h ctx c c'\<close>: the call \<open>c\<close> makes the call \<open>c'\<close>, one rule for each call site.
  \<open>readSelection\<close> enters its loop when the entity has a typename. An iteration of the
  loop computes the value of the next field node and goes on with the rest of the
  iterator, unless it returns \<open>undefined\<close> there. A field with a resolver and a selection
  set calls \<open>resolveResolverResult\<close> on the resolver's result (if that is neither
  \<open>undefined\<close> nor \<open>null\<close>), a field with a selection set and a link calls
  \<open>resolveLink\<close>; each of the two calls itself on the elements of an array, one after
  the other, and \<open>readSelection\<close> on an entity. \<open>readRoot\<close> calls \<open>readRootField\<close> on
  the fields it does not copy; \<open>readRootField\<close> calls itself on the elements of an
  array, \<open>readSelection\<close> on an object that has an entity key and \<open>readRoot\<close> on an
  object that has a typename and no key.
\<close>

inductive calls :: "ast_helpers \<Rightarrow> read_context \<Rightarrow> read_call \<Rightarrow> read_call \<Rightarrow> bool"
  for h ctx where
    selection_loop:
      "stringOf (entityTypename h ctx ek) = Some tn \<Longrightarrow> asData data = Some (Inr d) \<Longrightarrow>
       calls h ctx (CallSelection (Suc n) st ek sel data)
         (CallLoop n (entityState ctx ek st) tn ek (ek = getRootKey (ctx_store ctx) OpQuery)
            (iter_init sel) (setProp d ''__typename'' (VStr tn)) False)"
  | loop_field:
      "iter_next h ctx (Some tn) ek stack = Some (Some nd, stack') \<Longrightarrow>
       calls h ctx (CallLoop (Suc n) st tn ek q stack d hf)
         (CallFieldValue n (loopState h ctx ek q nd st) tn ek nd d)"
  | loop_nullable:
      "iter_next h ctx (Some tn) ek stack = Some (Some nd, stack') \<Longrightarrow>
       readFieldValue n h ctx (loopState h ctx ek q nd st) tn ek nd d
         = Some (Inr (VUndefined, d1, st2)) \<Longrightarrow>
       ctx_schemaPredicates ctx = Some sp \<Longrightarrow> isFieldNullable sp tn (getName nd) \<Longrightarrow>
       calls h ctx (CallLoop (Suc n) st tn ek q stack d hf)
         (CallLoop n (st2\<lparr>partial := True\<rparr>) tn ek q stack'
            (setProp d1 (getFieldAlias nd) VNull) True)"
  | loop_emitted:
      "iter_next h ctx (Some tn) ek stack = Some (Some nd, stack') \<Longrightarrow>
       readFieldValue n h ctx (loopState h ctx ek q nd st) tn ek nd d
         = Some (Inr (v, d1, st2)) \<Longrightarrow>
       ctx_schemaPredicates ctx = None \<Longrightarrow> v \<noteq> VUndefined \<Longrightarrow>
       calls h ctx (CallLoop (Suc n) st tn ek q stack d hf)
         (CallLoop n st2 tn ek q stack' (setProp d1 (getFieldAlias nd) v) True)"
  | field_resolver:
      "resolvers (ctx_store ctx) tn (getName nd) = Some resolver \<Longrightarrow> hasSelectionSet nd \<Longrightarrow>
       resolverValue h ctx resolver ek nd d \<noteq> VUndefined \<Longrightarrow>
       resolverValue h ctx resolver ek nd d \<noteq> VNull \<Longrightarrow>
       calls h ctx (CallFieldValue (Suc n) st tn ek nd d)
         (CallResolverResult n st (resolverValue h ctx resolver ek nd d) (fieldKeyOf h ctx ek nd)
            (getSelectionSet nd) (getProp (resolverData h ctx ek nd d) (getFieldAlias nd)))"
  | field_link:
      "resolvers (ctx_store ctx) tn (getName nd) = None \<Longrightarrow> hasSelectionSet nd \<Longrightarrow>
       getLink (ctx_store ctx) (fieldKeyOf h ctx ek nd) = Some l \<Longrightarrow>
       calls h ctx (CallFieldValue (Suc n) st tn ek nd d)
         (CallLink n st l (getSelectionSet nd) (getProp d (getFieldAlias nd)))"
  | resolver_array:
      "arrayOf res = Some rs \<Longrightarrow>
       calls h ctx (CallResolverResult (Suc n) st res key sel prev)
         (CallResolverResults n st rs 0 key sel prev)"
  | resolver_entity:
      "arrayOf res = None \<Longrightarrow> res \<noteq> VNull \<Longrightarrow> isDataOrKey res \<Longrightarrow>
       calls h ctx (CallResolverResult (Suc n) st res key sel prev)
         (CallSelection n st (childKeyOf (ctx_store ctx) res key) sel (dataOrNew prev))"
  | resolvers_head:
      "prevDataAt prev i = Some (Inr data) \<Longrightarrow>
       calls h ctx (CallResolverResults (Suc n) st (c # rs) i key sel prev)
         (CallResolverResult n st c (joinKeys key (show_nat i)) sel data)"
  | resolvers_tail:
      "prevDataAt prev i = Some (Inr data) \<Longrightarrow>
       resolveResolverResult n h ctx st c (joinKeys key (show_nat i)) sel data
         = Some (Inr (v, st')) \<Longrightarrow>
       calls h ctx (CallResolverResults (Suc n) st (c # rs) i key sel prev)
         (CallResolverResults n st' rs (Suc i) key sel prev)"
  | link_array:
      "calls h ctx (CallLink (Suc n) st (LArr ls) sel prev) (CallLinks n st ls 0 sel prev)"
  | link_entity:
      "calls h ctx (CallLink (Suc n) st (LKey k) sel prev)
         (CallSelection n st k sel (dataOrNew prev))"
  | links_head:
      "prevDataAt prev i = Some (Inr data) \<Longrightarrow>
       calls h ctx (CallLinks (Suc n) st (l # ls) i sel prev) (CallLink n st l sel data)"
  | links_tail:
      "prevDataAt prev i = Some (Inr data) \<Longrightarrow>
       resolveLink n h ctx st l sel data = Some (Inr (v, st')) \<Longrightarrow>
       calls h ctx (CallLinks (Suc n) st (l # ls) i sel prev)
         (CallLinks n st' ls (Suc i) sel prev)"
  | root_loop:
      "isString (getProp inp ''__typename'') \<Longrightarrow>
       calls h ctx (CallRoot (Suc n) st ek sel inp)
         (CallRootLoop n st ek (iter_init sel) inp
            (setProp [] ''__typename'' (getProp inp ''__typename'')))"
  | rootloop_field:
      "iter_next h ctx (Some ek) ek stack = Some (Some nd, stack') \<Longrightarrow> \<not> copied inp nd \<Longrightarrow>
       calls h ctx (CallRootLoop (Suc n) st ek stack inp acc)
         (CallRootField n st (getSelectionSet nd) (getProp inp (getFieldAlias nd)))"
  | rootloop_copied:
      "iter_next h ctx (Some ek) ek stack = Some (Some nd, stack') \<Longrightarrow> copied inp nd \<Longrightarrow>
       calls h ctx (CallRootLoop (Suc n) st ek stack inp acc)
         (CallRootLoop n st ek stack' inp
            (setProp acc (getFieldAlias nd) (getProp inp (getFieldAlias nd))))"
  | rootloop_read:
      "iter_next h ctx (Some ek) ek stack = Some (Some nd, stack') \<Longrightarrow> \<not> copied inp nd \<Longrightarrow>
       readRootField n h ctx st (getSelectionSet nd) (getProp inp (getFieldAlias nd))
         = Some (Inr (v, st')) \<Longrightarrow>
       calls h ctx (CallRootLoop (Suc n) st ek stack inp acc)
         (CallRootLoop n st' ek stack' inp (setProp acc (getFieldAlias nd) v))"
  | rootfield_array:
      "arrayOf v = Some xs \<Longrightarrow>
       calls h ctx (CallRootField (Suc n) st sel v) (CallRootFields n st sel xs)"
  | rootfield_entity:
      "keyOfEntity (ctx_store ctx) d = Some k \<Longrightarrow>
       calls h ctx (CallRootField (Suc n) st sel (VObj d)) (CallSelection n st k sel (VObj []))"
  | rootfield_root:
      "keyOfEntity (ctx_store ctx) d = None \<Longrightarrow> stringOf (getProp d ''__typename'') = Some tn \<Longrightarrow>
       calls h ctx (CallRootField (Suc n) st sel (VObj d)) (CallRoot n st tn sel d)"
  | rootfields_head:
      "calls h ctx (CallRootFields (Suc n) st sel (x # xs)) (CallRootField n st sel x)"
  | rootfields_tail:
      "readRootField n h ctx st sel x = Some (Inr (v, st')) \<Longrightarrow>
       calls h ctx (CallRootFields (Suc n) st sel (x # xs)) (CallRootFields n st' sel xs)"

text \<open>
  The callers of the normalized read that return the \<open>undefined\<close> of a callee as their
  own result when there is no schema oracle: all but the loops over the elements of a
  list. \<open>passes\<close> is \<open>calls\<close> from such a caller.
\<close>

fun propagates :: "read_call \<Rightarrow> bool" where
  "propagates (CallSelection n st ek sel data) = True"
| "propagates (CallLoop n st tn ek q stack d hf) = True"
| "propagates (CallFieldValue n st tn ek nd d) = True"
| "propagates (CallResolverResult n st res key sel prev) = True"
| "propagates (CallLink n st l sel prev) = True"
| "propagates c = False"

definition passes :: "ast_helpers \<Rightarrow> read_context \<Rightarrow> read_call \<Rightarrow> read_call \<Rightarrow> bool" where
  "passes h ctx c c' = (calls h ctx c c' \<and> propagates c)"

text \<open>
  The flag \<open>isQuery\<close> of a loop is set by \<open>readSelection\<close>: it says that the entity is
  the root of the queries.
\<close>

fun queryFlagged :: "read_context \<Rightarrow> read_call \<Rightarrow> bool" where
  "queryFlagged ctx (CallLoop n st tn ek q stack d hf) =
     (q = (ek = getRootKey (ctx_store ctx) OpQuery))"
| "queryFlagged ctx c = True"

text \<open>
  The first call of \<open>read\<close>: \<open>readSelection\<close> on the root key without prior data,
  \<open>readRoot\<close> with prior data.
\<close>

definition readCall :: "nat \<Rightarrow> store \<Rightarrow> operation_request \<Rightarrow> data option \<Rightarrow> string set \<Rightarrow> read_call" where
  "readCall fuel s request input deps =
     (case input of
        None \<Rightarrow> CallSelection fuel \<lparr>partial = False, dependencies = deps\<rparr>
                  (getRootKey s (req_operation request)) (req_selectionSet request) (VObj [])
      | Some originalData \<Rightarrow>
          CallRoot fuel \<lparr>partial = False, dependencies = deps\<rparr>
            (getRootKey s (req_operation request)) (req_selectionSet request) originalData)"

section \<open>Concrete documents and stores\<close>

text \<open>
  The inputs the closed theorems below evaluate the code on. \<open>plain_helpers\<close> are the
  imported helpers on documents that use neither directives nor arguments: every node is
  included, a field has no arguments and its key is its name (spec, section 4.1).
\<close>

definition plain_helpers :: ast_helpers where
  "plain_helpers =
     \<lparr> shouldInclude = (\<lambda>nd vars. True),
       getFieldArguments = (\<lambda>nd vars. None),
       keyOfField = (\<lambda>name args. name) \<rparr>"

definition default_rootFields :: "operation_type \<Rightarrow> string" where
  "default_rootFields name =
     (case name of OpQuery \<Rightarrow> ''Query'' | OpMutation \<Rightarrow> ''Mutation''
      | OpSubscription \<Rightarrow> ''Subscription'')"

text \<open>A store without resolvers whose entities are keyed by their string \<open>id\<close>.\<close>

definition keyOfEntity_id :: "data \<Rightarrow> string option" where
  "keyOfEntity_id d =
     (case getProp d ''__typename'' of
        VStr t \<Rightarrow>
          if t = ''Query'' \<or> t = ''Mutation'' \<or> t = ''Subscription'' then Some t
          else (case getProp d ''id'' of VStr i \<Rightarrow> Some (t @ '':'' @ i) | _ \<Rightarrow> None)
      | _ \<Rightarrow> None)"

definition mk_store ::
  "(string \<times> val) list \<Rightarrow> (string \<times> link) list \<Rightarrow> schema_predicates option \<Rightarrow> store" where
  "mk_store rs ls sp =
     \<lparr> records = map_of rs, links = map_of ls, resolvers = (\<lambda>t f. None),
       store_schemaPredicates = sp, rootFields = default_rootFields,
       keyOfEntity = keyOfEntity_id \<rparr>"

definition mk_context :: "store \<Rightarrow> (string \<times> node) list \<Rightarrow> read_context" where
  "mk_context s fs =
     \<lparr> ctx_store = s, ctx_variables = Map.empty, ctx_fragments = map_of fs,
       ctx_schemaPredicates = store_schemaPredicates s \<rparr>"

text \<open>
  A schema oracle that reports every field nullable, the query \<open>{ int }\<close> and a store
  that has cached \<open>Query.int = 42\<close>.
\<close>

definition all_nullable :: schema_predicates where
  "all_nullable = \<lparr> isFieldNullable = (\<lambda>t f. True), isInterfaceOfType = (\<lambda>a b. a = b) \<rparr>"

definition int_request :: operation_request where
  "int_request =
     \<lparr> req_operation = OpQuery, req_selectionSet = [Field None ''int'' [] [] None],
       req_fragments = Map.empty, req_variables = Map.empty \<rparr>"

definition int_store :: "schema_predicates option \<Rightarrow> store" where
  "int_store sp = mk_store [(''Query.int'', VNum 42)] [] sp"

text \<open>
  The field \<open>int\<close>, a store with nothing cached, and the query \<open>{ todo { id } }\<close> over a
  store whose link \<open>Query.todo\<close> points to \<open>Todo:1\<close>, of which nothing is cached.
\<close>

definition int_field :: node where
  "int_field = Field None ''int'' [] [] None"

definition empty_store :: store where
  "empty_store = mk_store [] [] None"

definition todo_request :: operation_request where
  "todo_request =
     \<lparr> req_operation = OpQuery,
       req_selectionSet = [Field None ''todo'' [] [] (Some [Field None ''id'' [] [] None])],
       req_fragments = Map.empty, req_variables = Map.empty \<rparr>"

definition dangling_store :: store where
  "dangling_store = mk_store [] [(''Query.todo'', LKey ''Todo:1'')] None"

text \<open>The same link in a store that has cached \<open>Todo:1\<close>.\<close>

definition linked_store :: store where
  "linked_store =
     mk_store [(''Todo:1.__typename'', VStr ''Todo''), (''Todo:1.id'', VStr ''1'')]
       [(''Query.todo'', LKey ''Todo:1'')] None"

text \<open>The todo \<open>Todo:1\<close> with its \<open>id\<close> cached, and the fragment \<open>... on Todo { id }\<close>.\<close>

definition todo_store :: store where
  "todo_store =
     mk_store [(''Todo:1.__typename'', VStr ''Todo''), (''Todo:1.id'', VStr ''1'')] [] None"

definition todo_fragment :: node where
  "todo_fragment = InlineFragment (Some ''Todo'') [] [Field None ''id'' [] [] None]"

text \<open>
  The query \<open>{ todo { ...TodoFields } }\<close> with the fragments
  \<open>fragment TodoFields on Todo { ...TodoId }\<close> and \<open>fragment TodoId on Todo { id }\<close>.
\<close>

definition fragment_request :: operation_request where
  "fragment_request =
     \<lparr> req_operation = OpQuery,
       req_selectionSet = [Field None ''todo'' [] [] (Some [FragmentSpread ''TodoFields'' []])],
       req_fragments = map_of
         [(''TodoFields'', FragmentDefinition ''TodoFields'' (Some ''Todo'') []
             [FragmentSpread ''TodoId'' []]),
          (''TodoId'', FragmentDefinition ''TodoId'' (Some ''Todo'') []
             [Field None ''id'' [] [] None])],
       req_variables = Map.empty \<rparr>"

text \<open>
  The result \<open>{ __typename: 'Query', int: 42 }\<close> of the query \<open>{ int }\<close>, and the mutation
  \<open>mutation { mutate { viewer { int } } }\<close> with its result (the viewer test of the sources).
\<close>

definition int_result :: data where
  "int_result = [(''__typename'', VStr ''Query''), (''int'', VNum 42)]"

definition viewer_request :: operation_request where
  "viewer_request =
     \<lparr> req_operation = OpMutation,
       req_selectionSet =
         [Field None ''mutate'' [] []
            (Some [Field None ''viewer'' [] [] (Some [Field None ''int'' [] [] None])])],
       req_fragments = Map.empty, req_variables = Map.empty \<rparr>"

definition viewer_result :: data where
  "viewer_result =
     [(''__typename'', VStr ''Mutation''),
      (''mutate'', VObj [(''__typename'', VStr ''MutateResult''),
         (''viewer'', VObj [(''__typename'', VStr ''Query''), (''int'', VNum 43)])])]"

text \<open>
  The schema of the tests of \<open>populateExchange\<close>: \<open>Todo\<close> and \<open>User\<close> implement \<open>Node\<close>,
  \<open>union UnionType = User | Todo\<close>, and the mutations \<open>addTodo: [Todo]\<close>,
  \<open>removeTodo: [Node]\<close>, \<open>updateTodo: [UnionType]\<close>. The expansions of \<open>Node\<close> and of
  \<open>UnionType\<close> are in the order of the snapshots. Then the documents of the tests.
\<close>

definition test_schema :: populate_schema where
  "test_schema =
     \<lparr> rootTypeOf = default_rootFields,
       fieldTypeOf = (\<lambda>t f. map_of
         [((''Query'', ''todos''), ''Todo''), ((''Query'', ''users''), ''User''),
          ((''User'', ''todos''), ''Todo''), ((''Todo'', ''creator''), ''User''),
          ((''Mutation'', ''addTodo''), ''Todo''), ((''Mutation'', ''removeTodo''), ''Node''),
          ((''Mutation'', ''updateTodo''), ''UnionType'')] (t, f)),
       possibleTypesOf = (\<lambda>t. case map_of
         [(''Todo'', [''Todo'']), (''User'', [''User'']), (''Node'', [''Todo'', ''User'']),
          (''UnionType'', [''User'', ''Todo''])] t of None \<Rightarrow> [] | Some ts \<Rightarrow> ts) \<rparr>"

definition leaf :: "string \<Rightarrow> node" where
  "leaf n = Field None n [] [] None"

definition populate_mutation :: "string \<Rightarrow> document" where
  "populate_mutation f =
     \<lparr> doc_operation = OpMutation, doc_name = Some ''MyMutation'',
       doc_selectionSet = [Field None f [] [Directive ''populate'' []] None],
       doc_fragments = [] \<rparr>"

definition todos_users_query :: document where
  "todos_users_query =
     \<lparr> doc_operation = OpQuery, doc_name = None,
       doc_selectionSet =
         [Field None ''todos'' [] [] (Some [leaf ''id'', leaf ''name'']),
          Field None ''users'' [] [] (Some [leaf ''id'', leaf ''text''])],
       doc_fragments = [] \<rparr>"

definition nested_query :: document where
  "nested_query =
     \<lparr> doc_operation = OpQuery, doc_name = None,
       doc_selectionSet =
         [Field None ''todos'' [] []
            (Some [leaf ''id'', leaf ''text'',
                   Field None ''creator'' [] [] (Some [leaf ''id'', leaf ''name''])]),
          Field None ''users'' [] []
            (Some [Field None ''todos'' [] [] (Some [leaf ''text''])])],
       doc_fragments = [] \<rparr>"

definition fragment_query :: document where
  "fragment_query =
     \<lparr> doc_operation = OpQuery, doc_name = None,
       doc_selectionSet =
         [Field None ''todos'' [] []
            (Some [FragmentSpread ''TodoFragment'' [],
                   Field None ''creator'' [] [] (Some [FragmentSpread ''CreatorFragment'' []])])],
       doc_fragments =
         [FragmentDefinition ''TodoFragment'' (Some ''Todo'') [] [leaf ''id'', leaf ''text''],
          FragmentDefinition ''CreatorFragment'' (Some ''User'') [] [leaf ''id'', leaf ''name'']] \<rparr>"

definition fragment_mutation :: document where
  "fragment_mutation =
     \<lparr> doc_operation = OpMutation, doc_name = Some ''MyMutation'',
       doc_selectionSet =
         [Field None ''addTodo'' [] [Directive ''populate'' []]
            (Some [FragmentSpread ''TodoFragment'' []])],
       doc_fragments =
         [FragmentDefinition ''TodoFragment'' (Some ''Todo'') [] [leaf ''id'', leaf ''text'']] \<rparr>"

text \<open>
  A store that has cached the typename of \<open>Todo:1\<close> and not its \<open>id\<close>, behind the link
  \<open>Query.todo\<close>; the fields \<open>id\<close> and \<open>todo { id }\<close>.
\<close>

definition untyped_id_store :: store where
  "untyped_id_store =
     mk_store [(''Todo:1.__typename'', VStr ''Todo'')] [(''Query.todo'', LKey ''Todo:1'')] None"

definition id_field :: node where
  "id_field = Field None ''id'' [] [] None"

definition todo_field :: node where
  "todo_field = Field None ''todo'' [] [] (Some [id_field])"

text \<open>
  The query \<open>{ todos { id } }\<close> over a store whose link \<open>Query.todos\<close> is the list
  of \<open>Todo:1\<close> and \<open>Todo:2\<close>, both cached; and a store with nothing cached and a
  resolver for \<open>Query.todo\<close> that returns the key \<open>Todo:9\<close>.
\<close>

definition todos_field :: node where
  "todos_field = Field None ''todos'' [] [] (Some [id_field])"

definition todos_request :: operation_request where
  "todos_request =
     \<lparr> req_operation = OpQuery, req_selectionSet = [todos_field],
       req_fragments = Map.empty, req_variables = Map.empty \<rparr>"

definition list_store :: store where
  "list_store =
     mk_store [(''Todo:1.__typename'', VStr ''Todo''), (''Todo:1.id'', VStr ''1''),
               (''Todo:2.__typename'', VStr ''Todo''), (''Todo:2.id'', VStr ''2'')]
       [(''Query.todos'', LArr [LKey ''Todo:1'', LKey ''Todo:2''])] None"

definition resolver_store :: store where
  "resolver_store =
     (mk_store [] [] None)
       \<lparr> resolvers := (\<lambda>t f. if t = ''Query'' \<and> f = ''todo''
                                then Some (\<lambda>parent args. VStr ''Todo:9'') else None) \<rparr>"

text \<open>
  The query \<open>{ todo { text } }\<close>, a store that has cached the text \<open>fresh\<close> of
  \<open>Todo:1\<close>, and a prior result that holds the text \<open>stale\<close> for the same todo.
\<close>

definition text_field :: node where
  "text_field = Field None ''text'' [] [] None"

definition todo_text_field :: node where
  "todo_text_field = Field None ''todo'' [] [] (Some [text_field])"

definition todo_text_request :: operation_request where
  "todo_text_request =
     \<lparr> req_operation = OpQuery, req_selectionSet = [todo_text_field],
       req_fragments = Map.empty, req_variables = Map.empty \<rparr>"

definition text_store :: store where
  "text_store =
     mk_store [(''Todo:1.__typename'', VStr ''Todo''), (''Todo:1.id'', VStr ''1''),
               (''Todo:1.text'', VStr ''fresh'')] [] None"

definition stale_todo :: data where
  "stale_todo = [(''__typename'', VStr ''Todo''), (''id'', VStr ''1''), (''text'', VStr ''stale'')]"

definition stale_result :: data where
  "stale_result = [(''__typename'', VStr ''Query''), (''todo'', VObj stale_todo)]"


section \<open>Basic facts about the read path\<close>

lemma bindR_simps [simp]:
  "bindR None f = None"
  "bindR (Some (Inl e)) f = Some (Inl e)"
  "bindR (Some (Inr x)) f = f x"
  by (simp_all add: bindR_def)

lemma bindR_eq_Some_Inr [simp]:
  "bindR m f = Some (Inr y) \<longleftrightarrow> (\<exists>x. m = Some (Inr x) \<and> f x = Some (Inr y))"
  by (auto simp: bindR_def split: option.splits sum.splits)

declare returnR_def [simp] throwR_def [simp]

lemma prevDataAt_cases: "prevDataAt v i = Some (Inl TypeError) \<or> (\<exists>x. prevDataAt v i = Some (Inr x))"
  by (cases v) auto

lemmas eval_defs = query_def read_def makeContext_def mk_store_def mk_context_def
  getRootKey_def default_rootFields_def iter_init_def iter_next.simps plain_helpers_def
  getRecord_def getLink_def getField_def joinKeys_def setProp_def getProp_def Let_def
  addDependency_def fragmentNodeOf_def isMatching_def isFragmentHeuristicallyMatching_def
  fieldMissing_def hasField_def dataOrNew_def dataValue_def childKeyOf_def

text \<open>The loop of \<open>readSelection\<close>, one iteration at a time.\<close>

lemma readLoop_Suc_done:
  "iter_next h ctx (Some tn) ek stack = Some (None, stack') \<Longrightarrow>
   readLoop (Suc n) h ctx st tn ek q stack d hf =
     Some (Inr (if q \<and> partial st \<and> \<not> hf then None else Some d, st))"
  by simp

lemma readLoop_Suc_node:
  "iter_next h ctx (Some tn) ek stack = Some (Some nd, stack') \<Longrightarrow>
   readLoop (Suc n) h ctx st tn ek q stack d hf =
     bindR (readFieldValue n h ctx (loopState h ctx ek q nd st) tn ek nd d)
       (\<lambda>(v, d1, st2).
          case ctx_schemaPredicates ctx of
            Some sp \<Rightarrow>
              if v = VUndefined \<and> isFieldNullable sp tn (getName nd)
              then readLoop n h ctx (st2\<lparr>partial := True\<rparr>) tn ek q stack'
                     (setProp d1 (getFieldAlias nd) VNull) True
              else returnR (None, st2)
          | None \<Rightarrow>
              if v = VUndefined then returnR (None, st2)
              else readLoop n h ctx st2 tn ek q stack' (setProp d1 (getFieldAlias nd) v) True)"
  by (simp add: Let_def loopState_def fieldKeyOf_def)

lemma readLoop_Suc_cases [consumes 1, case_names finished poisoned nullable emitted]:
  assumes "readLoop (Suc n) h ctx st tn ek q stack d hf = Some (Inr (r, st'))"
  obtains
    (finished) stack' where
      "iter_next h ctx (Some tn) ek stack = Some (None, stack')"
      "r = (if q \<and> partial st \<and> \<not> hf then None else Some d)" "st' = st"
  | (poisoned) nd stack' v d1 where
      "iter_next h ctx (Some tn) ek stack = Some (Some nd, stack')"
      "readFieldValue n h ctx (loopState h ctx ek q nd st) tn ek nd d = Some (Inr (v, d1, st'))"
      "case ctx_schemaPredicates ctx of
         Some sp \<Rightarrow> \<not> (v = VUndefined \<and> isFieldNullable sp tn (getName nd))
       | None \<Rightarrow> v = VUndefined"
      "r = None"
  | (nullable) nd stack' d1 st2 sp where
      "iter_next h ctx (Some tn) ek stack = Some (Some nd, stack')"
      "readFieldValue n h ctx (loopState h ctx ek q nd st) tn ek nd d = Some (Inr (VUndefined, d1, st2))"
      "ctx_schemaPredicates ctx = Some sp" "isFieldNullable sp tn (getName nd)"
      "readLoop n h ctx (st2\<lparr>partial := True\<rparr>) tn ek q stack'
         (setProp d1 (getFieldAlias nd) VNull) True = Some (Inr (r, st'))"
  | (emitted) nd stack' v d1 st2 where
      "iter_next h ctx (Some tn) ek stack = Some (Some nd, stack')"
      "readFieldValue n h ctx (loopState h ctx ek q nd st) tn ek nd d = Some (Inr (v, d1, st2))"
      "ctx_schemaPredicates ctx = None" "v \<noteq> VUndefined"
      "readLoop n h ctx st2 tn ek q stack' (setProp d1 (getFieldAlias nd) v) True
         = Some (Inr (r, st'))"
proof (cases "iter_next h ctx (Some tn) ek stack")
  case None
  with assms show ?thesis by simp
next
  case (Some a)
  obtain ndo stack' where a: "a = (ndo, stack')" by (cases a)
  show ?thesis
  proof (cases ndo)
    case None
    with Some a have it: "iter_next h ctx (Some tn) ek stack = Some (None, stack')" by simp
    from assms[unfolded readLoop_Suc_done[OF it]]
    have e: "(if q \<and> partial st \<and> \<not> hf then None else Some d) = r \<and> st = st'"
      by auto
    have "r = (if q \<and> partial st \<and> \<not> hf then None else Some d)"
      using e by (rule conjunct1[THEN sym])
    moreover have "st' = st"
      using e by (rule conjunct2[THEN sym])
    ultimately show ?thesis by (rule finished[OF it])
  next
    case nd: (Some nd)
    with Some a have it: "iter_next h ctx (Some tn) ek stack = Some (Some nd, stack')" by simp
    have eq: "bindR (readFieldValue n h ctx (loopState h ctx ek q nd st) tn ek nd d)
       (\<lambda>(v, d1, st2).
          case ctx_schemaPredicates ctx of
            Some sp \<Rightarrow>
              if v = VUndefined \<and> isFieldNullable sp tn (getName nd)
              then readLoop n h ctx (st2\<lparr>partial := True\<rparr>) tn ek q stack'
                     (setProp d1 (getFieldAlias nd) VNull) True
              else returnR (None, st2)
          | None \<Rightarrow>
              if v = VUndefined then returnR (None, st2)
              else readLoop n h ctx st2 tn ek q stack' (setProp d1 (getFieldAlias nd) v) True)
       = Some (Inr (r, st'))"
      using assms unfolding readLoop_Suc_node[OF it] .
    then obtain x where
      rf0: "readFieldValue n h ctx (loopState h ctx ek q nd st) tn ek nd d = Some (Inr x)"
      by (cases "readFieldValue n h ctx (loopState h ctx ek q nd st) tn ek nd d")
         (auto simp: bindR_def split: sum.splits)
    obtain v d1 st2 where x: "x = (v, d1, st2)" by (cases x)
    have rf: "readFieldValue n h ctx (loopState h ctx ek q nd st) tn ek nd d
                = Some (Inr (v, d1, st2))"
      using rf0 x by simp
    have k: "(case ctx_schemaPredicates ctx of
            Some sp \<Rightarrow>
              if v = VUndefined \<and> isFieldNullable sp tn (getName nd)
              then readLoop n h ctx (st2\<lparr>partial := True\<rparr>) tn ek q stack'
                     (setProp d1 (getFieldAlias nd) VNull) True
              else returnR (None, st2)
          | None \<Rightarrow>
              if v = VUndefined then returnR (None, st2)
              else readLoop n h ctx st2 tn ek q stack' (setProp d1 (getFieldAlias nd) v) True)
          = Some (Inr (r, st'))"
      using eq unfolding rf bindR_simps prod.case .
    show ?thesis
    proof (cases "ctx_schemaPredicates ctx")
      case None
      show ?thesis
      proof (cases "v = VUndefined")
        case True
        with k None have e: "r = None \<and> st2 = st'" by auto
        show ?thesis
          using rf True None e by (intro poisoned[OF it, of v d1]) auto
      next
        case False
        with k None have "readLoop n h ctx st2 tn ek q stack' (setProp d1 (getFieldAlias nd) v) True
          = Some (Inr (r, st'))" by simp
        with rf None False show ?thesis by (intro emitted[OF it, of v d1 st2])
      qed
    next
      case (Some sp)
      show ?thesis
      proof (cases "v = VUndefined \<and> isFieldNullable sp tn (getName nd)")
        case True
        with k Some have "readLoop n h ctx (st2\<lparr>partial := True\<rparr>) tn ek q stack'
                     (setProp d1 (getFieldAlias nd) VNull) True = Some (Inr (r, st'))" by simp
        with rf Some True show ?thesis by (intro nullable[OF it, of d1 st2 sp]) auto
      next
        case False
        with k Some have e: "r = None \<and> st2 = st'" by auto
        show ?thesis
          using rf False Some e by (intro poisoned[OF it, of v d1]) auto
      qed
    qed
  qed
qed

lemma bindR_SomeInrE:
  assumes "bindR m f = Some (Inr y)"
  obtains x where "m = Some (Inr x)" "f x = Some (Inr y)"
  using assms by (auto simp: bindR_def split: option.splits sum.splits)

lemma resolveLinks_Cons_SomeE:
  assumes "resolveLinks (Suc n) h ctx st (l # ls) i sel prev = Some (Inr (vs, st'))"
  obtains data v st1 vs' where
    "prevDataAt prev i = Some (Inr data)"
    "resolveLink n h ctx st l sel data = Some (Inr (v, st1))"
    "resolveLinks n h ctx st1 ls (Suc i) sel prev = Some (Inr (vs', st'))"
    "vs = v # vs'"
proof -
  from assms have "bindR (prevDataAt prev i) (\<lambda>data.
     bindR (resolveLink n h ctx st l sel data) (\<lambda>(v, st').
     bindR (resolveLinks n h ctx st' ls (Suc i) sel prev)
       (\<lambda>(vs, st''). returnR (v # vs, st'')))) = Some (Inr (vs, st'))"
    by (simp only: resolveLinks.simps)
  then obtain data where d: "prevDataAt prev i = Some (Inr data)"
    and 1: "bindR (resolveLink n h ctx st l sel data) (\<lambda>(v, st').
     bindR (resolveLinks n h ctx st' ls (Suc i) sel prev)
       (\<lambda>(vs, st''). returnR (v # vs, st''))) = Some (Inr (vs, st'))"
    by (rule bindR_SomeInrE)
  from 1 obtain x where x: "resolveLink n h ctx st l sel data = Some (Inr x)"
    and 2: "(case x of (v, st') \<Rightarrow>
     bindR (resolveLinks n h ctx st' ls (Suc i) sel prev)
       (\<lambda>(vs, st''). returnR (v # vs, st''))) = Some (Inr (vs, st'))"
    by (rule bindR_SomeInrE)
  obtain v st1 where xx: "x = (v, st1)" by (cases x)
  from 2 have "bindR (resolveLinks n h ctx st1 ls (Suc i) sel prev)
       (\<lambda>(vs, st''). returnR (v # vs, st'')) = Some (Inr (vs, st'))"
    unfolding xx prod.case .
  then obtain y where y: "resolveLinks n h ctx st1 ls (Suc i) sel prev = Some (Inr y)"
    and 3: "(case y of (vs, st'') \<Rightarrow> returnR (v # vs, st'')) = Some (Inr (vs, st'))"
    by (rule bindR_SomeInrE)
  obtain vs' st2 where yy: "y = (vs', st2)" by (cases y)
  from 3 have "vs = v # vs' \<and> st2 = st'"
    unfolding yy prod.case returnR_def by auto
  with d x xx y yy that show ?thesis by auto
qed

lemma resolveResolverResults_Cons_SomeE:
  assumes "resolveResolverResults (Suc n) h ctx st (c # rs) i key sel prev = Some (Inr (vs, st'))"
  obtains data v st1 vs' where
    "prevDataAt prev i = Some (Inr data)"
    "resolveResolverResult n h ctx st c (joinKeys key (show_nat i)) sel data = Some (Inr (v, st1))"
    "resolveResolverResults n h ctx st1 rs (Suc i) key sel prev = Some (Inr (vs', st'))"
    "vs = v # vs'"
proof -
  from assms have "bindR (prevDataAt prev i) (\<lambda>data.
     bindR (resolveResolverResult n h ctx st c (joinKeys key (show_nat i)) sel data) (\<lambda>(v, st').
     bindR (resolveResolverResults n h ctx st' rs (Suc i) key sel prev)
       (\<lambda>(vs, st''). returnR (v # vs, st'')))) = Some (Inr (vs, st'))"
    by (simp only: resolveResolverResults.simps)
  then obtain data where d: "prevDataAt prev i = Some (Inr data)"
    and 1: "bindR (resolveResolverResult n h ctx st c (joinKeys key (show_nat i)) sel data) (\<lambda>(v, st').
     bindR (resolveResolverResults n h ctx st' rs (Suc i) key sel prev)
       (\<lambda>(vs, st''). returnR (v # vs, st''))) = Some (Inr (vs, st'))"
    by (rule bindR_SomeInrE)
  from 1 obtain x where
    x: "resolveResolverResult n h ctx st c (joinKeys key (show_nat i)) sel data = Some (Inr x)"
    and 2: "(case x of (v, st') \<Rightarrow>
     bindR (resolveResolverResults n h ctx st' rs (Suc i) key sel prev)
       (\<lambda>(vs, st''). returnR (v # vs, st''))) = Some (Inr (vs, st'))"
    by (rule bindR_SomeInrE)
  obtain v st1 where xx: "x = (v, st1)" by (cases x)
  from 2 have "bindR (resolveResolverResults n h ctx st1 rs (Suc i) key sel prev)
       (\<lambda>(vs, st''). returnR (v # vs, st'')) = Some (Inr (vs, st'))"
    unfolding xx prod.case .
  then obtain y where y: "resolveResolverResults n h ctx st1 rs (Suc i) key sel prev = Some (Inr y)"
    and 3: "(case y of (vs, st'') \<Rightarrow> returnR (v # vs, st'')) = Some (Inr (vs, st'))"
    by (rule bindR_SomeInrE)
  obtain vs' st2 where yy: "y = (vs', st2)" by (cases y)
  from 3 have "vs = v # vs' \<and> st2 = st'"
    unfolding yy prod.case returnR_def by auto
  with d x xx y yy that show ?thesis by auto
qed

lemma dependencies_mono_all:
  "(\<forall>h ctx st ek sel d r st'. readSelection n h ctx st ek sel d = Some (Inr (r, st'))
       \<longrightarrow> dependencies st \<subseteq> dependencies st') \<and>
   (\<forall>h ctx st tn ek q stack d hf r st'.
       readLoop n h ctx st tn ek q stack d hf = Some (Inr (r, st'))
       \<longrightarrow> dependencies st \<subseteq> dependencies st') \<and>
   (\<forall>h ctx st tn ek nd d v d1 st'.
       readFieldValue n h ctx st tn ek nd d = Some (Inr (v, d1, st'))
       \<longrightarrow> dependencies st \<subseteq> dependencies st') \<and>
   (\<forall>h ctx st res key sel prev v st'.
       resolveResolverResult n h ctx st res key sel prev = Some (Inr (v, st'))
       \<longrightarrow> dependencies st \<subseteq> dependencies st') \<and>
   (\<forall>h ctx st rs i key sel prev vs st'.
       resolveResolverResults n h ctx st rs i key sel prev = Some (Inr (vs, st'))
       \<longrightarrow> dependencies st \<subseteq> dependencies st') \<and>
   (\<forall>h ctx st l sel prev v st'.
       resolveLink n h ctx st l sel prev = Some (Inr (v, st'))
       \<longrightarrow> dependencies st \<subseteq> dependencies st') \<and>
   (\<forall>h ctx st ls i sel prev vs st'.
       resolveLinks n h ctx st ls i sel prev = Some (Inr (vs, st'))
       \<longrightarrow> dependencies st \<subseteq> dependencies st')"
proof (induction n)
  case 0
  show ?case by simp
next
  case (Suc n)
  have ih1: "\<And>h ctx st ek sel d r st'. readSelection n h ctx st ek sel d = Some (Inr (r, st'))
       \<Longrightarrow> dependencies st \<subseteq> dependencies st'"
    using Suc by auto
  have ih2: "\<And>h ctx st tn ek q stack d hf r st'.
       readLoop n h ctx st tn ek q stack d hf = Some (Inr (r, st'))
       \<Longrightarrow> dependencies st \<subseteq> dependencies st'"
    using Suc by auto
  have ih3: "\<And>h ctx st tn ek nd d v d1 st'.
       readFieldValue n h ctx st tn ek nd d = Some (Inr (v, d1, st'))
       \<Longrightarrow> dependencies st \<subseteq> dependencies st'"
    using Suc by auto
  have ih4: "\<And>h ctx st res key sel prev v st'.
       resolveResolverResult n h ctx st res key sel prev = Some (Inr (v, st'))
       \<Longrightarrow> dependencies st \<subseteq> dependencies st'"
    using Suc by auto
  have ih5: "\<And>h ctx st rs i key sel prev vs st'.
       resolveResolverResults n h ctx st rs i key sel prev = Some (Inr (vs, st'))
       \<Longrightarrow> dependencies st \<subseteq> dependencies st'"
    using Suc by auto
  have ih6: "\<And>h ctx st l sel prev v st'.
       resolveLink n h ctx st l sel prev = Some (Inr (v, st'))
       \<Longrightarrow> dependencies st \<subseteq> dependencies st'"
    using Suc by auto
  have ih7: "\<And>h ctx st ls i sel prev vs st'.
       resolveLinks n h ctx st ls i sel prev = Some (Inr (vs, st'))
       \<Longrightarrow> dependencies st \<subseteq> dependencies st'"
    using Suc by auto
  have c1: "dependencies st \<subseteq> dependencies st'"
    if "readSelection (Suc n) h ctx st ek sel d = Some (Inr (r, st'))"
    for h ctx st ek sel d r st'
    using that
    by (auto simp: Let_def addDependency_def split: option.splits if_splits dest!: ih2)
  have c2: "dependencies st \<subseteq> dependencies st'"
    if "readLoop (Suc n) h ctx st tn ek q stack d hf = Some (Inr (r, st'))"
    for h ctx st tn ek q stack d hf r st'
    using that
  proof (cases rule: readLoop_Suc_cases)
    case (finished stack')
    then show ?thesis by simp
  next
    case (poisoned nd stack' v d1)
    from ih3[OF poisoned(2)] show ?thesis by (auto simp: loopState_def addDependency_def split: if_splits)
  next
    case (nullable nd stack' d1 st2 sp)
    from ih3[OF nullable(2)] ih2[OF nullable(5)] show ?thesis
      by (auto simp: loopState_def addDependency_def split: if_splits)
  next
    case (emitted nd stack' v d1 st2)
    from ih3[OF emitted(2)] ih2[OF emitted(5)] show ?thesis
      by (auto simp: loopState_def addDependency_def split: if_splits)
  qed
  have c3: "dependencies st \<subseteq> dependencies st'"
    if "readFieldValue (Suc n) h ctx st tn ek nd d = Some (Inr (v, d1, st'))"
    for h ctx st tn ek nd d v d1 st'
    using that
    by (auto simp: Let_def split: option.splits if_splits dest!: ih4 ih6)
  have c4: "dependencies st \<subseteq> dependencies st'"
    if "resolveResolverResult (Suc n) h ctx st res key sel prev = Some (Inr (v, st'))"
    for h ctx st res key sel prev v st'
    using that
    by (auto simp: Let_def split: option.splits if_splits dest!: ih1 ih5)
  have c5: "dependencies st \<subseteq> dependencies st'"
    if "resolveResolverResults (Suc n) h ctx st rs i key sel prev = Some (Inr (vs, st'))"
    for h ctx st rs i key sel prev vs st'
  proof (cases rs)
    case Nil
    with that show ?thesis by simp
  next
    case (Cons c rs2)
    from that[unfolded Cons] show ?thesis
    proof (rule resolveResolverResults_Cons_SomeE)
      fix data v st1 vs2
      assume "resolveResolverResult n h ctx st c (joinKeys key (show_nat i)) sel data = Some (Inr (v, st1))"
        and "resolveResolverResults n h ctx st1 rs2 (Suc i) key sel prev = Some (Inr (vs2, st'))"
      from ih4[OF this(1)] ih5[OF this(2)] show ?thesis by simp
    qed
  qed
  have c6: "dependencies st \<subseteq> dependencies st'"
    if "resolveLink (Suc n) h ctx st l sel prev = Some (Inr (v, st'))"
    for h ctx st l sel prev v st'
    using that
    by (auto simp: Let_def split: option.splits if_splits link.splits dest!: ih1 ih7)
  have c7: "dependencies st \<subseteq> dependencies st'"
    if "resolveLinks (Suc n) h ctx st ls i sel prev = Some (Inr (vs, st'))"
    for h ctx st ls i sel prev vs st'
  proof (cases ls)
    case Nil
    with that show ?thesis by simp
  next
    case (Cons l ls2)
    from that[unfolded Cons] show ?thesis
    proof (rule resolveLinks_Cons_SomeE)
      fix data v st1 vs2
      assume "resolveLink n h ctx st l sel data = Some (Inr (v, st1))"
        and "resolveLinks n h ctx st1 ls2 (Suc i) sel prev = Some (Inr (vs2, st'))"
      from ih6[OF this(1)] ih7[OF this(2)] show ?thesis by simp
    qed
  qed
  show ?case
    using c1 c2 c3 c4 c5 c6 c7 by blast
qed

text \<open>\<open>readSelection\<close> up to its loop, and the field value of a missing field.\<close>

lemma readSelection_Suc:
  "readSelection (Suc n) h ctx st entityKey select data =
     (case stringOf (entityTypename h ctx entityKey) of
        None \<Rightarrow> returnR (None, entityState ctx entityKey st)
      | Some t \<Rightarrow>
          bindR (asData data) (\<lambda>d.
            readLoop n h ctx (entityState ctx entityKey st) t entityKey
              (entityKey = getRootKey (ctx_store ctx) OpQuery) (iter_init select)
              (setProp d ''__typename'' (VStr t)) False))"
  by (auto simp: Let_def entityTypename_def entityState_def split: option.splits)

lemma stringOf_None_iff: "stringOf v = None \<longleftrightarrow> \<not> isString v"
  by (cases v) auto

lemma readFieldValue_uncached:
  "uncached h ctx tn ek nd \<Longrightarrow>
   readFieldValue (Suc n) h ctx st tn ek nd d = Some (Inr (VUndefined, d, st))"
  by (simp add: uncached_def fieldKeyOf_def Let_def)

lemma readLoop_poison:
  assumes "ctx_schemaPredicates ctx = None"
    and "iter_next h ctx (Some tn) ek stack = Some (Some nd, stack')"
    and "readFieldValue n h ctx (loopState h ctx ek q nd st) tn ek nd d = Some (Inr (VUndefined, d1, st2))"
  shows "readLoop (Suc n) h ctx st tn ek q stack d hf = Some (Inr (None, st2))"
  unfolding readLoop_Suc_node[OF assms(2)] using assms(1,3) by simp

lemma readLoop_uncached_undefined:
  assumes "ctx_schemaPredicates ctx = None"
    and "iter_yields h ctx (Some tn) ek stack nd"
    and "uncached h ctx tn ek nd"
    and "readLoop n h ctx st tn ek q stack d hf = Some (Inr (r, st'))"
  shows "r = None"
  using assms(2,3,4)
proof (induction arbitrary: n st d hf rule: iter_yields.induct)
  case (first stack nd stack')
  from first.prems(2) obtain m where n: "n = Suc m" by (cases n) auto
  from first.prems(2)[unfolded n] show ?case
  proof (cases rule: readLoop_Suc_cases)
    case (finished stack')
    with first.hyps show ?thesis by simp
  next
    case (poisoned nd stack' v d1)
    then show ?thesis by simp
  next
    case (nullable nd stack' d1 st2 sp)
    with assms(1) show ?thesis by simp
  next
    case (emitted nd2 stack2 v d1 st2)
    with first.hyps have nd2: "nd2 = nd" by simp
    from emitted(2) obtain k where m: "m = Suc k" by (cases m) auto
    from emitted(2) emitted(4) show ?thesis
      unfolding m nd2 readFieldValue_uncached[OF first.prems(1)] by simp
  qed
next
  case (later stack nd' stack' nd)
  from later.prems(2) obtain m where n: "n = Suc m" by (cases n) auto
  from later.prems(2)[unfolded n] show ?case
  proof (cases rule: readLoop_Suc_cases)
    case (finished stack')
    with later.hyps show ?thesis by simp
  next
    case (poisoned nd stack' v d1)
    then show ?thesis by simp
  next
    case (nullable nd stack' d1 st2 sp)
    with assms(1) show ?thesis by simp
  next
    case (emitted nd2 stack2 v d1 st2)
    with later.hyps have "stack2 = stack'" by simp
    with emitted(5) later.IH[OF later.prems(1)] show ?thesis by blast
  qed
qed

lemma readSelection_dependencies_mono:
  "readSelection n h ctx st ek sel d = Some (Inr (r, st'))
     \<Longrightarrow> dependencies st \<subseteq> dependencies st'"
  using dependencies_mono_all[of n] by auto

lemma readLoop_dependencies_mono:
  "readLoop n h ctx st tn ek q stack d hf = Some (Inr (r, st'))
     \<Longrightarrow> dependencies st \<subseteq> dependencies st'"
  using dependencies_mono_all[of n] by auto

lemma readFieldValue_dependencies_mono:
  "readFieldValue n h ctx st tn ek nd d = Some (Inr (v, d1, st'))
     \<Longrightarrow> dependencies st \<subseteq> dependencies st'"
  using dependencies_mono_all[of n] by auto

lemma readSelection_uncached_undefined:
  assumes "ctx_schemaPredicates ctx = None"
    and "stringOf (entityTypename h ctx ek) = Some tn"
    and "iter_yields h ctx (Some tn) ek (iter_init sel) nd"
    and "uncached h ctx tn ek nd"
    and "readSelection n h ctx st ek sel data = Some (Inr (r, st'))"
  shows "r = None"
proof -
  from assms(5) obtain m where n: "n = Suc m" by (cases n) auto
  from assms(5)[unfolded n readSelection_Suc assms(2) option.case]
  obtain d where "readLoop m h ctx (entityState ctx ek st) tn ek
        (ek = getRootKey (ctx_store ctx) OpQuery) (iter_init sel)
        (setProp d ''__typename'' (VStr tn)) False = Some (Inr (r, st'))"
    by (rule bindR_SomeInrE)
  from readLoop_uncached_undefined[OF assms(1,3,4) this] show ?thesis .
qed

lemma readSelection_absent:
  assumes "entityKey \<noteq> getRootKey (ctx_store ctx) OpQuery"
    and "\<not> isString (getField h (ctx_store ctx) entityKey ''__typename'')"
  shows "readSelection (Suc n) h ctx st entityKey select data
           = Some (Inr (None, addDependency entityKey st))"
  using assms
  by (simp add: readSelection_Suc entityTypename_def entityState_def stringOf_None_iff[THEN iffD2])

lemma resolveLink_key:
  "resolveLink (Suc n) h ctx st (LKey k) sel prev =
     bindR (readSelection n h ctx st k sel (dataOrNew prev)) (\<lambda>(r, st'). returnR (dataValue r, st'))"
  by simp

lemma readFieldValue_link:
  assumes "resolvers (ctx_store ctx) tn (getName nd) = None" "hasSelectionSet nd"
    and "getLink (ctx_store ctx) (fieldKeyOf h ctx ek nd) = Some link"
  shows "readFieldValue (Suc n) h ctx st tn ek nd d =
     bindR (resolveLink n h ctx st link (getSelectionSet nd) (getProp d (getFieldAlias nd)))
       (\<lambda>(v, st'). returnR (v, d, st'))"
  using assms by (simp add: fieldKeyOf_def Let_def)

lemma read_no_input:
  "read fuel h s req None deps =
     bindR (readSelection fuel h (makeContext s req) \<lparr>partial = False, dependencies = deps\<rparr>
              (getRootKey s (req_operation req)) (req_selectionSet req) (VObj []))
       (\<lambda>(data, st').
          returnR \<lparr> res_dependencies = dependencies st',
                    res_partial = (case data of None \<Rightarrow> False | Some d \<Rightarrow> partial st'),
                    res_data = (case data of None \<Rightarrow> VNull | Some d \<Rightarrow> VObj d) \<rparr>)"
  by (simp add: read_def Let_def)

lemma read_undefined:
  assumes "readSelection fuel h (makeContext s req) \<lparr>partial = False, dependencies = deps\<rparr>
              (getRootKey s (req_operation req)) (req_selectionSet req) (VObj [])
            = Some (Inr (None, st'))"
  shows "read fuel h s req None deps =
           Some (Inr \<lparr> res_dependencies = dependencies st', res_partial = False,
                       res_data = VNull \<rparr>)"
  unfolding read_no_input assms by simp

lemma Suc_of_Some:
  "readSelection n h ctx st ek sel d = Some x \<Longrightarrow> \<exists>m. n = Suc m"
  "readLoop n h ctx st tn ek q stack dd hf = Some y \<Longrightarrow> \<exists>m. n = Suc m"
  "readFieldValue n h ctx st tn ek nd dd = Some z \<Longrightarrow> \<exists>m. n = Suc m"
  "resolveLink n h ctx st l sel prev = Some w \<Longrightarrow> \<exists>m. n = Suc m"
  by (cases n; simp)+

text \<open>A link to an entity without a typename record, seen from the enclosing loop.\<close>

lemma readFieldValue_absent_link:
  assumes nores: "resolvers (ctx_store ctx) tn (getName nd) = None" and sel: "hasSelectionSet nd"
    and link: "getLink (ctx_store ctx) (fieldKeyOf h ctx ek nd) = Some (LKey entityKey)"
    and nr: "entityKey \<noteq> getRootKey (ctx_store ctx) OpQuery"
    and abs: "\<not> isString (getField h (ctx_store ctx) entityKey ''__typename'')"
    and res: "readFieldValue m h ctx st tn ek nd d = Some (Inr (v, d1, st2))"
  shows "v = VUndefined \<and> d1 = d \<and> st2 = addDependency entityKey st"
proof -
  from res obtain m1 where m: "m = Suc m1" using Suc_of_Some(3) by blast
  from res[unfolded m readFieldValue_link[OF nores sel link]]
  obtain x where rl: "resolveLink m1 h ctx st (LKey entityKey) (getSelectionSet nd)
        (getProp d (getFieldAlias nd)) = Some (Inr x)"
    and k1: "(case x of (v', st') \<Rightarrow> returnR (v', d, st')) = Some (Inr (v, d1, st2))"
    by (rule bindR_SomeInrE)
  from rl obtain m2 where m1: "m1 = Suc m2" using Suc_of_Some(4) by blast
  from rl[unfolded m1 resolveLink_key]
  obtain y where rs: "readSelection m2 h ctx st entityKey (getSelectionSet nd)
        (dataOrNew (getProp d (getFieldAlias nd))) = Some (Inr y)"
    and k2: "(case y of (r, st') \<Rightarrow> returnR (dataValue r, st')) = Some (Inr x)"
    by (rule bindR_SomeInrE)
  from rs obtain m3 where m2: "m2 = Suc m3" using Suc_of_Some(1) by blast
  from rs[unfolded m2 readSelection_absent[OF nr abs]]
  have y: "y = (None, addDependency entityKey st)" by simp
  from k2[unfolded y] have x: "x = (VUndefined, addDependency entityKey st)"
    by (simp add: dataValue_def)
  from k1[unfolded x] show ?thesis by auto
qed

lemma readLoop_absent_link:
  assumes it: "iter_next h ctx (Some tn) ek stack = Some (Some nd, stack')"
    and nores: "resolvers (ctx_store ctx) tn (getName nd) = None" and sel: "hasSelectionSet nd"
    and link: "getLink (ctx_store ctx) (fieldKeyOf h ctx ek nd) = Some (LKey entityKey)"
    and nr: "entityKey \<noteq> getRootKey (ctx_store ctx) OpQuery"
    and abs: "\<not> isString (getField h (ctx_store ctx) entityKey ''__typename'')"
    and res: "readLoop m h ctx st tn ek q stack d hf = Some (Inr (r, st'))"
  shows "entityKey \<in> dependencies st'"
proof -
  from res obtain n where m: "m = Suc n" using Suc_of_Some(2) by blast
  note rf = readFieldValue_absent_link[OF nores sel link nr abs]
  have in1: "entityKey \<in> dependencies (addDependency entityKey (loopState h ctx ek q nd st))"
    by (simp add: addDependency_def)
  from res[unfolded m] show ?thesis
  proof (cases rule: readLoop_Suc_cases)
    case (finished stack')
    with it show ?thesis by simp
  next
    case (poisoned nd2 stack2 v d1)
    with it have "nd2 = nd" by simp
    with rf[OF poisoned(2)[unfolded this]] in1 show ?thesis by simp
  next
    case (nullable nd2 stack2 d1 st2 sp)
    with it have "nd2 = nd" by simp
    with rf[OF nullable(2)[unfolded this]] in1
    have "entityKey \<in> dependencies (st2\<lparr>partial := True\<rparr>)" by simp
    with readLoop_dependencies_mono[OF nullable(5)] show ?thesis by blast
  next
    case (emitted nd2 stack2 v d1 st2)
    with it have "nd2 = nd" by simp
    with rf[OF emitted(2)[unfolded this]] emitted(4) show ?thesis by simp
  qed
qed

text \<open>The keys the loop of \<open>readSelection\<close> adds on the root.\<close>

lemma loopState_key:
  "fieldKeyOf h ctx ek nd \<in> dependencies (loopState h ctx ek True nd st)"
  by (simp add: loopState_def addDependency_def)

lemma readLoop_first_key:
  assumes it: "iter_next h ctx (Some tn) ek stack = Some (Some nd, stack')"
    and res: "readLoop m h ctx st tn ek True stack d hf = Some (Inr (r, st'))"
  shows "fieldKeyOf h ctx ek nd \<in> dependencies st'"
proof -
  from res obtain n where m: "m = Suc n" using Suc_of_Some(2) by blast
  from res[unfolded m] show ?thesis
  proof (cases rule: readLoop_Suc_cases)
    case (finished stack')
    with it show ?thesis by simp
  next
    case (poisoned nd2 stack2 v d1)
    with it have "nd2 = nd" by simp
    with readFieldValue_dependencies_mono[OF poisoned(2)] loopState_key[of h ctx ek nd st]
    show ?thesis by blast
  next
    case (nullable nd2 stack2 d1 st2 sp)
    with it have "nd2 = nd" by simp
    with readFieldValue_dependencies_mono[OF nullable(2)] loopState_key[of h ctx ek nd st]
    have "fieldKeyOf h ctx ek nd \<in> dependencies (st2\<lparr>partial := True\<rparr>)" by auto
    with readLoop_dependencies_mono[OF nullable(5)] show ?thesis by blast
  next
    case (emitted nd2 stack2 v d1 st2)
    with it have "nd2 = nd" by simp
    with readFieldValue_dependencies_mono[OF emitted(2)] loopState_key[of h ctx ek nd st]
    have "fieldKeyOf h ctx ek nd \<in> dependencies st2" by auto
    with readLoop_dependencies_mono[OF emitted(5)] show ?thesis by blast
  qed
qed

lemma readLoop_yields_key:
  assumes "iter_yields h ctx (Some tn) ek stack nd"
    and "readLoop m h ctx st tn ek True stack d hf = Some (Inr (Some d', st'))"
  shows "fieldKeyOf h ctx ek nd \<in> dependencies st'"
  using assms
proof (induction arbitrary: m st d hf rule: iter_yields.induct)
  case (first stack nd stack')
  then show ?case using readLoop_first_key by blast
next
  case (later stack nd' stack' nd)
  from later.prems obtain n where m: "m = Suc n" using Suc_of_Some(2) by blast
  from later.prems[unfolded m] show ?case
  proof (cases rule: readLoop_Suc_cases)
    case (finished stack')
    with later.hyps show ?thesis by simp
  next
    case (poisoned nd stack' v d1)
    then show ?thesis by simp
  next
    case (nullable nd2 stack2 d1 st2 sp)
    with later.hyps have "stack2 = stack'" by simp
    with nullable(5) later.IH show ?thesis by blast
  next
    case (emitted nd2 stack2 v d1 st2)
    with later.hyps have "stack2 = stack'" by simp
    with emitted(5) later.IH show ?thesis by blast
  qed
qed

lemma readSelection_loop:
  assumes "readSelection n h ctx st ek sel data = Some (Inr (r, st'))"
  obtains (absent) "stringOf (entityTypename h ctx ek) = None" "r = None"
      "st' = entityState ctx ek st"
  | (loop) m tn d0 where "n = Suc m" "stringOf (entityTypename h ctx ek) = Some tn"
      "asData data = Some (Inr d0)"
      "readLoop m h ctx (entityState ctx ek st) tn ek (ek = getRootKey (ctx_store ctx) OpQuery)
         (iter_init sel) (setProp d0 ''__typename'' (VStr tn)) False = Some (Inr (r, st'))"
proof -
  from assms obtain m where n: "n = Suc m" using Suc_of_Some(1) by blast
  show ?thesis
  proof (cases "stringOf (entityTypename h ctx ek)")
    case None
    from assms[unfolded n readSelection_Suc None] have "r = None \<and> entityState ctx ek st = st'"
      by auto
    with None absent show ?thesis by blast
  next
    case (Some tn)
    from assms[unfolded n readSelection_Suc Some option.case]
    obtain d0 where "asData data = Some (Inr d0)"
      "readLoop m h ctx (entityState ctx ek st) tn ek (ek = getRootKey (ctx_store ctx) OpQuery)
         (iter_init sel) (setProp d0 ''__typename'' (VStr tn)) False = Some (Inr (r, st'))"
      by (rule bindR_SomeInrE)
    with n Some loop show ?thesis by blast
  qed
qed

lemma entityTypename_root:
  "ek = getRootKey (ctx_store ctx) OpQuery \<Longrightarrow> stringOf (entityTypename h ctx ek) = Some ek"
  by (simp add: entityTypename_def)

text \<open>The loop of \<open>readRoot\<close>, and what it leaves in the data.\<close>

lemma getProp_setProp: "getProp (setProp d k v) a = (if a = k then v else getProp d a)"
  by (simp add: getProp_def setProp_def update_conv')

lemma iter_yields_iff:
  "iter_yields h ctx tn ek stack nd \<longleftrightarrow>
     (\<exists>nd0 stack'. iter_next h ctx tn ek stack = Some (Some nd0, stack') \<and>
        (nd = nd0 \<or> iter_yields h ctx tn ek stack' nd))"
  by (subst iter_yields.simps) auto

lemma readRootLoop_Suc_done:
  "iter_next h ctx (Some ek) ek stack = Some (None, stack') \<Longrightarrow>
   readRootLoop (Suc n) h ctx st ek stack inp acc = Some (Inr (acc, st))"
  by simp

lemma readRootLoop_Suc_copy:
  "iter_next h ctx (Some ek) ek stack = Some (Some nd, stack') \<Longrightarrow> copied inp nd \<Longrightarrow>
   readRootLoop (Suc n) h ctx st ek stack inp acc =
     readRootLoop n h ctx st ek stack' inp
       (setProp acc (getFieldAlias nd) (getProp inp (getFieldAlias nd)))"
  by (auto simp: Let_def copied_def)

lemma readRootLoop_Suc_recurse:
  "iter_next h ctx (Some ek) ek stack = Some (Some nd, stack') \<Longrightarrow> \<not> copied inp nd \<Longrightarrow>
   readRootLoop (Suc n) h ctx st ek stack inp acc =
     bindR (readRootField n h ctx st (getSelectionSet nd) (getProp inp (getFieldAlias nd)))
       (\<lambda>(v, st'). readRootLoop n h ctx st' ek stack' inp (setProp acc (getFieldAlias nd) v))"
  by (auto simp: Let_def copied_def)

lemma readRootLoop_shape:
  assumes "readRootLoop n h ctx st ek stack inp acc = Some (Inr (d', st'))"
  shows "(\<forall>a. (\<forall>nd. iter_yields h ctx (Some ek) ek stack nd \<longrightarrow> getFieldAlias nd \<noteq> a)
            \<longrightarrow> getProp d' a = getProp acc a) \<and>
         (\<forall>nd. iter_yields h ctx (Some ek) ek stack nd \<longrightarrow>
            getProp inp (getFieldAlias nd) = VNull \<or> isScalar (getProp inp (getFieldAlias nd))
            \<longrightarrow> getProp d' (getFieldAlias nd) = getProp inp (getFieldAlias nd)) \<and>
         ((\<forall>nd. iter_yields h ctx (Some ek) ek stack nd \<longrightarrow> copied inp nd) \<longrightarrow> st' = st)"
  using assms
proof (induction n arbitrary: st stack acc)
  case 0
  then show ?case by simp
next
  case (Suc n)
  show ?case
  proof (cases "iter_next h ctx (Some ek) ek stack")
    case None
    with Suc.prems show ?thesis by simp
  next
    case (Some p)
    obtain ndo stack' where p: "p = (ndo, stack')" by (cases p)
    show ?thesis
    proof (cases ndo)
      case None
      with Some p have it: "iter_next h ctx (Some ek) ek stack = Some (None, stack')" by simp
      from Suc.prems[unfolded readRootLoop_Suc_done[OF it]] have "d' = acc" "st' = st" by auto
      moreover have "\<not> iter_yields h ctx (Some ek) ek stack nd" for nd
        using it by (subst iter_yields_iff) simp
      ultimately show ?thesis by simp
    next
      case nd0: (Some nd0)
      with Some p have it: "iter_next h ctx (Some ek) ek stack = Some (Some nd0, stack')" by simp
      have y: "iter_yields h ctx (Some ek) ek stack nd \<longleftrightarrow>
                 nd = nd0 \<or> iter_yields h ctx (Some ek) ek stack' nd" for nd
        using it by (subst iter_yields_iff) simp
      let ?a0 = "getFieldAlias nd0"
      obtain v st1 where
        rec: "readRootLoop n h ctx st1 ek stack' inp (setProp acc ?a0 v) = Some (Inr (d', st'))"
        and vc: "copied inp nd0 \<longrightarrow> v = getProp inp ?a0 \<and> st1 = st"
      proof (cases "copied inp nd0")
        case True
        from Suc.prems[unfolded readRootLoop_Suc_copy[OF it True]] True that show ?thesis by blast
      next
        case False
        from Suc.prems[unfolded readRootLoop_Suc_recurse[OF it False]]
        obtain x where "(case x of (v, st') \<Rightarrow>
            readRootLoop n h ctx st' ek stack' inp (setProp acc ?a0 v)) = Some (Inr (d', st'))"
          by (rule bindR_SomeInrE)
        with False that show ?thesis by (cases x) auto
      qed
      note ih = Suc.IH[OF rec]
      have 1: "getProp d' a = getProp acc a"
        if "\<forall>nd. iter_yields h ctx (Some ek) ek stack nd \<longrightarrow> getFieldAlias nd \<noteq> a" for a
      proof -
        from that y have "?a0 \<noteq> a"
          and "\<forall>nd. iter_yields h ctx (Some ek) ek stack' nd \<longrightarrow> getFieldAlias nd \<noteq> a"
          by blast+
        with ih show ?thesis by (simp add: getProp_setProp)
      qed
      have 2: "getProp d' (getFieldAlias nd) = getProp inp (getFieldAlias nd)"
        if yn: "iter_yields h ctx (Some ek) ek stack nd"
          and sc: "getProp inp (getFieldAlias nd) = VNull \<or> isScalar (getProp inp (getFieldAlias nd))"
        for nd
      proof (cases "\<exists>nd'. iter_yields h ctx (Some ek) ek stack' nd' \<and>
                        getFieldAlias nd' = getFieldAlias nd")
        case True
        then obtain nd' where "iter_yields h ctx (Some ek) ek stack' nd'"
          "getFieldAlias nd' = getFieldAlias nd" by blast
        with ih sc show ?thesis by metis
      next
        case False
        with yn y[of nd] have a0: "getFieldAlias nd = ?a0" by auto
        from sc a0 have c: "copied inp nd0" by (auto simp: copied_def)
        from False ih have "getProp d' (getFieldAlias nd) = getProp (setProp acc ?a0 v) (getFieldAlias nd)"
          by blast
        with a0 c vc show ?thesis by (simp add: getProp_setProp)
      qed
      have 3: "st' = st" if "\<forall>nd. iter_yields h ctx (Some ek) ek stack nd \<longrightarrow> copied inp nd"
      proof -
        from that y have "copied inp nd0"
          and "\<forall>nd. iter_yields h ctx (Some ek) ek stack' nd \<longrightarrow> copied inp nd" by blast+
        with ih vc show ?thesis by simp
      qed
      from 1 2 3 show ?thesis by blast
    qed
  qed
qed

lemma read_with_input:
  "read fuel h s req (Some inp) deps =
     bindR (readRoot fuel h (makeContext s req) \<lparr>partial = False, dependencies = deps\<rparr>
              (getRootKey s (req_operation req)) (req_selectionSet req) inp)
       (\<lambda>(d, st'). returnR \<lparr> res_dependencies = dependencies st', res_partial = partial st',
                              res_data = VObj d \<rparr>)"
  by (simp add: read_def Let_def bindR_def split: option.splits sum.splits prod.splits)

lemma readRoot_Suc_merge:
  "isString (getProp inp ''__typename'') \<Longrightarrow>
   readRoot (Suc n) h ctx st ek sel inp =
     readRootLoop n h ctx st ek (iter_init sel) inp
       (setProp [] ''__typename'' (getProp inp ''__typename''))"
  by simp

section \<open>The calls of a read and their results\<close>

text \<open>
  The results of the calls, in terms of the functions.
\<close>

lemma resultOf_Selection:
  "resultOf h ctx (CallSelection n st ek sel data) = Some (Inr (v, s)) \<longleftrightarrow>
     (\<exists>r. readSelection n h ctx st ek sel data = Some (Inr (r, s)) \<and> v = dataValue r)"
  by (auto simp: bindR_def split: option.splits sum.splits)

lemma resultOf_Loop:
  "resultOf h ctx (CallLoop n st tn ek q stack d hf) = Some (Inr (v, s)) \<longleftrightarrow>
     (\<exists>r. readLoop n h ctx st tn ek q stack d hf = Some (Inr (r, s)) \<and> v = dataValue r)"
  by (auto simp: bindR_def split: option.splits sum.splits)

lemma resultOf_FieldValue:
  "resultOf h ctx (CallFieldValue n st tn ek nd d) = Some (Inr (v, s)) \<longleftrightarrow>
     (\<exists>d1. readFieldValue n h ctx st tn ek nd d = Some (Inr (v, d1, s)))"
  by (auto simp: bindR_def split: option.splits sum.splits)

lemma resultOf_ResolverResults:
  "resultOf h ctx (CallResolverResults n st rs i key sel prev) = Some (Inr (v, s)) \<longleftrightarrow>
     (\<exists>vs. resolveResolverResults n h ctx st rs i key sel prev = Some (Inr (vs, s)) \<and> v = VArr vs)"
  by (auto simp: bindR_def split: option.splits sum.splits)

lemma resultOf_Links:
  "resultOf h ctx (CallLinks n st ls i sel prev) = Some (Inr (v, s)) \<longleftrightarrow>
     (\<exists>vs. resolveLinks n h ctx st ls i sel prev = Some (Inr (vs, s)) \<and> v = VArr vs)"
  by (auto simp: bindR_def split: option.splits sum.splits)

lemma resultOf_Root:
  "resultOf h ctx (CallRoot n st ek sel d) = Some (Inr (v, s)) \<longleftrightarrow>
     (\<exists>d'. readRoot n h ctx st ek sel d = Some (Inr (d', s)) \<and> v = VObj d')"
  by (auto simp: bindR_def split: option.splits sum.splits)

lemma resultOf_RootLoop:
  "resultOf h ctx (CallRootLoop n st ek stack inp acc) = Some (Inr (v, s)) \<longleftrightarrow>
     (\<exists>d'. readRootLoop n h ctx st ek stack inp acc = Some (Inr (d', s)) \<and> v = VObj d')"
  by (auto simp: bindR_def split: option.splits sum.splits)

lemma resultOf_RootFields:
  "resultOf h ctx (CallRootFields n st sel xs) = Some (Inr (v, s)) \<longleftrightarrow>
     (\<exists>vs. readRootFields n h ctx st sel xs = Some (Inr (vs, s)) \<and> v = VArr vs)"
  by (auto simp: bindR_def split: option.splits sum.splits)

lemmas resultOf_iffs = resultOf_Selection resultOf_Loop resultOf_FieldValue
  resultOf_ResolverResults resultOf_Links resultOf_Root resultOf_RootLoop resultOf_RootFields

text \<open>
  No call removes a dependency.
\<close>

lemma resolveResolverResult_dependencies_mono:
  "resolveResolverResult n h ctx st res key sel prev = Some (Inr (v, st')) \<Longrightarrow>
   dependencies st \<subseteq> dependencies st'"
  using dependencies_mono_all[of n] by auto

lemma resolveResolverResults_dependencies_mono:
  "resolveResolverResults n h ctx st rs i key sel prev = Some (Inr (vs, st')) \<Longrightarrow>
   dependencies st \<subseteq> dependencies st'"
  using dependencies_mono_all[of n] by auto

lemma resolveLink_dependencies_mono:
  "resolveLink n h ctx st l sel prev = Some (Inr (v, st')) \<Longrightarrow>
   dependencies st \<subseteq> dependencies st'"
  using dependencies_mono_all[of n] by auto

lemma resolveLinks_dependencies_mono:
  "resolveLinks n h ctx st ls i sel prev = Some (Inr (vs, st')) \<Longrightarrow>
   dependencies st \<subseteq> dependencies st'"
  using dependencies_mono_all[of n] by auto

lemma readRootFields_Cons_SomeE:
  assumes "readRootFields (Suc n) h ctx st sel (x # xs) = Some (Inr (vs, st'))"
  obtains v st1 vs' where
    "readRootField n h ctx st sel x = Some (Inr (v, st1))"
    "readRootFields n h ctx st1 sel xs = Some (Inr (vs', st'))"
    "vs = v # vs'"
proof -
  from assms have "bindR (readRootField n h ctx st sel x) (\<lambda>(v, st').
     bindR (readRootFields n h ctx st' sel xs) (\<lambda>(vs, st''). returnR (v # vs, st'')))
       = Some (Inr (vs, st'))"
    by (simp only: readRootFields.simps)
  then obtain p where p: "readRootField n h ctx st sel x = Some (Inr p)"
    and 2: "(case p of (v, st') \<Rightarrow>
     bindR (readRootFields n h ctx st' sel xs) (\<lambda>(vs, st''). returnR (v # vs, st'')))
       = Some (Inr (vs, st'))"
    by (rule bindR_SomeInrE)
  obtain v st1 where pp: "p = (v, st1)" by (cases p)
  from 2 have "bindR (readRootFields n h ctx st1 sel xs) (\<lambda>(vs, st''). returnR (v # vs, st''))
       = Some (Inr (vs, st'))"
    unfolding pp prod.case .
  then obtain y where y: "readRootFields n h ctx st1 sel xs = Some (Inr y)"
    and 3: "(case y of (vs, st'') \<Rightarrow> returnR (v # vs, st'')) = Some (Inr (vs, st'))"
    by (rule bindR_SomeInrE)
  obtain vs' st2 where yy: "y = (vs', st2)" by (cases y)
  from 3 have "vs = v # vs' \<and> st2 = st'"
    unfolding yy prod.case returnR_def by auto
  with p pp y yy that show ?thesis by auto
qed

text \<open>
  The branches of the loop of \<open>readRoot\<close> and of \<open>readRootField\<close>, for a call that
  returns.
\<close>

lemma readRootLoop_Suc_cases [consumes 1, case_names finished copy recurse]:
  assumes "readRootLoop (Suc n) h ctx st ek stack inp acc = Some (Inr (d', st'))"
  obtains
    (finished) stack' where
      "iter_next h ctx (Some ek) ek stack = Some (None, stack')" "d' = acc" "st' = st"
  | (copy) nd stack' where
      "iter_next h ctx (Some ek) ek stack = Some (Some nd, stack')" "copied inp nd"
      "readRootLoop n h ctx st ek stack' inp
         (setProp acc (getFieldAlias nd) (getProp inp (getFieldAlias nd))) = Some (Inr (d', st'))"
  | (recurse) nd stack' v st1 where
      "iter_next h ctx (Some ek) ek stack = Some (Some nd, stack')" "\<not> copied inp nd"
      "readRootField n h ctx st (getSelectionSet nd) (getProp inp (getFieldAlias nd))
         = Some (Inr (v, st1))"
      "readRootLoop n h ctx st1 ek stack' inp (setProp acc (getFieldAlias nd) v)
         = Some (Inr (d', st'))"
proof (cases "iter_next h ctx (Some ek) ek stack")
  case None
  with assms show ?thesis by simp
next
  case (Some p)
  obtain ndo stack' where p: "p = (ndo, stack')" by (cases p)
  show ?thesis
  proof (cases ndo)
    case None
    with Some p have it: "iter_next h ctx (Some ek) ek stack = Some (None, stack')" by simp
    from assms[unfolded readRootLoop_Suc_done[OF it]] have "d' = acc" "st' = st" by auto
    with it finished show ?thesis by blast
  next
    case (Some nd)
    with \<open>iter_next h ctx (Some ek) ek stack = Some p\<close> p
    have it: "iter_next h ctx (Some ek) ek stack = Some (Some nd, stack')" by simp
    show ?thesis
    proof (cases "copied inp nd")
      case True
      from assms[unfolded readRootLoop_Suc_copy[OF it True]] it True copy show ?thesis by blast
    next
      case False
      from assms[unfolded readRootLoop_Suc_recurse[OF it False]]
      obtain x where x: "readRootField n h ctx st (getSelectionSet nd)
             (getProp inp (getFieldAlias nd)) = Some (Inr x)"
        and k: "(case x of (v, st') \<Rightarrow>
             readRootLoop n h ctx st' ek stack' inp (setProp acc (getFieldAlias nd) v))
           = Some (Inr (d', st'))"
        by (rule bindR_SomeInrE)
      obtain v st1 where xx: "x = (v, st1)" by (cases x)
      from k[unfolded xx prod.case] x[unfolded xx] it False recurse show ?thesis by blast
    qed
  qed
qed

lemma readRootField_Suc_cases [consumes 1, case_names array null entity root untyped]:
  assumes "readRootField (Suc n) h ctx st sel v = Some (Inr (v', st'))"
  obtains
    (array) xs vs where "arrayOf v = Some xs"
      "readRootFields n h ctx st sel xs = Some (Inr (vs, st'))" "v' = VArr vs"
  | (null) "v = VNull" "v' = VNull" "st' = st"
  | (entity) d k r where "v = VObj d" "keyOfEntity (ctx_store ctx) d = Some k"
      "readSelection n h ctx st k sel (VObj []) = Some (Inr (r, st'))"
      "v' = (case r of None \<Rightarrow> VNull | Some d' \<Rightarrow> VObj d')"
  | (root) d tn d' where "v = VObj d" "keyOfEntity (ctx_store ctx) d = None"
      "stringOf (getProp d ''__typename'') = Some tn"
      "readRoot n h ctx st tn sel d = Some (Inr (d', st'))" "v' = VObj d'"
  | (untyped) d where "v = VObj d" "keyOfEntity (ctx_store ctx) d = None"
      "stringOf (getProp d ''__typename'') = None" "v' = VObj d" "st' = st"
proof (cases "arrayOf v")
  case (Some xs)
  from assms[unfolded readRootField.simps Some option.case]
  obtain p where p: "readRootFields n h ctx st sel xs = Some (Inr p)"
    and k: "(case p of (vs, st') \<Rightarrow> returnR (VArr vs, st')) = Some (Inr (v', st'))"
    by (rule bindR_SomeInrE)
  obtain vs st1 where pp: "p = (vs, st1)" by (cases p)
  from k[unfolded pp] have "v' = VArr vs" "st1 = st'" by auto
  with p pp Some array show ?thesis by blast
next
  case None
  note na = this
  show ?thesis
  proof (cases "v = VNull")
    case True
    with assms na have "v' = VNull" "st' = st" by auto
    with True null show ?thesis by blast
  next
    case False
    show ?thesis
    proof (cases "objectOf v")
      case None
      with assms na False show ?thesis by simp
    next
      case (Some d)
      then have v: "v = VObj d" by (cases v) auto
      show ?thesis
      proof (cases "keyOfEntity (ctx_store ctx) d")
        case (Some k)
        from assms[unfolded v] Some
        have "bindR (readSelection n h ctx st k sel (VObj []))
                (\<lambda>(fieldValue, st').
                   returnR (case fieldValue of None \<Rightarrow> VNull | Some d' \<Rightarrow> VObj d', st'))
              = Some (Inr (v', st'))" by simp
        then obtain p where p: "readSelection n h ctx st k sel (VObj []) = Some (Inr p)"
          and k: "(case p of (fieldValue, st') \<Rightarrow>
                   returnR (case fieldValue of None \<Rightarrow> VNull | Some d' \<Rightarrow> VObj d', st'))
                   = Some (Inr (v', st'))"
          by (rule bindR_SomeInrE)
        obtain r st1 where pp: "p = (r, st1)" by (cases p)
        from k[unfolded pp] have "v' = (case r of None \<Rightarrow> VNull | Some d' \<Rightarrow> VObj d')"
          "st1 = st'" by auto
        with p pp v Some entity show ?thesis by blast
      next
        case None
        note nk = this
        show ?thesis
        proof (cases "stringOf (getProp d ''__typename'')")
          case None
          with assms[unfolded v] nk have "v' = VObj d" "st' = st" by auto
          with v nk None untyped show ?thesis by blast
        next
          case (Some tn)
          from assms[unfolded v] nk Some
          have "bindR (readRoot n h ctx st tn sel d) (\<lambda>(d', st'). returnR (VObj d', st'))
              = Some (Inr (v', st'))" by simp
          then obtain p where p: "readRoot n h ctx st tn sel d = Some (Inr p)"
            and k: "(case p of (d', st') \<Rightarrow> returnR (VObj d', st')) = Some (Inr (v', st'))"
            by (rule bindR_SomeInrE)
          obtain d' st1 where pp: "p = (d', st1)" by (cases p)
          from k[unfolded pp] have "v' = VObj d'" "st1 = st'" by auto
          with p pp v nk Some root show ?thesis by blast
        qed
      qed
    qed
  qed
qed

lemma root_dependencies_mono_all:
  "(\<forall>h ctx st ek sel d d' st'. readRoot n h ctx st ek sel d = Some (Inr (d', st'))
       \<longrightarrow> dependencies st \<subseteq> dependencies st') \<and>
   (\<forall>h ctx st ek stack inp acc d' st'.
       readRootLoop n h ctx st ek stack inp acc = Some (Inr (d', st'))
       \<longrightarrow> dependencies st \<subseteq> dependencies st') \<and>
   (\<forall>h ctx st sel v v' st'. readRootField n h ctx st sel v = Some (Inr (v', st'))
       \<longrightarrow> dependencies st \<subseteq> dependencies st') \<and>
   (\<forall>h ctx st sel xs vs st'. readRootFields n h ctx st sel xs = Some (Inr (vs, st'))
       \<longrightarrow> dependencies st \<subseteq> dependencies st')"
proof (induction n)
  case 0
  show ?case by simp
next
  case (Suc n)
  have ih1: "\<And>h ctx st ek sel d d' st'. readRoot n h ctx st ek sel d = Some (Inr (d', st'))
       \<Longrightarrow> dependencies st \<subseteq> dependencies st'"
    using Suc by auto
  have ih2: "\<And>h ctx st ek stack inp acc d' st'.
       readRootLoop n h ctx st ek stack inp acc = Some (Inr (d', st'))
       \<Longrightarrow> dependencies st \<subseteq> dependencies st'"
    using Suc by auto
  have ih3: "\<And>h ctx st sel v v' st'. readRootField n h ctx st sel v = Some (Inr (v', st'))
       \<Longrightarrow> dependencies st \<subseteq> dependencies st'"
    using Suc by auto
  have ih4: "\<And>h ctx st sel xs vs st'. readRootFields n h ctx st sel xs = Some (Inr (vs, st'))
       \<Longrightarrow> dependencies st \<subseteq> dependencies st'"
    using Suc by auto
  have c1: "dependencies st \<subseteq> dependencies st'"
    if "readRoot (Suc n) h ctx st ek sel d = Some (Inr (d', st'))" for h ctx st ek sel d d' st'
    using that by (auto split: if_splits dest: ih2)
  have c2: "dependencies st \<subseteq> dependencies st'"
    if "readRootLoop (Suc n) h ctx st ek stack inp acc = Some (Inr (d', st'))"
    for h ctx st ek stack inp acc d' st'
    using that
  proof (cases rule: readRootLoop_Suc_cases)
    case (finished stack')
    then show ?thesis by simp
  next
    case (copy nd stack')
    from ih2[OF copy(3)] show ?thesis .
  next
    case (recurse nd stack' v st1)
    from ih3[OF recurse(3)] ih2[OF recurse(4)] show ?thesis by blast
  qed
  have c3: "dependencies st \<subseteq> dependencies st'"
    if "readRootField (Suc n) h ctx st sel v = Some (Inr (v', st'))" for h ctx st sel v v' st'
    using that
  proof (cases rule: readRootField_Suc_cases)
    case (array xs vs)
    from ih4[OF array(2)] show ?thesis .
  next
    case null
    then show ?thesis by simp
  next
    case (entity d k r)
    from readSelection_dependencies_mono[OF entity(3)] show ?thesis .
  next
    case (root d tn d')
    from ih1[OF root(4)] show ?thesis .
  next
    case (untyped d)
    then show ?thesis by simp
  qed
  have c4: "dependencies st \<subseteq> dependencies st'"
    if "readRootFields (Suc n) h ctx st sel xs = Some (Inr (vs, st'))" for h ctx st sel xs vs st'
  proof (cases xs)
    case Nil
    with that show ?thesis by simp
  next
    case (Cons x xs')
    from that[unfolded Cons] show ?thesis
    proof (rule readRootFields_Cons_SomeE)
      fix v st1 vs'
      assume "readRootField n h ctx st sel x = Some (Inr (v, st1))"
        "readRootFields n h ctx st1 sel xs' = Some (Inr (vs', st'))"
      from ih3[OF this(1)] ih4[OF this(2)] show ?thesis by blast
    qed
  qed
  show ?case using c1 c2 c3 c4 by blast
qed

lemma readRoot_dependencies_mono:
  "readRoot n h ctx st ek sel d = Some (Inr (d', st')) \<Longrightarrow> dependencies st \<subseteq> dependencies st'"
  using root_dependencies_mono_all[of n] by auto

lemma readRootLoop_dependencies_mono:
  "readRootLoop n h ctx st ek stack inp acc = Some (Inr (d', st')) \<Longrightarrow>
   dependencies st \<subseteq> dependencies st'"
  using root_dependencies_mono_all[of n] by auto

lemma readRootField_dependencies_mono:
  "readRootField n h ctx st sel v = Some (Inr (v', st')) \<Longrightarrow>
   dependencies st \<subseteq> dependencies st'"
  using root_dependencies_mono_all[of n] by auto

lemma readRootFields_dependencies_mono:
  "readRootFields n h ctx st sel xs = Some (Inr (vs, st')) \<Longrightarrow>
   dependencies st \<subseteq> dependencies st'"
  using root_dependencies_mono_all[of n] by auto

lemma resultOf_dependencies_mono:
  assumes "resultOf h ctx c = Some (Inr (v, s))"
  shows "dependencies (stateOf c) \<subseteq> dependencies s"
proof (cases c)
  case (CallSelection n st ek sel data)
  with assms show ?thesis by (auto simp: resultOf_iffs dest: readSelection_dependencies_mono)
next
  case (CallLoop n st tn ek q stack d hf)
  with assms show ?thesis by (auto simp: resultOf_iffs dest: readLoop_dependencies_mono)
next
  case (CallFieldValue n st tn ek nd d)
  with assms show ?thesis by (auto simp: resultOf_iffs dest: readFieldValue_dependencies_mono)
next
  case (CallResolverResult n st res key sel prev)
  with assms show ?thesis by (auto dest: resolveResolverResult_dependencies_mono)
next
  case (CallResolverResults n st rs i key sel prev)
  with assms show ?thesis
    by (auto simp: resultOf_iffs dest: resolveResolverResults_dependencies_mono)
next
  case (CallLink n st l sel prev)
  with assms show ?thesis by (auto dest: resolveLink_dependencies_mono)
next
  case (CallLinks n st ls i sel prev)
  with assms show ?thesis by (auto simp: resultOf_iffs dest: resolveLinks_dependencies_mono)
next
  case (CallRoot n st ek sel d)
  with assms show ?thesis by (auto simp: resultOf_iffs dest: readRoot_dependencies_mono)
next
  case (CallRootLoop n st ek stack inp acc)
  with assms show ?thesis by (auto simp: resultOf_iffs dest: readRootLoop_dependencies_mono)
next
  case (CallRootField n st sel v)
  with assms show ?thesis by (auto dest: readRootField_dependencies_mono)
next
  case (CallRootFields n st sel xs)
  with assms show ?thesis by (auto simp: resultOf_iffs dest: readRootFields_dependencies_mono)
qed

text \<open>
  The call sites: what the caller computes from the result of the callee.
\<close>

lemma readFieldValue_resolver:
  assumes "resolvers (ctx_store ctx) tn (getName nd) = Some resolver" "hasSelectionSet nd"
    and "resolverValue h ctx resolver ek nd d \<noteq> VUndefined"
    and "resolverValue h ctx resolver ek nd d \<noteq> VNull"
  shows "readFieldValue (Suc n) h ctx st tn ek nd d =
     bindR (resolveResolverResult n h ctx st (resolverValue h ctx resolver ek nd d)
              (fieldKeyOf h ctx ek nd) (getSelectionSet nd)
              (getProp (resolverData h ctx ek nd d) (getFieldAlias nd)))
       (\<lambda>(v, st'). returnR (v, resolverData h ctx ek nd d, st'))"
  using assms
  by (cases "getRecord (ctx_store ctx) (fieldKeyOf h ctx ek nd) = VUndefined")
     (simp_all add: fieldKeyOf_def Let_def resolverValue_def resolverData_def)

lemma resolveResolverResult_array:
  "arrayOf res = Some rs \<Longrightarrow>
   resolveResolverResult (Suc n) h ctx st res key sel prev =
     bindR (resolveResolverResults n h ctx st rs 0 key sel prev)
       (\<lambda>(vs, st'). returnR (VArr vs, st'))"
  by simp

lemma resolveResolverResult_entity:
  "arrayOf res = None \<Longrightarrow> res \<noteq> VNull \<Longrightarrow> isDataOrKey res \<Longrightarrow>
   resolveResolverResult (Suc n) h ctx st res key sel prev =
     bindR (readSelection n h ctx st (childKeyOf (ctx_store ctx) res key) sel (dataOrNew prev))
       (\<lambda>(r, st'). returnR (dataValue r, st'))"
  by simp

lemma resolveLink_array:
  "resolveLink (Suc n) h ctx st (LArr ls) sel prev =
     bindR (resolveLinks n h ctx st ls 0 sel prev) (\<lambda>(vs, st'). returnR (VArr vs, st'))"
  by simp

lemma bindR_pair_SomeInrE:
  assumes "bindR m (\<lambda>(a, st'). returnR (g a st', st')) = Some (Inr (v, s))"
  obtains a where "m = Some (Inr (a, s))" "v = g a s"
proof -
  from assms obtain x where x: "m = Some (Inr x)"
    and k: "(case x of (a, st') \<Rightarrow> returnR (g a st', st')) = Some (Inr (v, s))"
    by (rule bindR_SomeInrE)
  obtain a st1 where xx: "x = (a, st1)" by (cases x)
  from k[unfolded xx] have "v = g a s" "st1 = s" by auto
  with x xx that show ?thesis by blast
qed

text \<open>
  When a call returns, every call it makes returns, with dependencies that are among
  those of the caller's result.
\<close>

lemma calls_result:
  assumes "calls h ctx c c'" and "resultOf h ctx c = Some (Inr (v, s))"
  shows "\<exists>v' s'. resultOf h ctx c' = Some (Inr (v', s')) \<and> dependencies s' \<subseteq> dependencies s"
  using assms
proof (cases rule: calls.cases)
  case (selection_loop ek tn data d n st sel)
  from assms(2)[unfolded selection_loop(1) resultOf_Selection] obtain r where
    r: "readSelection (Suc n) h ctx st ek sel data = Some (Inr (r, s))" by blast
  from r[unfolded readSelection_Suc selection_loop(3) option.case selection_loop(4) bindR_simps]
  show ?thesis unfolding selection_loop(2) resultOf_Loop by blast
next
  case (loop_field tn ek stack nd stack' n st q d hf)
  from assms(2)[unfolded loop_field(1) resultOf_Loop] obtain r where
    r: "readLoop (Suc n) h ctx st tn ek q stack d hf = Some (Inr (r, s))" by blast
  from r show ?thesis
  proof (cases rule: readLoop_Suc_cases)
    case (finished stack2)
    with loop_field(3) show ?thesis by simp
  next
    case (poisoned nd2 stack2 v2 d1)
    with loop_field(3) have "nd2 = nd" by simp
    with poisoned(2) show ?thesis unfolding loop_field(2) resultOf_FieldValue by blast
  next
    case (nullable nd2 stack2 d1 st2 sp)
    with loop_field(3) have nd2: "nd2 = nd" by simp
    from readLoop_dependencies_mono[OF nullable(5)] have "dependencies st2 \<subseteq> dependencies s"
      by simp
    with nullable(2) nd2 show ?thesis unfolding loop_field(2) resultOf_FieldValue by blast
  next
    case (emitted nd2 stack2 v2 d1 st2)
    with loop_field(3) have nd2: "nd2 = nd" by simp
    from readLoop_dependencies_mono[OF emitted(5)] have "dependencies st2 \<subseteq> dependencies s" .
    with emitted(2) nd2 show ?thesis unfolding loop_field(2) resultOf_FieldValue by blast
  qed
next
  case (loop_nullable tn ek stack nd stack' n q st d d1 st2 sp hf)
  from assms(2)[unfolded loop_nullable(1) resultOf_Loop] obtain r where
    r: "readLoop (Suc n) h ctx st tn ek q stack d hf = Some (Inr (r, s))" by blast
  from r[unfolded readLoop_Suc_node[OF loop_nullable(3)] loop_nullable(4) bindR_simps]
    loop_nullable(5,6)
  have "readLoop n h ctx (st2\<lparr>partial := True\<rparr>) tn ek q stack'
          (setProp d1 (getFieldAlias nd) VNull) True = Some (Inr (r, s))" by simp
  then show ?thesis unfolding loop_nullable(2) resultOf_Loop by blast
next
  case (loop_emitted tn ek stack nd stack' n q st d v2 d1 st2 hf)
  from assms(2)[unfolded loop_emitted(1) resultOf_Loop] obtain r where
    r: "readLoop (Suc n) h ctx st tn ek q stack d hf = Some (Inr (r, s))" by blast
  from r[unfolded readLoop_Suc_node[OF loop_emitted(3)] loop_emitted(4) bindR_simps]
    loop_emitted(5,6)
  have "readLoop n h ctx st2 tn ek q stack' (setProp d1 (getFieldAlias nd) v2) True
          = Some (Inr (r, s))" by simp
  then show ?thesis unfolding loop_emitted(2) resultOf_Loop by blast
next
  case (field_resolver tn nd resolver ek d n st)
  from assms(2)[unfolded field_resolver(1) resultOf_FieldValue] obtain d1 where
    "readFieldValue (Suc n) h ctx st tn ek nd d = Some (Inr (v, d1, s))" by blast
  from this[unfolded readFieldValue_resolver[OF field_resolver(3,4,5,6)]]
  obtain x where "resolveResolverResult n h ctx st (resolverValue h ctx resolver ek nd d)
              (fieldKeyOf h ctx ek nd) (getSelectionSet nd)
              (getProp (resolverData h ctx ek nd d) (getFieldAlias nd)) = Some (Inr x)"
    and "(case x of (v, st') \<Rightarrow> returnR (v, resolverData h ctx ek nd d, st'))
           = Some (Inr (v, d1, s))"
    by (rule bindR_SomeInrE)
  then show ?thesis unfolding field_resolver(2) by (cases x) auto
next
  case (field_link tn nd ek l n st d)
  from assms(2)[unfolded field_link(1) resultOf_FieldValue] obtain d1 where
    "readFieldValue (Suc n) h ctx st tn ek nd d = Some (Inr (v, d1, s))" by blast
  from this[unfolded readFieldValue_link[OF field_link(3,4,5)]]
  obtain x where "resolveLink n h ctx st l (getSelectionSet nd) (getProp d (getFieldAlias nd))
      = Some (Inr x)"
    and "(case x of (v, st') \<Rightarrow> returnR (v, d, st')) = Some (Inr (v, d1, s))"
    by (rule bindR_SomeInrE)
  then show ?thesis unfolding field_link(2) by (cases x) auto
next
  case (resolver_array res rs n st key sel prev)
  from assms(2)[unfolded resolver_array(1) resultOf.simps
      resolveResolverResult_array[OF resolver_array(3)]]
  show ?thesis unfolding resolver_array(2) resultOf.simps by auto
next
  case (resolver_entity res n st key sel prev)
  from assms(2)[unfolded resolver_entity(1) resultOf.simps
      resolveResolverResult_entity[OF resolver_entity(3,4,5)]]
  show ?thesis unfolding resolver_entity(2) resultOf.simps by auto
next
  case (resolvers_head prev i data n st c0 rs key sel)
  from assms(2)[unfolded resolvers_head(1) resultOf_ResolverResults] obtain vs where
    "resolveResolverResults (Suc n) h ctx st (c0 # rs) i key sel prev = Some (Inr (vs, s))"
    by blast
  then show ?thesis
  proof (rule resolveResolverResults_Cons_SomeE)
    fix data2 v2 st1 vs'
    assume a: "prevDataAt prev i = Some (Inr data2)"
      "resolveResolverResult n h ctx st c0 (joinKeys key (show_nat i)) sel data2
         = Some (Inr (v2, st1))"
      "resolveResolverResults n h ctx st1 rs (Suc i) key sel prev = Some (Inr (vs', s))"
    from a(1) resolvers_head(3) have "data2 = data" by simp
    with a(2) resolveResolverResults_dependencies_mono[OF a(3)]
    show ?thesis unfolding resolvers_head(2) resultOf.simps by blast
  qed
next
  case (resolvers_tail prev i data n st c0 key sel v2 st2 rs)
  from assms(2)[unfolded resolvers_tail(1) resultOf_ResolverResults] obtain vs where
    "resolveResolverResults (Suc n) h ctx st (c0 # rs) i key sel prev = Some (Inr (vs, s))"
    by blast
  then show ?thesis
  proof (rule resolveResolverResults_Cons_SomeE)
    fix data2 v3 st1 vs'
    assume a: "prevDataAt prev i = Some (Inr data2)"
      "resolveResolverResult n h ctx st c0 (joinKeys key (show_nat i)) sel data2
         = Some (Inr (v3, st1))"
      "resolveResolverResults n h ctx st1 rs (Suc i) key sel prev = Some (Inr (vs', s))"
    from a(1) resolvers_tail(3) have "data2 = data" by simp
    with a(2) resolvers_tail(4) have "st1 = st2" by simp
    with a(3) show ?thesis unfolding resolvers_tail(2) resultOf_ResolverResults by blast
  qed
next
  case (link_array n st ls sel prev)
  from assms(2)[unfolded link_array(1) resultOf.simps resolveLink_array]
  show ?thesis unfolding link_array(2) resultOf.simps by auto
next
  case (link_entity n st k sel prev)
  from assms(2)[unfolded link_entity(1) resultOf.simps resolveLink_key]
  show ?thesis unfolding link_entity(2) resultOf.simps by auto
next
  case (links_head prev i data n st l ls sel)
  from assms(2)[unfolded links_head(1) resultOf_Links] obtain vs where
    "resolveLinks (Suc n) h ctx st (l # ls) i sel prev = Some (Inr (vs, s))" by blast
  then show ?thesis
  proof (rule resolveLinks_Cons_SomeE)
    fix data2 v2 st1 vs'
    assume a: "prevDataAt prev i = Some (Inr data2)"
      "resolveLink n h ctx st l sel data2 = Some (Inr (v2, st1))"
      "resolveLinks n h ctx st1 ls (Suc i) sel prev = Some (Inr (vs', s))"
    from a(1) links_head(3) have "data2 = data" by simp
    with a(2) resolveLinks_dependencies_mono[OF a(3)]
    show ?thesis unfolding links_head(2) resultOf.simps by blast
  qed
next
  case (links_tail prev i data n st l sel v2 st2 ls)
  from assms(2)[unfolded links_tail(1) resultOf_Links] obtain vs where
    "resolveLinks (Suc n) h ctx st (l # ls) i sel prev = Some (Inr (vs, s))" by blast
  then show ?thesis
  proof (rule resolveLinks_Cons_SomeE)
    fix data2 v3 st1 vs'
    assume a: "prevDataAt prev i = Some (Inr data2)"
      "resolveLink n h ctx st l sel data2 = Some (Inr (v3, st1))"
      "resolveLinks n h ctx st1 ls (Suc i) sel prev = Some (Inr (vs', s))"
    from a(1) links_tail(3) have "data2 = data" by simp
    with a(2) links_tail(4) have "st1 = st2" by simp
    with a(3) show ?thesis unfolding links_tail(2) resultOf_Links by blast
  qed
next
  case (root_loop inp n st ek sel)
  from assms(2)[unfolded root_loop(1) resultOf_Root] obtain d' where
    "readRoot (Suc n) h ctx st ek sel inp = Some (Inr (d', s))" by blast
  from this[unfolded readRoot_Suc_merge[OF root_loop(3)]]
  show ?thesis unfolding root_loop(2) resultOf_RootLoop by blast
next
  case (rootloop_field ek stack nd stack' inp n st acc)
  from assms(2)[unfolded rootloop_field(1) resultOf_RootLoop] obtain d' where
    "readRootLoop (Suc n) h ctx st ek stack inp acc = Some (Inr (d', s))" by blast
  from this show ?thesis
  proof (cases rule: readRootLoop_Suc_cases)
    case (finished stack2)
    with rootloop_field(3) show ?thesis by simp
  next
    case (copy nd2 stack2)
    with rootloop_field(3,4) show ?thesis by simp
  next
    case (recurse nd2 stack2 v2 st1)
    with rootloop_field(3) have "nd2 = nd" by simp
    with recurse(3) readRootLoop_dependencies_mono[OF recurse(4)]
    show ?thesis unfolding rootloop_field(2) resultOf.simps by blast
  qed
next
  case (rootloop_copied ek stack nd stack' inp n st acc)
  from assms(2)[unfolded rootloop_copied(1) resultOf_RootLoop] obtain d' where
    "readRootLoop (Suc n) h ctx st ek stack inp acc = Some (Inr (d', s))" by blast
  from this[unfolded readRootLoop_Suc_copy[OF rootloop_copied(3,4)]]
  show ?thesis unfolding rootloop_copied(2) resultOf_RootLoop by blast
next
  case (rootloop_read ek stack nd stack' inp n st v2 st2 acc)
  from assms(2)[unfolded rootloop_read(1) resultOf_RootLoop] obtain d' where
    "readRootLoop (Suc n) h ctx st ek stack inp acc = Some (Inr (d', s))" by blast
  from this[unfolded readRootLoop_Suc_recurse[OF rootloop_read(3,4)] rootloop_read(5) bindR_simps]
  have "readRootLoop n h ctx st2 ek stack' inp (setProp acc (getFieldAlias nd) v2)
          = Some (Inr (d', s))" by simp
  then show ?thesis unfolding rootloop_read(2) resultOf_RootLoop by blast
next
  case (rootfield_array v0 xs n st sel)
  from assms(2)[unfolded rootfield_array(1) resultOf.simps] show ?thesis
  proof (cases rule: readRootField_Suc_cases)
    case (array xs2 vs)
    with rootfield_array(3) show ?thesis unfolding rootfield_array(2) resultOf_RootFields by auto
  qed (use rootfield_array(3) in auto)
next
  case (rootfield_entity d k n st sel)
  from assms(2)[unfolded rootfield_entity(1) resultOf.simps] show ?thesis
  proof (cases rule: readRootField_Suc_cases)
    case (entity d2 k2 r)
    with rootfield_entity(3) show ?thesis unfolding rootfield_entity(2) resultOf_Selection by auto
  qed (use rootfield_entity(3) in auto)
next
  case (rootfield_root d tn n st sel)
  from assms(2)[unfolded rootfield_root(1) resultOf.simps] show ?thesis
  proof (cases rule: readRootField_Suc_cases)
    case (root d2 tn2 d')
    with rootfield_root(3,4) show ?thesis unfolding rootfield_root(2) resultOf_Root by auto
  qed (use rootfield_root(3,4) in auto)
next
  case (rootfields_head n st sel x xs)
  from assms(2)[unfolded rootfields_head(1) resultOf_RootFields] obtain vs where
    "readRootFields (Suc n) h ctx st sel (x # xs) = Some (Inr (vs, s))" by blast
  then show ?thesis
  proof (rule readRootFields_Cons_SomeE)
    fix v2 st1 vs'
    assume a: "readRootField n h ctx st sel x = Some (Inr (v2, st1))"
      "readRootFields n h ctx st1 sel xs = Some (Inr (vs', s))"
    from a(1) readRootFields_dependencies_mono[OF a(2)]
    show ?thesis unfolding rootfields_head(2) resultOf.simps by blast
  qed
next
  case (rootfields_tail n st sel x v2 st2 xs)
  from assms(2)[unfolded rootfields_tail(1) resultOf_RootFields] obtain vs where
    "readRootFields (Suc n) h ctx st sel (x # xs) = Some (Inr (vs, s))" by blast
  then show ?thesis
  proof (rule readRootFields_Cons_SomeE)
    fix v3 st1 vs'
    assume a: "readRootField n h ctx st sel x = Some (Inr (v3, st1))"
      "readRootFields n h ctx st1 sel xs = Some (Inr (vs', s))"
    from a(1) rootfields_tail(3) have "st1 = st2" by simp
    with a(2) show ?thesis unfolding rootfields_tail(2) resultOf_RootFields by blast
  qed
qed

lemma dataValue_undefined [simp]:
  "dataValue r = VUndefined \<longleftrightarrow> r = None"
  "VUndefined = dataValue r \<longleftrightarrow> r = None"
  by (cases r; simp add: dataValue_def)+

text \<open>
  Without a schema oracle, the \<open>undefined\<close> of a callee is the result of a caller that
  is not a loop over a list, with the same state.
\<close>

lemma passes_undefined:
  assumes ns: "ctx_schemaPredicates ctx = None"
    and p: "passes h ctx c c'"
    and u: "resultOf h ctx c' = Some (Inr (VUndefined, s))"
  shows "resultOf h ctx c = Some (Inr (VUndefined, s))"
proof -
  from p have c: "calls h ctx c c'" and pr: "propagates c" by (simp_all add: passes_def)
  from c show ?thesis
  proof (cases rule: calls.cases)
    case (selection_loop ek tn data d n st sel)
    from u[unfolded selection_loop(2) resultOf_Loop]
    have "readLoop n h ctx (entityState ctx ek st) tn ek (ek = getRootKey (ctx_store ctx) OpQuery)
            (iter_init sel) (setProp d ''__typename'' (VStr tn)) False = Some (Inr (None, s))"
      by auto
    then have "readSelection (Suc n) h ctx st ek sel data = Some (Inr (None, s))"
      unfolding readSelection_Suc selection_loop(3) option.case selection_loop(4) bindR_simps .
    then show ?thesis unfolding selection_loop(1) resultOf_Selection by simp
  next
    case (loop_field tn ek stack nd stack' n st q d hf)
    from u[unfolded loop_field(2) resultOf_FieldValue] obtain d1 where
      "readFieldValue n h ctx (loopState h ctx ek q nd st) tn ek nd d
         = Some (Inr (VUndefined, d1, s))" by blast
    from readLoop_poison[OF ns loop_field(3) this]
    show ?thesis unfolding loop_field(1) resultOf_Loop by simp
  next
    case (loop_nullable tn ek stack nd stack' n q st d d1 st2 sp hf)
    with ns show ?thesis by simp
  next
    case (loop_emitted tn ek stack nd stack' n q st d v2 d1 st2 hf)
    from u[unfolded loop_emitted(2) resultOf_Loop]
    have "readLoop n h ctx st2 tn ek q stack' (setProp d1 (getFieldAlias nd) v2) True
            = Some (Inr (None, s))" by auto
    with loop_emitted(4,5,6)
    have "readLoop (Suc n) h ctx st tn ek q stack d hf = Some (Inr (None, s))"
      unfolding readLoop_Suc_node[OF loop_emitted(3)] by simp
    then show ?thesis unfolding loop_emitted(1) resultOf_Loop by simp
  next
    case (field_resolver tn nd resolver ek d n st)
    from u[unfolded field_resolver(2) resultOf.simps]
    show ?thesis unfolding field_resolver(1) resultOf.simps
        readFieldValue_resolver[OF field_resolver(3,4,5,6)] by simp
  next
    case (field_link tn nd ek l n st d)
    from u[unfolded field_link(2) resultOf.simps]
    show ?thesis unfolding field_link(1) resultOf.simps
        readFieldValue_link[OF field_link(3,4,5)] by simp
  next
    case (resolver_array res rs n st key sel prev)
    from u[unfolded resolver_array(2) resultOf_ResolverResults] show ?thesis by simp
  next
    case (resolver_entity res n st key sel prev)
    from u[unfolded resolver_entity(2) resultOf.simps]
    show ?thesis unfolding resolver_entity(1) resultOf.simps
        resolveResolverResult_entity[OF resolver_entity(3,4,5)] .
  next
    case (link_array n st ls sel prev)
    from u[unfolded link_array(2) resultOf_Links] show ?thesis by simp
  next
    case (link_entity n st k sel prev)
    from u[unfolded link_entity(2) resultOf.simps]
    show ?thesis unfolding link_entity(1) resultOf.simps resolveLink_key .
  qed (use pr in simp_all)
qed

lemma passes_star_undefined:
  assumes "ctx_schemaPredicates ctx = None"
    and "(passes h ctx)\<^sup>*\<^sup>* c0 c"
    and "resultOf h ctx c = Some (Inr (VUndefined, s))"
  shows "resultOf h ctx c0 = Some (Inr (VUndefined, s))"
  using assms(2,3)
proof (induction rule: converse_rtranclp_induct)
  case base
  then show ?case .
next
  case (step y z)
  from passes_undefined[OF assms(1) step(1) step(3)[OF step(4)]] show ?case .
qed

lemma calls_star_result:
  assumes "(calls h ctx)\<^sup>*\<^sup>* c0 c" and "resultOf h ctx c0 = Some (Inr (v0, s0))"
  shows "\<exists>v s. resultOf h ctx c = Some (Inr (v, s)) \<and> dependencies s \<subseteq> dependencies s0"
  using assms
proof (induction rule: rtranclp_induct)
  case base
  then show ?case by blast
next
  case (step y z)
  from step(3)[OF step(4)] obtain v s where
    y: "resultOf h ctx y = Some (Inr (v, s))" "dependencies s \<subseteq> dependencies s0" by blast
  from calls_result[OF step(2) y(1)] y(2) show ?case by blast
qed

lemma calls_queryFlagged: "calls h ctx c c' \<Longrightarrow> queryFlagged ctx c \<Longrightarrow> queryFlagged ctx c'"
  by (induction rule: calls.induct) simp_all

lemma calls_star_queryFlagged:
  "(calls h ctx)\<^sup>*\<^sup>* c0 c \<Longrightarrow> queryFlagged ctx c0 \<Longrightarrow> queryFlagged ctx c"
  by (induction rule: rtranclp_induct) (auto dest: calls_queryFlagged)

text \<open>
  The key of every entity visited and of every root field taken from the iterator, in
  the dependencies that \<open>read\<close> returns.
\<close>

lemma read_resultOf:
  assumes "read fuel h s req input deps = Some (Inr res)"
  shows "\<exists>v st. resultOf h (makeContext s req) (readCall fuel s req input deps) = Some (Inr (v, st))
           \<and> res_dependencies res = dependencies st"
proof (cases input)
  case None
  from assms[unfolded None read_no_input] obtain x where
    x: "readSelection fuel h (makeContext s req) \<lparr>partial = False, dependencies = deps\<rparr>
           (getRootKey s (req_operation req)) (req_selectionSet req) (VObj []) = Some (Inr x)"
    and k: "(case x of (data, st') \<Rightarrow>
          returnR \<lparr> res_dependencies = dependencies st',
                    res_partial = (case data of None \<Rightarrow> False | Some d \<Rightarrow> partial st'),
                    res_data = (case data of None \<Rightarrow> VNull | Some d \<Rightarrow> VObj d) \<rparr>)
          = Some (Inr res)"
    by (rule bindR_SomeInrE)
  obtain dat st' where xx: "x = (dat, st')" by (cases x)
  from k[unfolded xx] have "res_dependencies res = dependencies st'" by auto
  with x xx show ?thesis by (auto simp: readCall_def None)
next
  case (Some inp)
  from assms[unfolded Some read_with_input] obtain x where
    x: "readRoot fuel h (makeContext s req) \<lparr>partial = False, dependencies = deps\<rparr>
           (getRootKey s (req_operation req)) (req_selectionSet req) inp = Some (Inr x)"
    and k: "(case x of (d, st') \<Rightarrow>
          returnR \<lparr> res_dependencies = dependencies st', res_partial = partial st',
                    res_data = VObj d \<rparr>) = Some (Inr res)"
    by (rule bindR_SomeInrE)
  obtain dat st' where xx: "x = (dat, st')" by (cases x)
  from k[unfolded xx] have "res_dependencies res = dependencies st'" by auto
  with x xx show ?thesis by (auto simp: readCall_def Some)
qed

lemma visited_entity_dependency:
  assumes "read fuel h s req input deps = Some (Inr res)"
    and "(calls h (makeContext s req))\<^sup>*\<^sup>* (readCall fuel s req input deps)
           (CallSelection n st ek sel data)"
    and "ek \<noteq> getRootKey s OpQuery"
  shows "ek \<in> res_dependencies res"
proof -
  let ?ctx = "makeContext s req"
  from read_resultOf[OF assms(1)] obtain v0 s0 where
    r0: "resultOf h ?ctx (readCall fuel s req input deps) = Some (Inr (v0, s0))"
    and res: "res_dependencies res = dependencies s0" by blast
  from calls_star_result[OF assms(2) r0] obtain v s1 where
    c: "resultOf h ?ctx (CallSelection n st ek sel data) = Some (Inr (v, s1))"
    and sub: "dependencies s1 \<subseteq> dependencies s0" by blast
  from c[unfolded resultOf_Selection] obtain r where
    rs: "readSelection n h ?ctx st ek sel data = Some (Inr (r, s1))" by blast
  have nr: "ek \<noteq> getRootKey (ctx_store ?ctx) OpQuery"
    using assms(3) by (simp add: makeContext_def)
  from rs have "ek \<in> dependencies s1"
  proof (cases rule: readSelection_loop)
    case absent
    with nr show ?thesis by (simp add: entityState_def addDependency_def)
  next
    case (loop m tn d0)
    from readLoop_dependencies_mono[OF loop(4)] nr show ?thesis
      by (auto simp: entityState_def addDependency_def)
  qed
  with sub res show ?thesis by blast
qed

lemma visited_root_field_dependency:
  assumes "read fuel h s req input deps = Some (Inr res)"
    and "(calls h (makeContext s req))\<^sup>*\<^sup>* (readCall fuel s req input deps)
           (CallLoop n st tn ek q stack d hf)"
    and "ek = getRootKey s OpQuery"
    and "iter_next h (makeContext s req) (Some tn) ek stack = Some (Some nd, stack')"
  shows "fieldKeyOf h (makeContext s req) ek nd \<in> res_dependencies res"
proof -
  let ?ctx = "makeContext s req"
  from read_resultOf[OF assms(1)] obtain v0 s0 where
    r0: "resultOf h ?ctx (readCall fuel s req input deps) = Some (Inr (v0, s0))"
    and res: "res_dependencies res = dependencies s0" by blast
  from calls_star_result[OF assms(2) r0] obtain v s1 where
    c: "resultOf h ?ctx (CallLoop n st tn ek q stack d hf) = Some (Inr (v, s1))"
    and sub: "dependencies s1 \<subseteq> dependencies s0" by blast
  have "queryFlagged ?ctx (readCall fuel s req input deps)"
    by (cases input) (simp_all add: readCall_def)
  from calls_star_queryFlagged[OF assms(2) this] assms(3)
  have q: "q" by (simp add: makeContext_def)
  from c[unfolded resultOf_Loop] obtain r where
    rl: "readLoop n h ?ctx st tn ek q stack d hf = Some (Inr (r, s1))" by blast
  from readLoop_first_key[OF assms(4) rl[unfolded q[THEN eqTrueI]]]
  have "fieldKeyOf h ?ctx ek nd \<in> dependencies s1" .
  with sub res show ?thesis by blast
qed

lemma readRootField_entity:
  "keyOfEntity (ctx_store ctx) d = Some k \<Longrightarrow>
   readRootField (Suc n) h ctx st sel (VObj d) =
     bindR (readSelection n h ctx st k sel (VObj []))
       (\<lambda>(fieldValue, st').
          returnR (case fieldValue of None \<Rightarrow> VNull | Some d' \<Rightarrow> VObj d', st'))"
  by simp

lemma passesI: "calls h ctx c c' \<Longrightarrow> propagates c \<Longrightarrow> passes h ctx c c'"
  by (simp add: passes_def)

lemmas call_defs = entityTypename_def entityState_def loopState_def fieldKeyOf_def
  resolverValue_def resolverData_def

text \<open>
  Reads that visit an entity behind a list of links and behind a resolver.
\<close>

lemma list_read:
  "read 12 plain_helpers list_store todos_request None {}
     = Some (Inr \<lparr> res_dependencies = {''Todo:2'', ''Todo:1'', ''Query.todos''},
                   res_partial = False,
                   res_data = VObj [(''__typename'', VStr ''Query''),
                     (''todos'', VArr [VObj [(''__typename'', VStr ''Todo''), (''id'', VStr ''1'')],
                                       VObj [(''__typename'', VStr ''Todo''), (''id'', VStr ''2'')]])] \<rparr>)"
  by (simp add: eval_defs list_store_def todos_request_def todos_field_def id_field_def
        eval_nat_numeral insert_commute)

lemma list_chain:
  "(calls plain_helpers (makeContext list_store todos_request))\<^sup>*\<^sup>*
     (readCall 12 list_store todos_request None {})
     (CallSelection 5 \<lparr>partial = False, dependencies = {''Todo:1'', ''Query.todos''}\<rparr>
        ''Todo:2'' [id_field] (VObj []))"
proof -
  let ?ctx = "makeContext list_store todos_request"
  let ?h = plain_helpers
  let ?st0 = "\<lparr>partial = False, dependencies = {}\<rparr>"
  let ?st1 = "\<lparr>partial = False, dependencies = {''Query.todos''}\<rparr>"
  let ?st2 = "\<lparr>partial = False, dependencies = {''Todo:1'', ''Query.todos''}\<rparr>"
  let ?q = "[(''__typename'', VStr ''Query'')]"
  let ?c0 = "CallSelection 12 ?st0 ''Query'' [todos_field] (VObj [])"
  let ?c1 = "CallLoop 11 ?st0 ''Query'' ''Query'' True (iter_init [todos_field]) ?q False"
  let ?c2 = "CallFieldValue 10 ?st1 ''Query'' ''Query'' todos_field ?q"
  let ?c3 = "CallLink 9 ?st1 (LArr [LKey ''Todo:1'', LKey ''Todo:2'']) [id_field] VUndefined"
  let ?c4 = "CallLinks 8 ?st1 [LKey ''Todo:1'', LKey ''Todo:2''] 0 [id_field] VUndefined"
  let ?c5 = "CallLinks 7 ?st2 [LKey ''Todo:2''] (Suc 0) [id_field] VUndefined"
  let ?c6 = "CallLink 6 ?st2 (LKey ''Todo:2'') [id_field] VUndefined"
  let ?c7 = "CallSelection 5 ?st2 ''Todo:2'' [id_field] (VObj [])"
  have rc: "readCall 12 list_store todos_request None {} = ?c0"
    by (simp add: readCall_def list_store_def mk_store_def getRootKey_def
        default_rootFields_def todos_request_def)
  have 1: "calls ?h ?ctx ?c0 ?c1"
    using calls.selection_loop[of ?h ?ctx "''Query''" "''Query''" "VObj []" "[]" 11 ?st0
        "[todos_field]"]
    by (simp add: call_defs eval_defs list_store_def)
  have 2: "calls ?h ?ctx ?c1 ?c2"
    using calls.loop_field[of ?h ?ctx "''Query''" "''Query''" "iter_init [todos_field]" todos_field
        "[(1, [todos_field])]" 10 ?st0 True ?q False]
    by (simp add: call_defs eval_defs list_store_def todos_field_def id_field_def)
  have 3: "calls ?h ?ctx ?c2 ?c3"
    using calls.field_link[of ?ctx "''Query''" todos_field ?h "''Query''"
        "LArr [LKey ''Todo:1'', LKey ''Todo:2'']" 9 ?st1 ?q]
    by (simp add: call_defs eval_defs list_store_def todos_field_def id_field_def)
  have 4: "calls ?h ?ctx ?c3 ?c4"
    using calls.link_array[of ?h ?ctx 8 ?st1 "[LKey ''Todo:1'', LKey ''Todo:2'']" "[id_field]"
        VUndefined]
    by simp
  have first: "resolveLink 7 ?h ?ctx ?st1 (LKey ''Todo:1'') [id_field] VUndefined
      = Some (Inr (VObj [(''__typename'', VStr ''Todo''), (''id'', VStr ''1'')], ?st2))"
    by (simp add: eval_defs list_store_def todos_request_def id_field_def eval_nat_numeral)
  have 5: "calls ?h ?ctx ?c4 ?c5"
    using calls.links_tail[of VUndefined 0 VUndefined 7 ?h ?ctx ?st1 "LKey ''Todo:1''"
        "[id_field]" _ ?st2 "[LKey ''Todo:2'']", OF _ first]
    by simp
  have 6: "calls ?h ?ctx ?c5 ?c6"
    using calls.links_head[of VUndefined "Suc 0" VUndefined ?h ?ctx 6 ?st2 "LKey ''Todo:2''" "[]"
        "[id_field]"]
    by simp
  have 7: "calls ?h ?ctx ?c6 ?c7"
    using calls.link_entity[of ?h ?ctx 5 ?st2 "''Todo:2''" "[id_field]" VUndefined]
    by (simp add: dataOrNew_def)
  from 1 2 3 4 5 6 7 have "(calls ?h ?ctx)\<^sup>*\<^sup>* ?c0 ?c7"
    by (meson rtranclp.rtrancl_into_rtrancl rtranclp.rtrancl_refl)
  then show ?thesis unfolding rc .
qed

lemma resolver_read:
  "read 9 plain_helpers resolver_store todo_request None {}
     = Some (Inr \<lparr> res_dependencies = {''Todo:9'', ''Query.todo''}, res_partial = False,
                   res_data = VNull \<rparr>)"
  by (simp add: eval_defs resolver_store_def todo_request_def eval_nat_numeral insert_commute)

lemma resolver_chain:
  "(calls plain_helpers (makeContext resolver_store todo_request))\<^sup>*\<^sup>*
     (readCall 9 resolver_store todo_request None {})
     (CallSelection 5 \<lparr>partial = False, dependencies = {''Query.todo''}\<rparr>
        ''Todo:9'' [id_field] (VObj []))"
proof -
  let ?ctx = "makeContext resolver_store todo_request"
  let ?h = plain_helpers
  let ?st0 = "\<lparr>partial = False, dependencies = {}\<rparr>"
  let ?st1 = "\<lparr>partial = False, dependencies = {''Query.todo''}\<rparr>"
  let ?q = "[(''__typename'', VStr ''Query'')]"
  let ?c0 = "CallSelection 9 ?st0 ''Query'' [todo_field] (VObj [])"
  let ?c1 = "CallLoop 8 ?st0 ''Query'' ''Query'' True (iter_init [todo_field]) ?q False"
  let ?c2 = "CallFieldValue 7 ?st1 ''Query'' ''Query'' todo_field ?q"
  let ?c3 = "CallResolverResult 6 ?st1 (VStr ''Todo:9'') ''Query.todo'' [id_field] VUndefined"
  let ?c4 = "CallSelection 5 ?st1 ''Todo:9'' [id_field] (VObj [])"
  have rc: "readCall 9 resolver_store todo_request None {} = ?c0"
    by (simp add: readCall_def resolver_store_def mk_store_def getRootKey_def
        default_rootFields_def todo_request_def todo_field_def id_field_def)
  have 1: "calls ?h ?ctx ?c0 ?c1"
    using calls.selection_loop[of ?h ?ctx "''Query''" "''Query''" "VObj []" "[]" 8 ?st0
        "[todo_field]"]
    by (simp add: call_defs eval_defs resolver_store_def)
  have 2: "calls ?h ?ctx ?c1 ?c2"
    using calls.loop_field[of ?h ?ctx "''Query''" "''Query''" "iter_init [todo_field]" todo_field
        "[(1, [todo_field])]" 7 ?st0 True ?q False]
    by (simp add: call_defs eval_defs resolver_store_def todo_field_def id_field_def)
  have 3: "calls ?h ?ctx ?c2 ?c3"
    using calls.field_resolver[of ?ctx "''Query''" todo_field "\<lambda>parent args. VStr ''Todo:9''"
        ?h "''Query''" ?q 6 ?st1]
    by (simp add: call_defs eval_defs resolver_store_def todo_field_def id_field_def)
  have 4: "calls ?h ?ctx ?c3 ?c4"
    using calls.resolver_entity[of "VStr ''Todo:9''" ?h ?ctx 5 ?st1 "''Query.todo''" "[id_field]"
        VUndefined]
    by (simp add: dataOrNew_def childKeyOf_def)
  from 1 2 3 4 have "(calls ?h ?ctx)\<^sup>*\<^sup>* ?c0 ?c4"
    by (meson rtranclp.rtrancl_into_rtrancl rtranclp.rtrancl_refl)
  then show ?thesis unfolding rc .
qed

text \<open>
  The fields of the data that the loop of \<open>readRoot\<close> returns.
\<close>

lemma readRootLoop_fields:
  assumes "readRootLoop n h ctx st ek stack inp acc = Some (Inr (d', st'))"
  shows "(\<forall>a. (\<exists>nd. iter_yields h ctx (Some ek) ek stack nd \<and> getFieldAlias nd = a) \<and>
              (\<forall>nd. iter_yields h ctx (Some ek) ek stack nd \<and> getFieldAlias nd = a
                 \<longrightarrow> copied inp nd)
            \<longrightarrow> getProp d' a = getProp inp a) \<and>
         (\<forall>a. (\<exists>nd. iter_yields h ctx (Some ek) ek stack nd \<and> getFieldAlias nd = a) \<and>
              (\<forall>nd. iter_yields h ctx (Some ek) ek stack nd \<and> getFieldAlias nd = a
                 \<longrightarrow> \<not> copied inp nd)
            \<longrightarrow> (\<exists>nd k st1 st1'.
                   iter_yields h ctx (Some ek) ek stack nd \<and> getFieldAlias nd = a \<and>
                   readRootField k h ctx st1 (getSelectionSet nd) (getProp inp a)
                     = Some (Inr (getProp d' a, st1')) \<and>
                   dependencies st \<subseteq> dependencies st1 \<and>
                   dependencies st1' \<subseteq> dependencies st'))"
  using assms
proof (induction n arbitrary: st stack acc)
  case 0
  then show ?case by simp
next
  case (Suc n)
  let ?Y = "\<lambda>stack nd. iter_yields h ctx (Some ek) ek stack nd"
  from Suc.prems show ?case
  proof (cases rule: readRootLoop_Suc_cases)
    case (finished stack')
    then have "\<not> ?Y stack nd" for nd by (subst iter_yields_iff) simp
    then show ?thesis by blast
  next
    case (copy nd0 stack')
    let ?a0 = "getFieldAlias nd0"
    have y: "?Y stack nd \<longleftrightarrow> nd = nd0 \<or> ?Y stack' nd" for nd
      using copy(1) by (subst iter_yields_iff) simp
    have yD: "?Y stack nd \<Longrightarrow> nd = nd0 \<or> ?Y stack' nd" for nd using y by simp
    have y0: "?Y stack nd0" using y by simp
    have yI: "?Y stack' nd \<Longrightarrow> ?Y stack nd" for nd using y by simp
    note ih = Suc.IH[OF copy(3)]
    note sh = readRootLoop_shape[OF copy(3)]
    have c: "getProp d' a = getProp inp a"
      if ex: "\<exists>nd. ?Y stack nd \<and> getFieldAlias nd = a"
        and al: "\<forall>nd. ?Y stack nd \<and> getFieldAlias nd = a \<longrightarrow> copied inp nd" for a
    proof (cases "\<exists>nd. ?Y stack' nd \<and> getFieldAlias nd = a")
      case True
      moreover from al yI have "\<forall>nd. ?Y stack' nd \<and> getFieldAlias nd = a \<longrightarrow> copied inp nd"
        by blast
      ultimately show ?thesis using ih by blast
    next
      case False
      with ex yD have a0: "a = ?a0" by blast
      from False sh have "getProp d' a = getProp (setProp acc ?a0 (getProp inp ?a0)) a" by blast
      with a0 show ?thesis by (simp add: getProp_setProp)
    qed
    have d: "\<exists>nd k st1 st1'. ?Y stack nd \<and> getFieldAlias nd = a \<and>
                   readRootField k h ctx st1 (getSelectionSet nd) (getProp inp a)
                     = Some (Inr (getProp d' a, st1')) \<and>
                   dependencies st \<subseteq> dependencies st1 \<and>
                   dependencies st1' \<subseteq> dependencies st'"
      if ex: "\<exists>nd. ?Y stack nd \<and> getFieldAlias nd = a"
        and al: "\<forall>nd. ?Y stack nd \<and> getFieldAlias nd = a \<longrightarrow> \<not> copied inp nd" for a
    proof -
      from al y0 copy(2) have "?a0 \<noteq> a" by blast
      with ex yD have "\<exists>nd. ?Y stack' nd \<and> getFieldAlias nd = a" by blast
      moreover from al yI have "\<forall>nd. ?Y stack' nd \<and> getFieldAlias nd = a \<longrightarrow> \<not> copied inp nd"
        by blast
      ultimately obtain nd k st1 st1' where
        "?Y stack' nd" "getFieldAlias nd = a"
        "readRootField k h ctx st1 (getSelectionSet nd) (getProp inp a)
           = Some (Inr (getProp d' a, st1'))"
        "dependencies st \<subseteq> dependencies st1" "dependencies st1' \<subseteq> dependencies st'"
        using ih by blast
      with yI[of nd] show ?thesis by blast
    qed
    from c d show ?thesis by blast
  next
    case (recurse nd0 stack' v st1)
    let ?a0 = "getFieldAlias nd0"
    have y: "?Y stack nd \<longleftrightarrow> nd = nd0 \<or> ?Y stack' nd" for nd
      using recurse(1) by (subst iter_yields_iff) simp
    have yD: "?Y stack nd \<Longrightarrow> nd = nd0 \<or> ?Y stack' nd" for nd using y by simp
    have y0: "?Y stack nd0" using y by simp
    have yI: "?Y stack' nd \<Longrightarrow> ?Y stack nd" for nd using y by simp
    note ih = Suc.IH[OF recurse(4)]
    note sh = readRootLoop_shape[OF recurse(4)]
    note m1 = readRootField_dependencies_mono[OF recurse(3)]
    note m2 = readRootLoop_dependencies_mono[OF recurse(4)]
    have c: "getProp d' a = getProp inp a"
      if ex: "\<exists>nd. ?Y stack nd \<and> getFieldAlias nd = a"
        and al: "\<forall>nd. ?Y stack nd \<and> getFieldAlias nd = a \<longrightarrow> copied inp nd" for a
    proof -
      from al y0 recurse(2) have "?a0 \<noteq> a" by blast
      with ex yD have "\<exists>nd. ?Y stack' nd \<and> getFieldAlias nd = a" by blast
      moreover from al yI have "\<forall>nd. ?Y stack' nd \<and> getFieldAlias nd = a \<longrightarrow> copied inp nd"
        by blast
      ultimately show ?thesis using ih by blast
    qed
    have d: "\<exists>nd k st1 st1'. ?Y stack nd \<and> getFieldAlias nd = a \<and>
                   readRootField k h ctx st1 (getSelectionSet nd) (getProp inp a)
                     = Some (Inr (getProp d' a, st1')) \<and>
                   dependencies st \<subseteq> dependencies st1 \<and>
                   dependencies st1' \<subseteq> dependencies st'"
      if ex: "\<exists>nd. ?Y stack nd \<and> getFieldAlias nd = a"
        and al: "\<forall>nd. ?Y stack nd \<and> getFieldAlias nd = a \<longrightarrow> \<not> copied inp nd" for a
    proof (cases "\<exists>nd. ?Y stack' nd \<and> getFieldAlias nd = a")
      case True
      moreover from al yI have "\<forall>nd. ?Y stack' nd \<and> getFieldAlias nd = a \<longrightarrow> \<not> copied inp nd"
        by blast
      ultimately obtain nd k s1 s1' where
        r: "?Y stack' nd" "getFieldAlias nd = a"
        "readRootField k h ctx s1 (getSelectionSet nd) (getProp inp a)
           = Some (Inr (getProp d' a, s1'))"
        "dependencies st1 \<subseteq> dependencies s1" "dependencies s1' \<subseteq> dependencies st'"
        using ih by blast
      from r(4) m1 have "dependencies st \<subseteq> dependencies s1" by blast
      with r yI[of nd] show ?thesis by blast
    next
      case False
      with ex yD have a0: "a = ?a0" by blast
      from False sh have "getProp d' a = getProp (setProp acc ?a0 v) a" by blast
      with a0 have "getProp d' a = v" by (simp add: getProp_setProp)
      with recurse(3) a0 m2 y0 show ?thesis by blast
    qed
    from c d show ?thesis by blast
  qed
qed

text \<open>
  The calls from \<open>read\<close> down to the field \<open>id\<close> of \<open>Todo:1\<close>, which is not cached.
\<close>

lemma untyped_id_chain:
  "(passes plain_helpers (makeContext untyped_id_store todo_request))\<^sup>*\<^sup>*
     (readCall 9 untyped_id_store todo_request None {})
     (CallFieldValue 3 \<lparr>partial = False, dependencies = {''Todo:1'', ''Query.todo''}\<rparr>
        ''Todo'' ''Todo:1'' id_field [(''__typename'', VStr ''Todo'')])"
proof -
  let ?ctx = "makeContext untyped_id_store todo_request"
  let ?h = plain_helpers
  let ?st0 = "\<lparr>partial = False, dependencies = {}\<rparr>"
  let ?st1 = "\<lparr>partial = False, dependencies = {''Query.todo''}\<rparr>"
  let ?st2 = "\<lparr>partial = False, dependencies = {''Todo:1'', ''Query.todo''}\<rparr>"
  let ?c0 = "CallSelection 9 ?st0 ''Query'' [todo_field] (VObj [])"
  let ?c1 = "CallLoop 8 ?st0 ''Query'' ''Query'' True (iter_init [todo_field])
               [(''__typename'', VStr ''Query'')] False"
  let ?c2 = "CallFieldValue 7 ?st1 ''Query'' ''Query'' todo_field [(''__typename'', VStr ''Query'')]"
  let ?c3 = "CallLink 6 ?st1 (LKey ''Todo:1'') [id_field] VUndefined"
  let ?c4 = "CallSelection 5 ?st1 ''Todo:1'' [id_field] (VObj [])"
  let ?c5 = "CallLoop 4 ?st2 ''Todo'' ''Todo:1'' False (iter_init [id_field])
               [(''__typename'', VStr ''Todo'')] False"
  let ?c6 = "CallFieldValue 3 ?st2 ''Todo'' ''Todo:1'' id_field [(''__typename'', VStr ''Todo'')]"
  have rc: "readCall 9 untyped_id_store todo_request None {} = ?c0"
    by (simp add: readCall_def untyped_id_store_def mk_store_def getRootKey_def
        default_rootFields_def todo_request_def todo_field_def id_field_def)
  have 1: "passes ?h ?ctx ?c0 ?c1"
    using calls.selection_loop[of ?h ?ctx "''Query''" "''Query''" "VObj []" "[]" 8 ?st0
        "[todo_field]"]
    by (simp add: passes_def call_defs eval_defs untyped_id_store_def)
  have 2: "passes ?h ?ctx ?c1 ?c2"
    using calls.loop_field[of ?h ?ctx "''Query''" "''Query''" "iter_init [todo_field]" todo_field
        "[(1, [todo_field])]" 7 ?st0 True "[(''__typename'', VStr ''Query'')]" False]
    by (simp add: passes_def call_defs eval_defs untyped_id_store_def todo_field_def id_field_def)
  have 3: "passes ?h ?ctx ?c2 ?c3"
    using calls.field_link[of ?ctx "''Query''" todo_field ?h "''Query''" "LKey ''Todo:1''" 6 ?st1
        "[(''__typename'', VStr ''Query'')]"]
    by (simp add: passes_def call_defs eval_defs untyped_id_store_def todo_field_def id_field_def)
  have 4: "passes ?h ?ctx ?c3 ?c4"
    using calls.link_entity[of ?h ?ctx 5 ?st1 "''Todo:1''" "[id_field]" VUndefined]
    by (simp add: passes_def dataOrNew_def)
  have 5: "passes ?h ?ctx ?c4 ?c5"
    using calls.selection_loop[of ?h ?ctx "''Todo:1''" "''Todo''" "VObj []" "[]" 4 ?st1
        "[id_field]"]
    by (simp add: passes_def call_defs eval_defs untyped_id_store_def insert_commute)
  have 6: "passes ?h ?ctx ?c5 ?c6"
    using calls.loop_field[of ?h ?ctx "''Todo''" "''Todo:1''" "iter_init [id_field]" id_field
        "[(1, [id_field])]" 3 ?st2 False "[(''__typename'', VStr ''Todo'')]" False]
    by (simp add: passes_def call_defs eval_defs untyped_id_store_def id_field_def)
  from 1 2 3 4 5 6 have "(passes ?h ?ctx)\<^sup>*\<^sup>* ?c0 ?c6"
    by (meson rtranclp.rtrancl_into_rtrancl rtranclp.rtrancl_refl)
  then show ?thesis unfolding rc .
qed

text \<open>
  The elements of the list that \<open>readRootField\<close> returns for an array.
\<close>

lemma readRootFields_elements:
  assumes "readRootFields n h ctx st sel xs = Some (Inr (vs, st'))"
  shows "length vs = length xs \<and>
      (\<forall>i<length xs. \<exists>k st1 st1'.
         readRootField k h ctx st1 sel (xs ! i) = Some (Inr (vs ! i, st1')) \<and>
         dependencies st \<subseteq> dependencies st1 \<and> dependencies st1' \<subseteq> dependencies st')"
  using assms
proof (induction xs arbitrary: n st vs)
  case Nil
  then show ?case by (cases n) auto
next
  case (Cons x xs)
  from Cons.prems obtain m where n: "n = Suc m" by (cases n) auto
  from Cons.prems[unfolded n] obtain v st1 ws where
    f: "readRootField m h ctx st sel x = Some (Inr (v, st1))"
    and r: "readRootFields m h ctx st1 sel xs = Some (Inr (ws, st'))"
    and vs: "vs = v # ws"
    by (rule readRootFields_Cons_SomeE)
  note ih = Cons.IH[OF r]
  from readRootField_dependencies_mono[OF f] have m1: "dependencies st \<subseteq> dependencies st1" .
  from readRootFields_dependencies_mono[OF r] have m2: "dependencies st1 \<subseteq> dependencies st'" .
  show ?case
  proof (intro conjI allI impI)
    show "length vs = length (x # xs)" using ih vs by simp
    fix i assume i: "i < length (x # xs)"
    show "\<exists>k st1 st1'.
         readRootField k h ctx st1 sel ((x # xs) ! i) = Some (Inr (vs ! i, st1')) \<and>
         dependencies st \<subseteq> dependencies st1 \<and> dependencies st1' \<subseteq> dependencies st'"
    proof (cases i)
      case 0
      with f m2 vs show ?thesis by auto
    next
      case (Suc j)
      with i have "j < length xs" by simp
      with ih obtain k sa sb where
        "readRootField k h ctx sa sel (xs ! j) = Some (Inr (ws ! j, sb))"
        "dependencies st1 \<subseteq> dependencies sa" "dependencies sb \<subseteq> dependencies st'"
        by blast
      moreover from this m1 have "dependencies st \<subseteq> dependencies sa" by blast
      ultimately show ?thesis unfolding Suc vs by (intro exI[of _ k] exI[of _ sa] exI[of _ sb]) simp
    qed
  qed
qed

section \<open>The fragment heuristic\<close>

lemma list_ex_fieldMissing:
  "list_ex (fieldMissing h ctx entityKey) sel \<longleftrightarrow>
     (\<exists>nd\<in>set sel. isFieldNode nd \<and>
        \<not> hasField (ctx_store ctx)
            (joinKeys entityKey
               (keyOfField h (getName nd) (getFieldArguments h nd (ctx_variables ctx)))))"
  by (auto simp: list_ex_iff fieldMissing_def Let_def)

text \<open>
  C8, as the spec states it: without a schema oracle a fragment matches iff the typename
  equals the type condition or every field of the fragment's selection set is in the
  store under the entity key. The code first returns \<open>false\<close> when the typename is
  \<open>undefined\<close> (or empty): with no typename, \<open>... on Todo { id }\<close> does not match the
  entity \<open>Todo:1\<close> although its \<open>id\<close> is in the store.
\<close>

theorem heuristic_no_typename_counterexample:
  "\<not> (isMatching plain_helpers (mk_context todo_store []) None ''Todo:1'' todo_fragment \<longleftrightarrow>
        ((\<exists>t. None = Some t \<and> getTypeCondition todo_fragment = Some t) \<or>
         (\<forall>nd\<in>set (getSelectionSet todo_fragment). isFieldNode nd \<longrightarrow>
            hasField todo_store
              (joinKeys ''Todo:1''
                 (keyOfField plain_helpers (getName nd)
                    (getFieldArguments plain_helpers nd Map.empty))))))"
  by (simp add: isMatching_def isFragmentHeuristicallyMatching_def mk_context_def
      todo_store_def mk_store_def todo_fragment_def plain_helpers_def hasField_def
      getRecord_def joinKeys_def)

text \<open>
  C8, amended: without a schema oracle the iterator's test \<open>isMatching\<close> holds iff the
  typename is a non-empty string and either it equals the fragment's type condition or
  every field node of the fragment's selection set has \<open>hasField\<close> on
  \<open>joinKeys(entityKey, fieldKey)\<close>.
\<close>

theorem heuristic_matching_iff:
  assumes "ctx_schemaPredicates ctx = None"
  shows "isMatching h ctx typename entityKey fragmentNode \<longleftrightarrow>
     (\<exists>t. typename = Some t \<and> t \<noteq> [] \<and>
        (getTypeCondition fragmentNode = Some t \<or>
         (\<forall>nd\<in>set (getSelectionSet fragmentNode). isFieldNode nd \<longrightarrow>
            hasField (ctx_store ctx)
              (joinKeys entityKey
                 (keyOfField h (getName nd)
                    (getFieldArguments h nd (ctx_variables ctx)))))))"
proof (cases typename)
  case None
  with assms show ?thesis
    by (simp add: isMatching_def isFragmentHeuristicallyMatching_def)
next
  case (Some t)
  with assms show ?thesis
    by (auto simp: isMatching_def isFragmentHeuristicallyMatching_def list_ex_fieldMissing)
qed

theorem heuristic_matching_iff_witness:
  "ctx_schemaPredicates (mk_context todo_store []) = None \<and>
   isMatching plain_helpers (mk_context todo_store []) (Some ''Node'') ''Todo:1'' todo_fragment \<and>
   \<not> isMatching plain_helpers (mk_context todo_store []) (Some ''Node'') ''Todo:2'' todo_fragment"
proof -
  have n: "ctx_schemaPredicates (mk_context todo_store []) = None"
    by (simp add: mk_context_def todo_store_def mk_store_def)
  show ?thesis
    using n heuristic_matching_iff [OF n, of plain_helpers "Some ''Node''" "''Todo:1''" todo_fragment]
      heuristic_matching_iff [OF n, of plain_helpers "Some ''Node''" "''Todo:2''" todo_fragment]
    by (simp add: mk_context_def todo_store_def mk_store_def todo_fragment_def
        plain_helpers_def hasField_def getRecord_def getLink_def joinKeys_def)
qed

section \<open>Partial results with a schema oracle\<close>

text \<open>
  C1: with a schema oracle an uncached nullable field is emitted as \<open>null\<close> with
  \<open>partial\<close> raised, an uncached non-nullable field makes \<open>readSelection\<close> return
  \<open>undefined\<close>, and a cached field is emitted with its cached value. The code does not do
  the last: under \<open>schemaPredicates !== undefined\<close> every field that is not both uncached
  and nullable takes the branch \<open>return undefined\<close>, a cached one included. The query
  \<open>{ int }\<close> over a store with a schema oracle and \<open>Query.int = 42\<close> cached reads \<open>null\<close>.
\<close>

theorem schema_cached_field_poisons:
  "query 5 plain_helpers (int_store (Some all_nullable)) int_request None
     = Some (Inr \<lparr> res_dependencies = {''Query.int''}, res_partial = False, res_data = VNull \<rparr>)"
  by (simp add: eval_defs int_store_def int_request_def all_nullable_def eval_nat_numeral)

text \<open>Without the oracle the same read emits the cached value.\<close>

lemma no_schema_cached_field_emitted:
  "query 5 plain_helpers (int_store None) int_request None
     = Some (Inr \<lparr> res_dependencies = {''Query.int''}, res_partial = False,
          res_data = VObj [(''__typename'', VStr ''Query''), (''int'', VNum 42)] \<rparr>)"
  by (simp add: eval_defs int_store_def int_request_def eval_nat_numeral)

text \<open>
  In general: with a schema oracle, a field whose value is not \<open>undefined\<close> ends the loop
  of \<open>readSelection\<close> with \<open>undefined\<close>.
\<close>

lemma readLoop_schema_value_poisons:
  assumes "ctx_schemaPredicates ctx = Some sp"
    and "iter_next h ctx (Some tn) ek stack = Some (Some nd, stack')"
    and "readFieldValue n h ctx (loopState h ctx ek q nd st) tn ek nd d = Some (Inr (v, d1, st2))"
    and "v \<noteq> VUndefined"
  shows "readLoop (Suc n) h ctx st tn ek q stack d hf = Some (Inr (None, st2))"
  unfolding readLoop_Suc_node[OF assms(2)] using assms(1,3,4) by simp

section \<open>Cache misses without a schema oracle\<close>

text \<open>
  C3: without a schema oracle a field that is missing from the cache (no resolver, no
  record and, if it has a selection set, no link) has the field value \<open>undefined\<close>, a
  return and not an exception, and a read of a selection that yields it returns
  \<open>undefined\<close> if it returns at all. An \<open>undefined\<close> is handed up with its state by
  every caller that is not a loop over a list (\<open>readSelection\<close>, its loop, the field
  of the loop, \<open>resolveLink\<close> and \<open>resolveResolverResult\<close> on an entity), however deep
  the call that returns it, so the entities on the way are missing; when the call is
  reached from the first call of \<open>read\<close> through such callers, \<open>read\<close> returns
  \<open>data: null\<close>, \<open>partial: false\<close>. In the root-merge read \<open>readRootField\<close> makes the
  \<open>undefined\<close> of an entity \<open>null\<close>. A list of links or of resolver results keeps an
  \<open>undefined\<close> element and is returned.
\<close>

theorem cache_miss_without_schema:
  assumes "ctx_schemaPredicates ctx = None"
  shows
    "(uncached h ctx tn ek nd \<longrightarrow>
        resultOf h ctx (CallFieldValue (Suc n) st tn ek nd d) = Some (Inr (VUndefined, st))) \<and>
     (uncached h ctx tn ek nd \<and> stringOf (entityTypename h ctx ek) = Some tn \<and>
      iter_yields h ctx (Some tn) ek (iter_init sel) nd \<and>
      readSelection m h ctx st1 ek sel data = Some (Inr (r, st1')) \<longrightarrow> r = None) \<and>
     ((passes h ctx)\<^sup>*\<^sup>* c0 c \<and> resultOf h ctx c = Some (Inr (VUndefined, s1)) \<longrightarrow>
        resultOf h ctx c0 = Some (Inr (VUndefined, s1))) \<and>
     (ctx = makeContext s req \<and>
      (passes h ctx)\<^sup>*\<^sup>* (readCall fuel s req None deps) c \<and>
      resultOf h ctx c = Some (Inr (VUndefined, s1)) \<longrightarrow>
        read fuel h s req None deps
          = Some (Inr \<lparr> res_dependencies = dependencies s1, res_partial = False,
                        res_data = VNull \<rparr>)) \<and>
     (keyOfEntity (ctx_store ctx) d0 = Some k \<and>
      resultOf h ctx (CallSelection m st2 k sel2 (VObj [])) = Some (Inr (VUndefined, s2)) \<longrightarrow>
        readRootField (Suc m) h ctx st2 sel2 (VObj d0) = Some (Inr (VNull, s2))) \<and>
     (prevDataAt prev i = Some (Inr pd) \<and>
      resolveLink m h ctx st3 l sel3 pd = Some (Inr (VUndefined, s3)) \<and>
      resolveLinks m h ctx s3 ls (Suc i) sel3 prev = Some (Inr (vs, s4)) \<longrightarrow>
        resolveLinks (Suc m) h ctx st3 (l # ls) i sel3 prev = Some (Inr (VUndefined # vs, s4))) \<and>
     (prevDataAt prev i = Some (Inr pd) \<and>
      resolveResolverResult m h ctx st3 rv (joinKeys key (show_nat i)) sel3 pd
        = Some (Inr (VUndefined, s3)) \<and>
      resolveResolverResults m h ctx s3 rs (Suc i) key sel3 prev = Some (Inr (vs, s4)) \<longrightarrow>
        resolveResolverResults (Suc m) h ctx st3 (rv # rs) i key sel3 prev
          = Some (Inr (VUndefined # vs, s4)))"
proof (intro conjI impI)
  assume "uncached h ctx tn ek nd"
  from readFieldValue_uncached[OF this]
  show "resultOf h ctx (CallFieldValue (Suc n) st tn ek nd d) = Some (Inr (VUndefined, st))"
    unfolding resultOf_FieldValue by blast
next
  assume "uncached h ctx tn ek nd \<and> stringOf (entityTypename h ctx ek) = Some tn \<and>
      iter_yields h ctx (Some tn) ek (iter_init sel) nd \<and>
      readSelection m h ctx st1 ek sel data = Some (Inr (r, st1'))"
  then show "r = None"
    using readSelection_uncached_undefined[OF assms] by blast
next
  assume "(passes h ctx)\<^sup>*\<^sup>* c0 c \<and> resultOf h ctx c = Some (Inr (VUndefined, s1))"
  then show "resultOf h ctx c0 = Some (Inr (VUndefined, s1))"
    using passes_star_undefined[OF assms] by blast
next
  assume a: "ctx = makeContext s req \<and>
      (passes h ctx)\<^sup>*\<^sup>* (readCall fuel s req None deps) c \<and>
      resultOf h ctx c = Some (Inr (VUndefined, s1))"
  then have "resultOf h ctx (readCall fuel s req None deps) = Some (Inr (VUndefined, s1))"
    using passes_star_undefined[OF assms] by blast
  with a have "readSelection fuel h (makeContext s req) \<lparr>partial = False, dependencies = deps\<rparr>
        (getRootKey s (req_operation req)) (req_selectionSet req) (VObj [])
        = Some (Inr (None, s1))"
    by (auto simp: readCall_def resultOf_Selection)
  then show "read fuel h s req None deps
          = Some (Inr \<lparr> res_dependencies = dependencies s1, res_partial = False,
                        res_data = VNull \<rparr>)"
    by (rule read_undefined)
next
  assume "keyOfEntity (ctx_store ctx) d0 = Some k \<and>
      resultOf h ctx (CallSelection m st2 k sel2 (VObj [])) = Some (Inr (VUndefined, s2))"
  then show "readRootField (Suc m) h ctx st2 sel2 (VObj d0) = Some (Inr (VNull, s2))"
    by (auto simp: resultOf_Selection readRootField_entity simp del: readRootField.simps)
next
  assume "prevDataAt prev i = Some (Inr pd) \<and>
      resolveLink m h ctx st3 l sel3 pd = Some (Inr (VUndefined, s3)) \<and>
      resolveLinks m h ctx s3 ls (Suc i) sel3 prev = Some (Inr (vs, s4))"
  then show "resolveLinks (Suc m) h ctx st3 (l # ls) i sel3 prev
      = Some (Inr (VUndefined # vs, s4))"
    by simp
next
  assume "prevDataAt prev i = Some (Inr pd) \<and>
      resolveResolverResult m h ctx st3 rv (joinKeys key (show_nat i)) sel3 pd
        = Some (Inr (VUndefined, s3)) \<and>
      resolveResolverResults m h ctx s3 rs (Suc i) key sel3 prev = Some (Inr (vs, s4))"
  then show "resolveResolverResults (Suc m) h ctx st3 (rv # rs) i key sel3 prev
          = Some (Inr (VUndefined # vs, s4))"
    by simp
qed

theorem cache_miss_without_schema_witness:
  "ctx_schemaPredicates (makeContext untyped_id_store todo_request) = None \<and>
   uncached plain_helpers (makeContext untyped_id_store todo_request) ''Todo'' ''Todo:1'' id_field \<and>
   (passes plain_helpers (makeContext untyped_id_store todo_request))\<^sup>*\<^sup>*
     (readCall 9 untyped_id_store todo_request None {})
     (CallFieldValue 3 \<lparr>partial = False, dependencies = {''Todo:1'', ''Query.todo''}\<rparr>
        ''Todo'' ''Todo:1'' id_field [(''__typename'', VStr ''Todo'')]) \<and>
   resultOf plain_helpers (makeContext untyped_id_store todo_request)
     (CallFieldValue 3 \<lparr>partial = False, dependencies = {''Todo:1'', ''Query.todo''}\<rparr>
        ''Todo'' ''Todo:1'' id_field [(''__typename'', VStr ''Todo'')])
     = Some (Inr (VUndefined, \<lparr>partial = False, dependencies = {''Todo:1'', ''Query.todo''}\<rparr>)) \<and>
   read 9 plain_helpers untyped_id_store todo_request None {}
     = Some (Inr \<lparr> res_dependencies = {''Todo:1'', ''Query.todo''}, res_partial = False,
                   res_data = VNull \<rparr>)"
proof -
  let ?ctx = "makeContext untyped_id_store todo_request"
  let ?st2 = "\<lparr>partial = False, dependencies = {''Todo:1'', ''Query.todo''}\<rparr>"
  let ?c6 = "CallFieldValue 3 ?st2 ''Todo'' ''Todo:1'' id_field [(''__typename'', VStr ''Todo'')]"
  have ns: "ctx_schemaPredicates ?ctx = None"
    by (simp add: makeContext_def untyped_id_store_def mk_store_def)
  have un: "uncached plain_helpers ?ctx ''Todo'' ''Todo:1'' id_field"
    by (simp add: uncached_def makeContext_def untyped_id_store_def mk_store_def id_field_def
        fieldKeyOf_def getRecord_def plain_helpers_def joinKeys_def)
  note inst = cache_miss_without_schema[OF ns, where h = plain_helpers and tn = "''Todo''"
      and ek = "''Todo:1''" and nd = id_field and n = 2 and st = ?st2
      and d = "[(''__typename'', VStr ''Todo'')]" and c = ?c6 and ?s1.0 = ?st2
      and s = untyped_id_store and req = todo_request and fuel = 9 and deps = "{}"]
  from inst[THEN conjunct1] un
  have r6: "resultOf plain_helpers ?ctx ?c6 = Some (Inr (VUndefined, ?st2))" by simp
  have "read 9 plain_helpers untyped_id_store todo_request None {}
     = Some (Inr \<lparr> res_dependencies = dependencies ?st2, res_partial = False,
                   res_data = VNull \<rparr>)"
    by (rule mp[OF inst[THEN conjunct2, THEN conjunct2, THEN conjunct2, THEN conjunct1]])
       (intro conjI refl untyped_id_chain r6)
  with ns un untyped_id_chain r6 show ?thesis by simp
qed

section \<open>Dependencies of a read\<close>

text \<open>
  C10: \<open>readSelection\<close> adds the key of a non-root entity to the dependencies before it
  looks for the entity's \<open>__typename\<close>: when that record is absent it returns
  \<open>undefined\<close> with the key added, and a read whose first root field links to such an
  entity has the key in the dependency set it returns. So has every read that returns
  and reaches a call of \<open>readSelection\<close> on the entity, through links, lists, resolvers
  or the fields of prior data.
\<close>

theorem absent_entity_is_dependency:
  assumes nr: "entityKey \<noteq> getRootKey (ctx_store ctx) OpQuery"
    and abs: "\<not> isString (getField h (ctx_store ctx) entityKey ''__typename'')"
  shows
    "readSelection (Suc n) h ctx st entityKey select data
       = Some (Inr (None, addDependency entityKey st)) \<and>
     entityKey \<in> dependencies (addDependency entityKey st) \<and>
     (ctx = makeContext s req \<and>
      stringOf (entityTypename h ctx (getRootKey s (req_operation req))) = Some tn \<and>
      iter_next h ctx (Some tn) (getRootKey s (req_operation req))
        (iter_init (req_selectionSet req)) = Some (Some nd, stack') \<and>
      resolvers s tn (getName nd) = None \<and> hasSelectionSet nd \<and>
      getLink s (fieldKeyOf h ctx (getRootKey s (req_operation req)) nd) = Some (LKey entityKey) \<and>
      read fuel h s req None deps = Some (Inr res)
      \<longrightarrow> entityKey \<in> res_dependencies res) \<and>
     (ctx = makeContext s req \<and> read fuel h s req input deps = Some (Inr res) \<and>
      (calls h ctx)\<^sup>*\<^sup>* (readCall fuel s req input deps)
        (CallSelection k st4 entityKey sel4 data4)
      \<longrightarrow> entityKey \<in> res_dependencies res)"
proof (intro conjI impI)
  show "readSelection (Suc n) h ctx st entityKey select data
       = Some (Inr (None, addDependency entityKey st))"
    by (rule readSelection_absent[OF nr abs])
  show "entityKey \<in> dependencies (addDependency entityKey st)"
    by (simp add: addDependency_def)
next
  let ?root = "getRootKey s (req_operation req)"
  assume a: "ctx = makeContext s req \<and>
      stringOf (entityTypename h ctx ?root) = Some tn \<and>
      iter_next h ctx (Some tn) ?root (iter_init (req_selectionSet req)) = Some (Some nd, stack') \<and>
      resolvers s tn (getName nd) = None \<and> hasSelectionSet nd \<and>
      getLink s (fieldKeyOf h ctx ?root nd) = Some (LKey entityKey) \<and>
      read fuel h s req None deps = Some (Inr res)"
  then have ctx: "ctx = makeContext s req" and s: "ctx_store ctx = s"
    by (simp_all add: makeContext_def)
  from a have tn: "stringOf (entityTypename h ctx ?root) = Some tn" by blast
  from a have it: "iter_next h ctx (Some tn) ?root (iter_init (req_selectionSet req))
      = Some (Some nd, stack')" by blast
  from a s have nores: "resolvers (ctx_store ctx) tn (getName nd) = None"
    and sel: "hasSelectionSet nd"
    and link: "getLink (ctx_store ctx) (fieldKeyOf h ctx ?root nd) = Some (LKey entityKey)"
    by auto
  from a have rd: "read fuel h s req None deps = Some (Inr res)" by blast
  from rd[unfolded read_no_input] obtain x where
    rs: "readSelection fuel h (makeContext s req) \<lparr>partial = False, dependencies = deps\<rparr>
           ?root (req_selectionSet req) (VObj []) = Some (Inr x)"
    and k: "(case x of (data, st') \<Rightarrow>
          returnR \<lparr> res_dependencies = dependencies st',
                    res_partial = (case data of None \<Rightarrow> False | Some d \<Rightarrow> partial st'),
                    res_data = (case data of None \<Rightarrow> VNull | Some d \<Rightarrow> VObj d) \<rparr>)
          = Some (Inr res)"
    by (rule bindR_SomeInrE)
  obtain dat st' where x: "x = (dat, st')" by (cases x)
  from k[unfolded x] have res: "res_dependencies res = dependencies st'" by auto
  from rs obtain f where fuel: "fuel = Suc f" using Suc_of_Some(1) by blast
  from rs[unfolded fuel x, folded ctx, unfolded readSelection_Suc tn option.case]
  obtain d0 where "readLoop f h ctx (entityState ctx ?root \<lparr>partial = False, dependencies = deps\<rparr>)
        tn ?root (?root = getRootKey (ctx_store ctx) OpQuery) (iter_init (req_selectionSet req))
        (setProp d0 ''__typename'' (VStr tn)) False = Some (Inr (dat, st'))"
    by (rule bindR_SomeInrE)
  from readLoop_absent_link[OF it nores sel link nr abs this] res
  show "entityKey \<in> res_dependencies res" by simp
next
  assume a: "ctx = makeContext s req \<and> read fuel h s req input deps = Some (Inr res) \<and>
      (calls h ctx)\<^sup>*\<^sup>* (readCall fuel s req input deps)
        (CallSelection k st4 entityKey sel4 data4)"
  with nr have "entityKey \<noteq> getRootKey s OpQuery" by (simp add: makeContext_def)
  with a show "entityKey \<in> res_dependencies res"
    using visited_entity_dependency by blast
qed

theorem absent_entity_is_dependency_witness:
  "''Todo:9'' \<noteq> getRootKey (ctx_store (makeContext resolver_store todo_request)) OpQuery \<and>
   \<not> isString (getField plain_helpers (ctx_store (makeContext resolver_store todo_request))
                 ''Todo:9'' ''__typename'') \<and>
   readSelection 5 plain_helpers (makeContext resolver_store todo_request)
       \<lparr>partial = False, dependencies = {''Query.todo''}\<rparr> ''Todo:9'' [id_field] (VObj [])
     = Some (Inr (None, \<lparr>partial = False, dependencies = {''Todo:9'', ''Query.todo''}\<rparr>)) \<and>
   (calls plain_helpers (makeContext resolver_store todo_request))\<^sup>*\<^sup>*
     (readCall 9 resolver_store todo_request None {})
     (CallSelection 5 \<lparr>partial = False, dependencies = {''Query.todo''}\<rparr>
        ''Todo:9'' [id_field] (VObj [])) \<and>
   read 9 plain_helpers resolver_store todo_request None {}
     = Some (Inr \<lparr> res_dependencies = {''Todo:9'', ''Query.todo''}, res_partial = False,
                   res_data = VNull \<rparr>) \<and>
   ''Todo:9'' \<in> {''Todo:9'', ''Query.todo''}"
proof -
  let ?ctx = "makeContext resolver_store todo_request"
  let ?st1 = "\<lparr>partial = False, dependencies = {''Query.todo''}\<rparr>"
  let ?res = "\<lparr> res_dependencies = {''Todo:9'', ''Query.todo''}, res_partial = False,
                   res_data = VNull \<rparr>"
  have a: "''Todo:9'' \<noteq> getRootKey (ctx_store ?ctx) OpQuery"
    by (simp add: makeContext_def resolver_store_def mk_store_def getRootKey_def
        default_rootFields_def)
  have b: "\<not> isString (getField plain_helpers (ctx_store ?ctx) ''Todo:9'' ''__typename'')"
    by (simp add: makeContext_def resolver_store_def mk_store_def getField_def getRecord_def)
  note inst = absent_entity_is_dependency[OF a b, where n = 4 and st = ?st1
      and select = "[id_field]" and data = "VObj []" and s = resolver_store
      and req = todo_request and input = None and deps = "{}" and fuel = 9 and res = ?res
      and k = 5 and ?st4.0 = ?st1 and ?sel4.0 = "[id_field]" and ?data4.0 = "VObj []"]
  from inst[THEN conjunct1]
  have c: "readSelection 5 plain_helpers ?ctx ?st1 ''Todo:9'' [id_field] (VObj [])
     = Some (Inr (None, \<lparr>partial = False, dependencies = {''Todo:9'', ''Query.todo''}\<rparr>))"
    by (simp add: addDependency_def)
  have d: "''Todo:9'' \<in> res_dependencies ?res"
    by (rule mp[OF inst[THEN conjunct2, THEN conjunct2, THEN conjunct2]])
       (intro conjI refl resolver_read resolver_chain)
  from a b c d resolver_read resolver_chain show ?thesis by simp
qed

text \<open>
  C4: what a read touches is in the dependency set it returns. No function of the read
  path removes a dependency; \<open>readSelection\<close> of a non-root entity adds the entity key,
  whatever it returns; on the root every field node the loop takes from the iterator has
  its full field key added (\<open>fieldKeyOf\<close>, that is \<open>joinKeys\<close> of the root key and the
  field's key), so a read of the root that returns data has the key of every field node
  of the selection; and \<open>read\<close> returns the set of the final state. For a read that
  returns, with or without prior data: the key of every non-root entity on which a call
  of \<open>readSelection\<close> is reached from the first call of \<open>read\<close>, and the full field key
  of every field node that a loop on the root takes from its iterator in such a call,
  are in the set that \<open>read\<close> returns.
\<close>

theorem dependency_completeness:
  "(readSelection n h ctx st ek sel data = Some (Inr (r, st')) \<longrightarrow>
      dependencies st \<subseteq> dependencies st' \<and>
      (ek \<noteq> getRootKey (ctx_store ctx) OpQuery \<longrightarrow> ek \<in> dependencies st') \<and>
      (ek = getRootKey (ctx_store ctx) OpQuery \<longrightarrow>
         (\<forall>nd stack'. iter_next h ctx (Some ek) ek (iter_init sel) = Some (Some nd, stack')
            \<longrightarrow> fieldKeyOf h ctx ek nd \<in> dependencies st') \<and>
         (r \<noteq> None \<longrightarrow>
            (\<forall>nd. iter_yields h ctx (Some ek) ek (iter_init sel) nd
               \<longrightarrow> fieldKeyOf h ctx ek nd \<in> dependencies st')))) \<and>
   (readLoop m h ctx st2 tn ek2 True stack d hf = Some (Inr (r2, st2')) \<longrightarrow>
      dependencies st2 \<subseteq> dependencies st2' \<and>
      (\<forall>nd stack'. iter_next h ctx (Some tn) ek2 stack = Some (Some nd, stack')
         \<longrightarrow> fieldKeyOf h ctx ek2 nd \<in> dependencies st2')) \<and>
   (read fuel h s req None deps = Some (Inr res) \<longrightarrow>
      deps \<subseteq> res_dependencies res \<and>
      (\<exists>dat st3.
         readSelection fuel h (makeContext s req) \<lparr>partial = False, dependencies = deps\<rparr>
           (getRootKey s (req_operation req)) (req_selectionSet req) (VObj [])
           = Some (Inr (dat, st3)) \<and>
         res_dependencies res = dependencies st3)) \<and>
   (read fuel h s req input deps = Some (Inr res) \<and>
    (calls h (makeContext s req))\<^sup>*\<^sup>* (readCall fuel s req input deps)
      (CallSelection k st4 ek4 sel4 data4) \<and>
    ek4 \<noteq> getRootKey s OpQuery \<longrightarrow> ek4 \<in> res_dependencies res) \<and>
   (read fuel h s req input deps = Some (Inr res) \<and>
    (calls h (makeContext s req))\<^sup>*\<^sup>* (readCall fuel s req input deps)
      (CallLoop k5 st5 tn5 ek5 q5 stack5 d5 hf5) \<and>
    ek5 = getRootKey s OpQuery \<and>
    iter_next h (makeContext s req) (Some tn5) ek5 stack5 = Some (Some nd5, stack5')
    \<longrightarrow> fieldKeyOf h (makeContext s req) ek5 nd5 \<in> res_dependencies res)"
proof (intro conjI impI allI)
  assume rs: "readSelection n h ctx st ek sel data = Some (Inr (r, st'))"
  show "dependencies st \<subseteq> dependencies st'"
    by (rule readSelection_dependencies_mono[OF rs])
  {
    assume nr: "ek \<noteq> getRootKey (ctx_store ctx) OpQuery"
    from rs show "ek \<in> dependencies st'"
    proof (cases rule: readSelection_loop)
      case absent
      with nr show ?thesis by (simp add: entityState_def addDependency_def)
    next
      case (loop m tn d0)
      from readLoop_dependencies_mono[OF loop(4)] nr show ?thesis
        by (auto simp: entityState_def addDependency_def)
    qed
  }
  {
    fix nd stack'
    assume root: "ek = getRootKey (ctx_store ctx) OpQuery"
      and it: "iter_next h ctx (Some ek) ek (iter_init sel) = Some (Some nd, stack')"
    from rs show "fieldKeyOf h ctx ek nd \<in> dependencies st'"
    proof (cases rule: readSelection_loop)
      case absent
      with entityTypename_root[OF root, of h] show ?thesis by simp
    next
      case (loop m tn d0)
      with entityTypename_root[OF root, of h] have tn: "tn = ek" by simp
      from loop(4)[unfolded tn] root have
        "readLoop m h ctx (entityState ctx ek st) ek ek True (iter_init sel)
           (setProp d0 ''__typename'' (VStr ek)) False = Some (Inr (r, st'))" by simp
      from readLoop_first_key[OF it this] show ?thesis .
    qed
  }
  {
    fix nd
    assume root: "ek = getRootKey (ctx_store ctx) OpQuery" and r: "r \<noteq> None"
      and y: "iter_yields h ctx (Some ek) ek (iter_init sel) nd"
    from r obtain d' where r': "r = Some d'" by blast
    from rs show "fieldKeyOf h ctx ek nd \<in> dependencies st'"
    proof (cases rule: readSelection_loop)
      case absent
      with r show ?thesis by simp
    next
      case (loop m tn d0)
      with entityTypename_root[OF root, of h] have tn: "tn = ek" by simp
      from loop(4)[unfolded tn r'] root have
        "readLoop m h ctx (entityState ctx ek st) ek ek True (iter_init sel)
           (setProp d0 ''__typename'' (VStr ek)) False = Some (Inr (Some d', st'))" by simp
      from readLoop_yields_key[OF y this] show ?thesis .
    qed
  }
next
  assume rl: "readLoop m h ctx st2 tn ek2 True stack d hf = Some (Inr (r2, st2'))"
  show "dependencies st2 \<subseteq> dependencies st2'"
    by (rule readLoop_dependencies_mono[OF rl])
  fix nd stack'
  assume "iter_next h ctx (Some tn) ek2 stack = Some (Some nd, stack')"
  from readLoop_first_key[OF this rl] show "fieldKeyOf h ctx ek2 nd \<in> dependencies st2'" .
next
  assume rd: "read fuel h s req None deps = Some (Inr res)"
  from rd[unfolded read_no_input] obtain x where
    rs: "readSelection fuel h (makeContext s req) \<lparr>partial = False, dependencies = deps\<rparr>
           (getRootKey s (req_operation req)) (req_selectionSet req) (VObj []) = Some (Inr x)"
    and k: "(case x of (data, st') \<Rightarrow>
          returnR \<lparr> res_dependencies = dependencies st',
                    res_partial = (case data of None \<Rightarrow> False | Some d \<Rightarrow> partial st'),
                    res_data = (case data of None \<Rightarrow> VNull | Some d \<Rightarrow> VObj d) \<rparr>)
          = Some (Inr res)"
    by (rule bindR_SomeInrE)
  obtain dat st3 where x: "x = (dat, st3)" by (cases x)
  from k[unfolded x] have res: "res_dependencies res = dependencies st3" by auto
  from readSelection_dependencies_mono[OF rs[unfolded x]] res
  show "deps \<subseteq> res_dependencies res" by simp
  from rs[unfolded x] res
  show "\<exists>dat st3.
         readSelection fuel h (makeContext s req) \<lparr>partial = False, dependencies = deps\<rparr>
           (getRootKey s (req_operation req)) (req_selectionSet req) (VObj [])
           = Some (Inr (dat, st3)) \<and>
         res_dependencies res = dependencies st3" by blast
next
  assume "read fuel h s req input deps = Some (Inr res) \<and>
    (calls h (makeContext s req))\<^sup>*\<^sup>* (readCall fuel s req input deps)
      (CallSelection k st4 ek4 sel4 data4) \<and>
    ek4 \<noteq> getRootKey s OpQuery"
  then show "ek4 \<in> res_dependencies res"
    using visited_entity_dependency by blast
next
  assume "read fuel h s req input deps = Some (Inr res) \<and>
    (calls h (makeContext s req))\<^sup>*\<^sup>* (readCall fuel s req input deps)
      (CallLoop k5 st5 tn5 ek5 q5 stack5 d5 hf5) \<and>
    ek5 = getRootKey s OpQuery \<and>
    iter_next h (makeContext s req) (Some tn5) ek5 stack5 = Some (Some nd5, stack5')"
  then show "fieldKeyOf h (makeContext s req) ek5 nd5 \<in> res_dependencies res"
    using visited_root_field_dependency by blast
qed

theorem dependency_completeness_witness:
  "read 12 plain_helpers list_store todos_request None {}
     = Some (Inr \<lparr> res_dependencies = {''Todo:2'', ''Todo:1'', ''Query.todos''},
                   res_partial = False,
                   res_data = VObj [(''__typename'', VStr ''Query''),
                     (''todos'', VArr [VObj [(''__typename'', VStr ''Todo''), (''id'', VStr ''1'')],
                                       VObj [(''__typename'', VStr ''Todo''), (''id'', VStr ''2'')]])] \<rparr>) \<and>
   (calls plain_helpers (makeContext list_store todos_request))\<^sup>*\<^sup>*
     (readCall 12 list_store todos_request None {})
     (CallSelection 5 \<lparr>partial = False, dependencies = {''Todo:1'', ''Query.todos''}\<rparr>
        ''Todo:2'' [id_field] (VObj [])) \<and>
   ''Todo:2'' \<noteq> getRootKey list_store OpQuery \<and>
   ''Todo:2'' \<in> {''Todo:2'', ''Todo:1'', ''Query.todos''} \<and>
   (calls plain_helpers (makeContext list_store todos_request))\<^sup>*\<^sup>*
     (readCall 12 list_store todos_request None {})
     (readCall 12 list_store todos_request None {}) \<and>
   fieldKeyOf plain_helpers (makeContext list_store todos_request) ''Query'' todos_field
     \<in> {''Todo:2'', ''Todo:1'', ''Query.todos''}"
proof -
  let ?res = "\<lparr> res_dependencies = {''Todo:2'', ''Todo:1'', ''Query.todos''},
                   res_partial = False,
                   res_data = VObj [(''__typename'', VStr ''Query''),
                     (''todos'', VArr [VObj [(''__typename'', VStr ''Todo''), (''id'', VStr ''1'')],
                                       VObj [(''__typename'', VStr ''Todo''), (''id'', VStr ''2'')]])] \<rparr>"
  let ?ctx = "makeContext list_store todos_request"
  let ?st0 = "\<lparr>partial = False, dependencies = {}\<rparr>"
  let ?c1 = "CallLoop 11 ?st0 ''Query'' ''Query'' True (iter_init [todos_field])
               [(''__typename'', VStr ''Query'')] False"
  have nr: "''Todo:2'' \<noteq> getRootKey list_store OpQuery"
    by (simp add: list_store_def mk_store_def getRootKey_def default_rootFields_def)
  have root: "''Query'' = getRootKey list_store OpQuery"
    by (simp add: list_store_def mk_store_def getRootKey_def default_rootFields_def)
  have rc: "readCall 12 list_store todos_request None {}
      = CallSelection 12 ?st0 ''Query'' [todos_field] (VObj [])"
    by (simp add: readCall_def list_store_def mk_store_def getRootKey_def
        default_rootFields_def todos_request_def)
  have "calls plain_helpers ?ctx (CallSelection 12 ?st0 ''Query'' [todos_field] (VObj [])) ?c1"
    using calls.selection_loop[of plain_helpers ?ctx "''Query''" "''Query''" "VObj []" "[]" 11 ?st0
        "[todos_field]"]
    by (simp add: call_defs eval_defs list_store_def)
  then have c1: "(calls plain_helpers ?ctx)\<^sup>*\<^sup>*
      (readCall 12 list_store todos_request None {}) ?c1"
    unfolding rc by (rule r_into_rtranclp)
  have it: "iter_next plain_helpers ?ctx (Some ''Query'') ''Query'' (iter_init [todos_field])
      = Some (Some todos_field, [(1, [todos_field])])"
    by (simp add: iter_next.simps iter_init_def plain_helpers_def todos_field_def Let_def)
  note inst = dependency_completeness[where h = plain_helpers and s = list_store
      and req = todos_request and input = None and deps = "{}" and fuel = 12 and res = ?res
      and k = 5 and ?st4.0 = "\<lparr>partial = False, dependencies = {''Todo:1'', ''Query.todos''}\<rparr>"
      and ?ek4.0 = "''Todo:2''" and ?sel4.0 = "[id_field]" and ?data4.0 = "VObj []"
      and ?k5.0 = 11 and ?st5.0 = ?st0 and ?tn5.0 = "''Query''" and ?ek5.0 = "''Query''"
      and ?q5.0 = True and ?stack5.0 = "iter_init [todos_field]"
      and ?d5.0 = "[(''__typename'', VStr ''Query'')]" and ?hf5.0 = False
      and ?nd5.0 = todos_field and stack5' = "[(1, [todos_field])]"]
  have a: "''Todo:2'' \<in> res_dependencies ?res"
    by (rule mp[OF inst[THEN conjunct2, THEN conjunct2, THEN conjunct2, THEN conjunct1]])
       (intro conjI list_read list_chain nr)
  have b: "fieldKeyOf plain_helpers ?ctx ''Query'' todos_field \<in> res_dependencies ?res"
    by (rule mp[OF inst[THEN conjunct2, THEN conjunct2, THEN conjunct2, THEN conjunct2]])
       (intro conjI list_read c1 root it)
  from a b list_read list_chain nr show ?thesis by simp
qed

section \<open>Reading with prior data\<close>

text \<open>
  C7, as the spec states it: prior data whose \<open>__typename\<close> is not a string is read like
  no prior data, by the normalized read from the root key. The code calls \<open>readRoot\<close>
  whenever prior data is given, and \<open>readRoot\<close> returns such data as it is: with
  \<open>{ int: 1 }\<close> supplied, the query \<open>{ int }\<close> over an empty store returns \<open>{ int: 1 }\<close>
  and no dependency, where the normalized read returns \<open>null\<close> and the dependency
  \<open>Query.int\<close>.
\<close>

theorem read_untyped_input_counterexample:
  "read 3 plain_helpers empty_store int_request (Some [(''int'', VNum 1)]) {}
     = Some (Inr \<lparr> res_dependencies = {}, res_partial = False,
                   res_data = VObj [(''int'', VNum 1)] \<rparr>) \<and>
   read 3 plain_helpers empty_store int_request None {}
     = Some (Inr \<lparr> res_dependencies = {''Query.int''}, res_partial = False,
                   res_data = VNull \<rparr>) \<and>
   read 3 plain_helpers empty_store int_request (Some [(''int'', VNum 1)]) {}
     \<noteq> read 3 plain_helpers empty_store int_request None {}"
  by (simp add: eval_defs empty_store_def int_request_def eval_nat_numeral)

text \<open>
  C7, amended: without prior data \<open>read\<close> is the normalized read from the root key; prior
  data whose \<open>__typename\<close> is not a string is returned unchanged, with no dependency and
  \<open>partial: false\<close>; prior data with a string \<open>__typename\<close> is merged. The result of the
  merge has the \<open>__typename\<close> of the data and otherwise only the aliases of the
  selection's field nodes; a field whose supplied value is \<open>null\<close> or scalar keeps that
  value; when every field node is copied (it has no selection set, or its supplied value
  is \<open>null\<close> or scalar) the store is not read: no dependency is added and \<open>partial\<close>
  stays false; an alias whose field nodes are all copied has the supplied value; an
  alias whose field nodes are all not copied has the result of \<open>readRootField\<close> on the
  selection set of one of them and the supplied value, with dependencies that are in the
  result of \<open>read\<close>. \<open>readRootField\<close> returns \<open>null\<close> for \<open>null\<close>; reads an object
  that has an entity key from the store, by \<open>readSelection\<close> on that key and no prior
  data, an \<open>undefined\<close> becoming \<open>null\<close>; merges an object that has a typename and no key
  by \<open>readRoot\<close>; and reads an array element by element.
\<close>

theorem read_dispatch:
  "read fuel h s req None deps =
     bindR (readSelection fuel h (makeContext s req) \<lparr>partial = False, dependencies = deps\<rparr>
              (getRootKey s (req_operation req)) (req_selectionSet req) (VObj []))
       (\<lambda>(data, st').
          returnR \<lparr> res_dependencies = dependencies st',
                    res_partial = (case data of None \<Rightarrow> False | Some d \<Rightarrow> partial st'),
                    res_data = (case data of None \<Rightarrow> VNull | Some d \<Rightarrow> VObj d) \<rparr>) \<and>
   (\<not> isString (getProp inp ''__typename'') \<longrightarrow>
      read (Suc n) h s req (Some inp) deps =
        Some (Inr \<lparr> res_dependencies = deps, res_partial = False, res_data = VObj inp \<rparr>)) \<and>
   (isString (getProp inp ''__typename'') \<and>
    read fuel h s req (Some inp) deps = Some (Inr res) \<longrightarrow>
      (\<exists>d'. res_data res = VObj d' \<and>
         (\<forall>a. (\<forall>nd. iter_yields h (makeContext s req) (Some (getRootKey s (req_operation req)))
                       (getRootKey s (req_operation req)) (iter_init (req_selectionSet req)) nd
                     \<longrightarrow> getFieldAlias nd \<noteq> a) \<longrightarrow>
              getProp d' a =
                (if a = ''__typename'' then getProp inp ''__typename'' else VUndefined)) \<and>
         (\<forall>nd. iter_yields h (makeContext s req) (Some (getRootKey s (req_operation req)))
                  (getRootKey s (req_operation req)) (iter_init (req_selectionSet req)) nd \<longrightarrow>
               getProp inp (getFieldAlias nd) = VNull \<or> isScalar (getProp inp (getFieldAlias nd))
               \<longrightarrow> getProp d' (getFieldAlias nd) = getProp inp (getFieldAlias nd)) \<and>
         ((\<forall>nd. iter_yields h (makeContext s req) (Some (getRootKey s (req_operation req)))
                   (getRootKey s (req_operation req)) (iter_init (req_selectionSet req)) nd \<longrightarrow>
                copied inp nd) \<longrightarrow>
            res_dependencies res = deps \<and> \<not> res_partial res) \<and>
         (\<forall>a. (\<exists>nd. iter_yields h (makeContext s req) (Some (getRootKey s (req_operation req)))
                    (getRootKey s (req_operation req)) (iter_init (req_selectionSet req)) nd \<and>
                  getFieldAlias nd = a) \<and>
              (\<forall>nd. iter_yields h (makeContext s req) (Some (getRootKey s (req_operation req)))
                    (getRootKey s (req_operation req)) (iter_init (req_selectionSet req)) nd \<and>
                  getFieldAlias nd = a \<longrightarrow> copied inp nd)
            \<longrightarrow> getProp d' a = getProp inp a) \<and>
         (\<forall>a. (\<exists>nd. iter_yields h (makeContext s req) (Some (getRootKey s (req_operation req)))
                    (getRootKey s (req_operation req)) (iter_init (req_selectionSet req)) nd \<and>
                  getFieldAlias nd = a) \<and>
              (\<forall>nd. iter_yields h (makeContext s req) (Some (getRootKey s (req_operation req)))
                    (getRootKey s (req_operation req)) (iter_init (req_selectionSet req)) nd \<and>
                  getFieldAlias nd = a \<longrightarrow> \<not> copied inp nd)
            \<longrightarrow> (\<exists>nd k st1 st1'.
                   iter_yields h (makeContext s req) (Some (getRootKey s (req_operation req)))
                     (getRootKey s (req_operation req)) (iter_init (req_selectionSet req)) nd \<and>
                   getFieldAlias nd = a \<and>
                   readRootField k h (makeContext s req) st1 (getSelectionSet nd) (getProp inp a)
                     = Some (Inr (getProp d' a, st1')) \<and>
                   deps \<subseteq> dependencies st1 \<and>
                   dependencies st1' \<subseteq> res_dependencies res)))) \<and>
   readRootField (Suc n) h ctx st sel VNull = Some (Inr (VNull, st)) \<and>
   (keyOfEntity (ctx_store ctx) d = Some ek \<longrightarrow>
      readRootField (Suc n) h ctx st sel (VObj d) =
        bindR (readSelection n h ctx st ek sel (VObj []))
          (\<lambda>(fieldValue, st').
             returnR (case fieldValue of None \<Rightarrow> VNull | Some d' \<Rightarrow> VObj d', st'))) \<and>
   (keyOfEntity (ctx_store ctx) d = None \<and> getProp d ''__typename'' = VStr tn \<longrightarrow>
      readRootField (Suc n) h ctx st sel (VObj d) =
        bindR (readRoot n h ctx st tn sel d) (\<lambda>(d', st'). returnR (VObj d', st'))) \<and>
   readRootField (Suc n) h ctx st sel (VArr xs) =
     bindR (readRootFields n h ctx st sel xs) (\<lambda>(vs, st'). returnR (VArr vs, st')) \<and>
   (readRootFields n h ctx st sel xs = Some (Inr (vs, st')) \<longrightarrow>
      length vs = length xs \<and>
      (\<forall>i<length xs. \<exists>k st1 st1'.
         readRootField k h ctx st1 sel (xs ! i) = Some (Inr (vs ! i, st1')) \<and>
         dependencies st \<subseteq> dependencies st1 \<and> dependencies st1' \<subseteq> dependencies st'))"
proof (intro conjI impI)
  show "read fuel h s req None deps =
     bindR (readSelection fuel h (makeContext s req) \<lparr>partial = False, dependencies = deps\<rparr>
              (getRootKey s (req_operation req)) (req_selectionSet req) (VObj []))
       (\<lambda>(data, st').
          returnR \<lparr> res_dependencies = dependencies st',
                    res_partial = (case data of None \<Rightarrow> False | Some d \<Rightarrow> partial st'),
                    res_data = (case data of None \<Rightarrow> VNull | Some d \<Rightarrow> VObj d) \<rparr>)"
    by (rule read_no_input)
next
  assume "\<not> isString (getProp inp ''__typename'')"
  then show "read (Suc n) h s req (Some inp) deps =
        Some (Inr \<lparr> res_dependencies = deps, res_partial = False, res_data = VObj inp \<rparr>)"
    by (simp add: read_with_input)
next
  let ?ctx = "makeContext s req" and ?root = "getRootKey s (req_operation req)"
  let ?sel = "req_selectionSet req"
  let ?st = "\<lparr>partial = False, dependencies = deps\<rparr>"
  assume a: "isString (getProp inp ''__typename'') \<and>
    read fuel h s req (Some inp) deps = Some (Inr res)"
  then have tn: "isString (getProp inp ''__typename'')"
    and rd: "read fuel h s req (Some inp) deps = Some (Inr res)" by blast+
  from rd[unfolded read_with_input] obtain x where
    rr: "readRoot fuel h ?ctx ?st ?root ?sel inp = Some (Inr x)"
    and k: "(case x of (d, st') \<Rightarrow>
              returnR \<lparr> res_dependencies = dependencies st', res_partial = partial st',
                        res_data = VObj d \<rparr>) = Some (Inr res)"
    by (rule bindR_SomeInrE)
  obtain d' st' where x: "x = (d', st')" by (cases x)
  from k[unfolded x] have res: "res = \<lparr> res_dependencies = dependencies st',
      res_partial = partial st', res_data = VObj d' \<rparr>" by auto
  from rr obtain f where fuel: "fuel = Suc f" by (cases fuel) auto
  from rr[unfolded fuel x readRoot_Suc_merge[OF tn]]
  have "readRootLoop f h ?ctx ?st ?root (iter_init ?sel) inp
          (setProp [] ''__typename'' (getProp inp ''__typename'')) = Some (Inr (d', st'))" .
  note sh = readRootLoop_shape[OF this] and fl = readRootLoop_fields[OF this]
  have acc: "getProp (setProp [] ''__typename'' (getProp inp ''__typename'')) a =
      (if a = ''__typename'' then getProp inp ''__typename'' else VUndefined)" for a
    by (simp add: getProp_setProp) (simp add: getProp_def)
  show "\<exists>d'. res_data res = VObj d' \<and>
         (\<forall>a. (\<forall>nd. iter_yields h ?ctx (Some ?root) ?root (iter_init ?sel) nd
                     \<longrightarrow> getFieldAlias nd \<noteq> a) \<longrightarrow>
              getProp d' a =
                (if a = ''__typename'' then getProp inp ''__typename'' else VUndefined)) \<and>
         (\<forall>nd. iter_yields h ?ctx (Some ?root) ?root (iter_init ?sel) nd \<longrightarrow>
               getProp inp (getFieldAlias nd) = VNull \<or> isScalar (getProp inp (getFieldAlias nd))
               \<longrightarrow> getProp d' (getFieldAlias nd) = getProp inp (getFieldAlias nd)) \<and>
         ((\<forall>nd. iter_yields h ?ctx (Some ?root) ?root (iter_init ?sel) nd \<longrightarrow>
                copied inp nd) \<longrightarrow>
            res_dependencies res = deps \<and> \<not> res_partial res) \<and>
         (\<forall>a. (\<exists>nd. iter_yields h ?ctx (Some ?root) ?root (iter_init ?sel) nd \<and>
                  getFieldAlias nd = a) \<and>
              (\<forall>nd. iter_yields h ?ctx (Some ?root) ?root (iter_init ?sel) nd \<and>
                  getFieldAlias nd = a \<longrightarrow> copied inp nd)
            \<longrightarrow> getProp d' a = getProp inp a) \<and>
         (\<forall>a. (\<exists>nd. iter_yields h ?ctx (Some ?root) ?root (iter_init ?sel) nd \<and>
                  getFieldAlias nd = a) \<and>
              (\<forall>nd. iter_yields h ?ctx (Some ?root) ?root (iter_init ?sel) nd \<and>
                  getFieldAlias nd = a \<longrightarrow> \<not> copied inp nd)
            \<longrightarrow> (\<exists>nd k st1 st1'.
                   iter_yields h ?ctx (Some ?root) ?root (iter_init ?sel) nd \<and>
                   getFieldAlias nd = a \<and>
                   readRootField k h ?ctx st1 (getSelectionSet nd) (getProp inp a)
                     = Some (Inr (getProp d' a, st1')) \<and>
                   deps \<subseteq> dependencies st1 \<and>
                   dependencies st1' \<subseteq> res_dependencies res))"
  proof (intro exI[of _ d'] conjI)
    show "res_data res = VObj d'" by (simp add: res)
    from sh have "\<forall>a. (\<forall>nd. iter_yields h ?ctx (Some ?root) ?root (iter_init ?sel) nd
                     \<longrightarrow> getFieldAlias nd \<noteq> a) \<longrightarrow>
              getProp d' a = getProp (setProp [] ''__typename'' (getProp inp ''__typename'')) a"
      by blast
    then show "\<forall>a. (\<forall>nd. iter_yields h ?ctx (Some ?root) ?root (iter_init ?sel) nd
                     \<longrightarrow> getFieldAlias nd \<noteq> a) \<longrightarrow>
              getProp d' a =
                (if a = ''__typename'' then getProp inp ''__typename'' else VUndefined)"
      unfolding acc .
    from sh show "\<forall>nd. iter_yields h ?ctx (Some ?root) ?root (iter_init ?sel) nd \<longrightarrow>
               getProp inp (getFieldAlias nd) = VNull \<or> isScalar (getProp inp (getFieldAlias nd))
               \<longrightarrow> getProp d' (getFieldAlias nd) = getProp inp (getFieldAlias nd)"
      by blast
    from sh show "(\<forall>nd. iter_yields h ?ctx (Some ?root) ?root (iter_init ?sel) nd \<longrightarrow>
                copied inp nd) \<longrightarrow>
            res_dependencies res = deps \<and> \<not> res_partial res"
      by (auto simp: res)
    from fl[THEN conjunct1]
    show "\<forall>a. (\<exists>nd. iter_yields h ?ctx (Some ?root) ?root (iter_init ?sel) nd \<and>
                  getFieldAlias nd = a) \<and>
              (\<forall>nd. iter_yields h ?ctx (Some ?root) ?root (iter_init ?sel) nd \<and>
                  getFieldAlias nd = a \<longrightarrow> copied inp nd)
            \<longrightarrow> getProp d' a = getProp inp a" .
    from fl[THEN conjunct2]
    show "\<forall>a. (\<exists>nd. iter_yields h ?ctx (Some ?root) ?root (iter_init ?sel) nd \<and>
                  getFieldAlias nd = a) \<and>
              (\<forall>nd. iter_yields h ?ctx (Some ?root) ?root (iter_init ?sel) nd \<and>
                  getFieldAlias nd = a \<longrightarrow> \<not> copied inp nd)
            \<longrightarrow> (\<exists>nd k st1 st1'.
                   iter_yields h ?ctx (Some ?root) ?root (iter_init ?sel) nd \<and>
                   getFieldAlias nd = a \<and>
                   readRootField k h ?ctx st1 (getSelectionSet nd) (getProp inp a)
                     = Some (Inr (getProp d' a, st1')) \<and>
                   deps \<subseteq> dependencies st1 \<and>
                   dependencies st1' \<subseteq> res_dependencies res)"
      by (simp add: res)
  qed
next
  show "readRootField (Suc n) h ctx st sel VNull = Some (Inr (VNull, st))"
    by simp
next
  assume "keyOfEntity (ctx_store ctx) d = Some ek"
  then show "readRootField (Suc n) h ctx st sel (VObj d) =
        bindR (readSelection n h ctx st ek sel (VObj []))
          (\<lambda>(fieldValue, st').
             returnR (case fieldValue of None \<Rightarrow> VNull | Some d' \<Rightarrow> VObj d', st'))"
    by (rule readRootField_entity)
next
  assume "keyOfEntity (ctx_store ctx) d = None \<and> getProp d ''__typename'' = VStr tn"
  then show "readRootField (Suc n) h ctx st sel (VObj d) =
        bindR (readRoot n h ctx st tn sel d) (\<lambda>(d', st'). returnR (VObj d', st'))"
    by simp
next
  show "readRootField (Suc n) h ctx st sel (VArr xs) =
     bindR (readRootFields n h ctx st sel xs) (\<lambda>(vs, st'). returnR (VArr vs, st'))"
    by simp
next
  assume "readRootFields n h ctx st sel xs = Some (Inr (vs, st'))"
  from readRootFields_elements[OF this] show "length vs = length xs" by (rule conjunct1)
next
  assume "readRootFields n h ctx st sel xs = Some (Inr (vs, st'))"
  from readRootFields_elements[OF this]
  show "\<forall>i<length xs. \<exists>k st1 st1'.
         readRootField k h ctx st1 sel (xs ! i) = Some (Inr (vs ! i, st1')) \<and>
         dependencies st \<subseteq> dependencies st1 \<and> dependencies st1' \<subseteq> dependencies st'"
    by (rule conjunct2)
qed

theorem read_dispatch_witness:
  "\<not> isString (getProp [(''int'', VNum 1)] ''__typename'') \<and>
   read (Suc 0) plain_helpers empty_store int_request (Some [(''int'', VNum 1)]) {}
     = Some (Inr \<lparr> res_dependencies = {}, res_partial = False,
                   res_data = VObj [(''int'', VNum 1)] \<rparr>) \<and>
   isString (getProp stale_result ''__typename'') \<and>
   read 9 plain_helpers text_store todo_text_request (Some stale_result) {}
     = Some (Inr \<lparr> res_dependencies = {''Todo:1''}, res_partial = False,
                   res_data = VObj [(''__typename'', VStr ''Query''),
                     (''todo'', VObj [(''__typename'', VStr ''Todo''),
                                      (''text'', VStr ''fresh'')])] \<rparr>) \<and>
   keyOfEntity (ctx_store (makeContext text_store todo_text_request)) stale_todo
     = Some ''Todo:1'' \<and>
   readRootField 7 plain_helpers (makeContext text_store todo_text_request)
       \<lparr>partial = False, dependencies = {}\<rparr> [text_field] (VObj stale_todo)
     = Some (Inr (VObj [(''__typename'', VStr ''Todo''), (''text'', VStr ''fresh'')],
                  \<lparr>partial = False, dependencies = {''Todo:1''}\<rparr>)) \<and>
   (\<exists>d'. VObj [(''__typename'', VStr ''Query''),
              (''todo'', VObj [(''__typename'', VStr ''Todo''), (''text'', VStr ''fresh'')])]
            = VObj d' \<and>
         getProp d' ''__typename'' = VStr ''Query'' \<and> getProp d' ''id'' = VUndefined)"
proof -
  let ?ctx = "makeContext text_store todo_text_request"
  let ?st0 = "\<lparr>partial = False, dependencies = {}\<rparr>"
  let ?out = "[(''__typename'', VStr ''Query''),
               (''todo'', VObj [(''__typename'', VStr ''Todo''), (''text'', VStr ''fresh'')])]"
  let ?res = "\<lparr> res_dependencies = {''Todo:1''}, res_partial = False, res_data = VObj ?out \<rparr>"
  have a: "\<not> isString (getProp [(''int'', VNum 1)] ''__typename'')"
    by (simp add: getProp_def)
  have b: "isString (getProp stale_result ''__typename'')"
    by (simp add: getProp_def stale_result_def)
  have c: "read 9 plain_helpers text_store todo_text_request (Some stale_result) {} = Some (Inr ?res)"
    by (simp add: eval_defs text_store_def todo_text_request_def todo_text_field_def
        text_field_def stale_result_def stale_todo_def keyOfEntity_id_def eval_nat_numeral)
  have k: "keyOfEntity (ctx_store ?ctx) stale_todo = Some ''Todo:1''"
    by (simp add: makeContext_def text_store_def mk_store_def keyOfEntity_id_def stale_todo_def
        getProp_def)
  have rs: "readSelection 6 plain_helpers ?ctx ?st0 ''Todo:1'' [text_field] (VObj [])
      = Some (Inr (Some [(''__typename'', VStr ''Todo''), (''text'', VStr ''fresh'')],
                   \<lparr>partial = False, dependencies = {''Todo:1''}\<rparr>))"
    by (simp add: eval_defs text_store_def todo_text_request_def text_field_def eval_nat_numeral)
  note inst = read_dispatch[where fuel = 9 and h = plain_helpers and s = text_store
      and req = todo_text_request and deps = "{}" and ctx = ?ctx and st = ?st0
      and sel = "[text_field]" and d = stale_todo and ek = "''Todo:1''" and n = 6]
  from a have r1: "read (Suc 0) plain_helpers empty_store int_request (Some [(''int'', VNum 1)]) {}
     = Some (Inr \<lparr> res_dependencies = {}, res_partial = False,
                   res_data = VObj [(''int'', VNum 1)] \<rparr>)"
    using read_dispatch[where n = 0 and h = plain_helpers and s = empty_store
        and req = int_request and deps = "{}" and inp = "[(''int'', VNum 1)]",
        THEN conjunct2, THEN conjunct1]
    by (rule_tac mp)
  from b c have "\<exists>d'. res_data ?res = VObj d' \<and>
      (\<forall>a. (\<forall>nd. iter_yields plain_helpers ?ctx
                    (Some (getRootKey text_store (req_operation todo_text_request)))
                    (getRootKey text_store (req_operation todo_text_request))
                    (iter_init (req_selectionSet todo_text_request)) nd
                  \<longrightarrow> getFieldAlias nd \<noteq> a) \<longrightarrow>
           getProp d' a =
             (if a = ''__typename'' then getProp stale_result ''__typename'' else VUndefined))"
    using inst[where inp = stale_result and res = ?res, THEN conjunct2, THEN conjunct2,
        THEN conjunct1]
    by blast
  have e: "readRootField 7 plain_helpers ?ctx ?st0 [text_field] (VObj stale_todo)
     = Some (Inr (VObj [(''__typename'', VStr ''Todo''), (''text'', VStr ''fresh'')],
                  \<lparr>partial = False, dependencies = {''Todo:1''}\<rparr>))"
    using mp[OF inst[THEN conjunct2, THEN conjunct2, THEN conjunct2, THEN conjunct2,
          THEN conjunct1] k] rs
    by (simp add: eval_nat_numeral)
  have f: "\<exists>d'. VObj ?out = VObj d' \<and>
         getProp d' ''__typename'' = VStr ''Query'' \<and> getProp d' ''id'' = VUndefined"
    by (simp add: getProp_def)
  from a r1 b c k e f show ?thesis by simp
qed

section \<open>Writing and reading back\<close>

text \<open>
  The viewer test of the sources on the model of the write path: after the write of
  \<open>{ int: 42 }\<close> for \<open>{ int }\<close> and the write of the mutation result whose \<open>viewer\<close> is the
  root \<open>Query\<close> with \<open>int: 43\<close>, the query \<open>{ int }\<close> returns \<open>{ __typename: 'Query', int: 43 }\<close>
  and \<open>partial: false\<close>.
\<close>

lemma viewer_write_overwrites_root:
  "bindR (writeOperation 9 plain_helpers (mk_store [] [] None) int_request int_result)
     (\<lambda>(s1, d1). bindR (writeOperation 9 plain_helpers s1 viewer_request viewer_result)
     (\<lambda>(s2, d2). query 9 plain_helpers s2 int_request None))
   = Some (Inr \<lparr> res_dependencies = {''Query.int''}, res_partial = False,
                 res_data = VObj [(''__typename'', VStr ''Query''), (''int'', VNum 43)] \<rparr>)"
  by (simp add: writeOperation_def writeRecord_def writeLink_def int_result_def viewer_result_def
        viewer_request_def eval_defs int_request_def eval_nat_numeral keyOfEntity_id_def)

text \<open>
  Without a schema oracle the result \<open>{ __typename: 'Query', int: 42 }\<close> written for the
  query \<open>{ int }\<close> is read back as it is.
\<close>

lemma write_then_query_without_schema:
  "writeThenQuery 5 plain_helpers (mk_store [] [] None) int_request int_result
     = Some (Inr \<lparr> res_dependencies = {''Query.int''}, res_partial = False,
                   res_data = VObj int_result \<rparr>)"
  by (simp add: writeThenQuery_def writeOperation_def writeRecord_def int_result_def eval_defs
        int_request_def eval_nat_numeral)

text \<open>
  C2 (round trip) does not hold of the code when the store has a schema oracle: the same
  write, into a store whose oracle reports every field nullable, stores \<open>Query.int = 42\<close>,
  and the query \<open>{ int }\<close> of that store then returns \<open>data: null\<close> and not the result
  written, because the schema branch of \<open>readSelection\<close> returns \<open>undefined\<close> at a cached
  field.
\<close>

theorem write_then_query_with_schema:
  "writeThenQuery 5 plain_helpers (mk_store [] [] (Some all_nullable)) int_request int_result
     = Some (Inr \<lparr> res_dependencies = {''Query.int''}, res_partial = False, res_data = VNull \<rparr>)"
  by (simp add: writeThenQuery_def writeOperation_def writeRecord_def int_result_def eval_defs
        int_request_def all_nullable_def eval_nat_numeral)

section \<open>Termination of the iterator and of reads\<close>

lemma finite_refsOf: "finite (refsOf nd)"
  by (induction nd rule: refsOf.induct) auto

lemma finite_selectionRefs: "finite (selectionRefs sel)"
  by (simp add: selectionRefs_def finite_refsOf)

lemma finite_fragmentRefs:
  assumes "finite (dom fs)"
  shows "finite (fragmentRefs fs)"
proof -
  have "fragmentRefs fs \<subseteq> (\<Union>f\<in>dom fs. selectionRefs (getSelectionSet (the (fs f)))) \<times> dom fs"
    by (auto simp: fragmentRefs_def)
  moreover have "finite ((\<Union>f\<in>dom fs. selectionRefs (getSelectionSet (the (fs f)))) \<times> dom fs)"
    using assms by (simp add: finite_selectionRefs)
  ultimately show ?thesis by (rule finite_subset)
qed

lemma finite_reach:
  assumes "finite (dom fs)"
  shows "finite (reach fs sel)"
proof -
  have "reach fs sel \<subseteq> selectionRefs sel \<union> Domain ((fragmentRefs fs)\<^sup>+)"
    by (auto simp: reach_def rtrancl_eq_or_trancl dest: tranclD)
  moreover have "finite (selectionRefs sel \<union> Domain ((fragmentRefs fs)\<^sup>+))"
    using finite_fragmentRefs[OF assms] by (simp add: finite_selectionRefs finite_Domain)
  ultimately show ?thesis by (rule finite_subset)
qed

lemma refsOf_subset_selectionRefs: "nd \<in> set sel \<Longrightarrow> refsOf nd \<subseteq> selectionRefs sel"
  by (auto simp: selectionRefs_def)

lemma reach_mono: "selectionRefs sel' \<subseteq> selectionRefs sel \<Longrightarrow> reach fs sel' \<subseteq> reach fs sel"
  by (auto simp: reach_def)

text \<open>The selection set of a field or of an inline fragment of a selection set.\<close>

lemma selectionRefs_child:
  assumes "nd \<in> set sel" "isFieldNode nd \<or> isInlineFragment nd"
  shows "selectionRefs (getSelectionSet nd) \<subseteq> selectionRefs sel"
proof -
  from assms(2) have "selectionRefs (getSelectionSet nd) \<subseteq> refsOf nd"
    by (cases nd rule: refsOf.cases) (auto simp: selectionRefs_def)
  with refsOf_subset_selectionRefs[OF assms(1)] show ?thesis by blast
qed

lemma size_child:
  assumes "nd \<in> set sel" "isFieldNode nd \<or> isInlineFragment nd"
  shows "size_list size (getSelectionSet nd) < size_list size sel"
proof -
  from assms(2) have "size_list size (getSelectionSet nd) < size nd"
    by (cases nd rule: refsOf.cases) auto
  with size_list_estimation'[OF assms(1), of "size nd" size] show ?thesis by simp
qed

text \<open>The selection set of a fragment that a node of the selection set names.\<close>

lemma reach_fragment:
  assumes fin: "finite (dom fs)" and acyc: "acyclicFrom fs sel"
    and nd: "nd \<in> set sel" "\<not> isFieldNode nd" "\<not> isInlineFragment nd"
    and d: "fs (getName nd) = Some d"
  shows "reach fs (getSelectionSet d) \<subseteq> reach fs sel
         \<and> card (reach fs (getSelectionSet d)) < card (reach fs sel)"
proof -
  let ?R = "fragmentRefs fs" and ?f = "getName nd"
  from nd have "?f \<in> refsOf nd" by (cases nd rule: refsOf.cases) auto
  with refsOf_subset_selectionRefs[OF nd(1)] have f: "?f \<in> selectionRefs sel" by blast
  have body: "(g, ?f) \<in> ?R" if "g \<in> selectionRefs (getSelectionSet d)" for g
    using that d by (auto simp: fragmentRefs_def)
  have sub: "reach fs (getSelectionSet d) \<subseteq> reach fs sel"
  proof
    fix g assume "g \<in> reach fs (getSelectionSet d)"
    then obtain s where "s \<in> selectionRefs (getSelectionSet d)" "(g, s) \<in> ?R\<^sup>*"
      by (auto simp: reach_def)
    with body[of s] have "(g, ?f) \<in> ?R\<^sup>*" by (meson rtrancl.rtrancl_into_rtrancl)
    with f show "g \<in> reach fs sel" by (auto simp: reach_def)
  qed
  have in_sel: "?f \<in> reach fs sel" using f by (auto simp: reach_def)
  have "?f \<notin> reach fs (getSelectionSet d)"
  proof
    assume "?f \<in> reach fs (getSelectionSet d)"
    then obtain s where "s \<in> selectionRefs (getSelectionSet d)" "(?f, s) \<in> ?R\<^sup>*"
      by (auto simp: reach_def)
    with body[of s] have "(?f, ?f) \<in> ?R\<^sup>+" by (meson rtrancl_into_trancl1)
    with acyc in_sel show False by (simp add: acyclicFrom_def)
  qed
  with sub in_sel have "reach fs (getSelectionSet d) \<subset> reach fs sel" by blast
  then have "card (reach fs (getSelectionSet d)) < card (reach fs sel)"
    by (rule psubset_card_mono[OF finite_reach[OF fin]])
  with sub show ?thesis by simp
qed

lemma wf_selOrder: "wf (selOrder fs)"
  unfolding selOrder_def by (rule wf_Int2) simp

lemma acyclicFrom_less: "(a, b) \<in> selOrder fs \<Longrightarrow> acyclicFrom fs b \<Longrightarrow> acyclicFrom fs a"
  by (auto simp: selOrder_def acyclicFrom_def)

lemma acyclic_acyclicFrom: "acyclic (fragmentRefs fs) \<Longrightarrow> acyclicFrom fs sel"
  by (simp add: acyclic_def acyclicFrom_def)

lemma trans_selOrder: "(a, b) \<in> selOrder fs \<Longrightarrow> (b, c) \<in> selOrder fs \<Longrightarrow> (a, c) \<in> selOrder fs"
  by (auto simp: selOrder_def)

lemma selOrder_child:
  assumes "finite (dom fs)" "nd \<in> set sel" "isFieldNode nd \<or> isInlineFragment nd"
  shows "(getSelectionSet nd, sel) \<in> selOrder fs"
proof -
  from card_mono[OF finite_reach[OF assms(1)] reach_mono[OF selectionRefs_child[OF assms(2,3)]]]
  have "card (reach fs (getSelectionSet nd)) \<le> card (reach fs sel)" .
  with size_child[OF assms(2,3)] reach_mono[OF selectionRefs_child[OF assms(2,3)], of fs]
  show ?thesis by (auto simp: selOrder_def)
qed

lemma selOrder_fragment:
  assumes "finite (dom fs)" "acyclicFrom fs sel"
    and "nd \<in> set sel" "\<not> isFieldNode nd" "\<not> isInlineFragment nd" "fs (getName nd) = Some d"
  shows "(getSelectionSet d, sel) \<in> selOrder fs"
  using reach_fragment[OF assms] by (simp add: selOrder_def)

lemma iter_next_frame_end:
  "length sel \<le> i \<Longrightarrow> iter_next h ctx tn ek ((i, sel) # rest) = iter_next h ctx tn ek rest"
  by (subst iter_next.simps) simp

lemma iter_next_frame_field:
  "i < length sel \<Longrightarrow> shouldInclude h (sel ! i) (ctx_variables ctx) \<Longrightarrow> isFieldNode (sel ! i) \<Longrightarrow>
   getName (sel ! i) \<noteq> ''__typename'' \<Longrightarrow>
   iter_next h ctx tn ek ((i, sel) # rest) = Some (Some (sel ! i), (Suc i, sel) # rest)"
  by (subst iter_next.simps) (simp add: Let_def)

lemma iter_next_frame_push:
  "i < length sel \<Longrightarrow> shouldInclude h (sel ! i) (ctx_variables ctx) \<Longrightarrow> \<not> isFieldNode (sel ! i) \<Longrightarrow>
   fragmentNodeOf ctx (sel ! i) = Some f \<Longrightarrow> isMatching h ctx tn ek f \<Longrightarrow>
   iter_next h ctx tn ek ((i, sel) # rest)
     = iter_next h ctx tn ek ((0, getSelectionSet f) # (Suc i, sel) # rest)"
  by (subst iter_next.simps) (simp add: Let_def)

lemma iter_next_frame_skip:
  "i < length sel \<Longrightarrow>
   \<not> shouldInclude h (sel ! i) (ctx_variables ctx) \<or>
   (\<not> isFieldNode (sel ! i) \<and>
      (case fragmentNodeOf ctx (sel ! i) of None \<Rightarrow> True | Some f \<Rightarrow> \<not> isMatching h ctx tn ek f)) \<or>
   (isFieldNode (sel ! i) \<and> getName (sel ! i) = ''__typename'') \<Longrightarrow>
   iter_next h ctx tn ek ((i, sel) # rest) = iter_next h ctx tn ek ((Suc i, sel) # rest)"
  by (subst iter_next.simps) (auto simp: Let_def split: option.splits)

lemma iter_drain_cong:
  "iter_next h ctx tn ek s = iter_next h ctx tn ek s' \<Longrightarrow>
   iter_drain h ctx tn ek s = iter_drain h ctx tn ek s'"
  by (subst iter_drain.simps, subst (2) iter_drain.simps) simp

lemma iter_drain_node:
  "iter_next h ctx tn ek s = Some (Some nd, s') \<Longrightarrow>
   iter_drain h ctx tn ek s = map_option ((#) nd) (iter_drain h ctx tn ek s')"
  by (subst iter_drain.simps) (cases "iter_drain h ctx tn ek s'"; simp)

lemma iter_drain_done:
  "iter_next h ctx tn ek s = Some (None, s') \<Longrightarrow> iter_drain h ctx tn ek s = Some []"
  by (subst iter_drain.simps) simp

lemma iter_drain_Nil: "iter_drain h ctx tn ek [] = Some []"
  by (rule iter_drain_done[of _ _ _ _ _ "[]"]) (subst iter_next.simps, simp)

lemma map_option_append_Nil: "map_option ((@) []) x = x"
  by (cases x) simp_all

lemma map_option_append_Cons: "map_option ((#) a) (map_option ((@) ns) x) = map_option ((@) (a # ns)) x"
  by (cases x) simp_all

lemma map_option_append_append:
  "map_option ((@) ns1) (map_option ((@) ns2) x) = map_option ((@) (ns1 @ ns2)) x"
  by (cases x) simp_all

lemma frame_drain:
  assumes fin: "finite (dom (ctx_fragments ctx))"
  shows "acyclicFrom (ctx_fragments ctx) sel \<Longrightarrow>
         \<exists>ns. (\<forall>nd\<in>set ns. (getSelectionSet nd, sel) \<in> selOrder (ctx_fragments ctx)) \<and>
           (\<forall>rest. iter_drain h ctx tn ek ((i, sel) # rest)
                     = map_option ((@) ns) (iter_drain h ctx tn ek rest))"
proof (induction sel arbitrary: i rule: wf_induct_rule[OF wf_selOrder[of "ctx_fragments ctx"]])
  case (1 sel)
  note acyc = 1(2)
  let ?fs = "ctx_fragments ctx"
  let ?D = "iter_drain h ctx tn ek"
  show ?case
  proof (induction "length sel - i" arbitrary: i)
    case 0
    then have "length sel \<le> i" by simp
    from iter_drain_cong[OF iter_next_frame_end[OF this]]
    have "\<forall>rest. ?D ((i, sel) # rest) = map_option ((@) []) (?D rest)"
      by (simp add: map_option_append_Nil)
    moreover have "\<forall>nd\<in>set []. (getSelectionSet nd, sel) \<in> selOrder ?fs" by simp
    ultimately show ?case by blast
  next
    case (Suc k)
    then have i: "i < length sel" and k: "k = length sel - Suc i" by simp_all
    from Suc.hyps(1)[OF k] obtain ns2 where
      ns2: "\<forall>nd\<in>set ns2. (getSelectionSet nd, sel) \<in> selOrder ?fs"
      and d2: "\<forall>rest. ?D ((Suc i, sel) # rest) = map_option ((@) ns2) (?D rest)" by blast
    let ?nd = "sel ! i"
    from i have mem: "?nd \<in> set sel" by simp
    consider
      (skip) "\<not> shouldInclude h ?nd (ctx_variables ctx) \<or>
         (\<not> isFieldNode ?nd \<and>
           (case fragmentNodeOf ctx ?nd of None \<Rightarrow> True | Some f \<Rightarrow> \<not> isMatching h ctx tn ek f)) \<or>
         (isFieldNode ?nd \<and> getName ?nd = ''__typename'')"
    | (field) "shouldInclude h ?nd (ctx_variables ctx)" "isFieldNode ?nd"
         "getName ?nd \<noteq> ''__typename''"
    | (push) f where "shouldInclude h ?nd (ctx_variables ctx)" "\<not> isFieldNode ?nd"
         "fragmentNodeOf ctx ?nd = Some f" "isMatching h ctx tn ek f"
      by (cases "fragmentNodeOf ctx ?nd") auto
    then show ?case
    proof cases
      case skip
      from iter_drain_cong[OF iter_next_frame_skip[OF i skip]] d2
      have "\<forall>rest. ?D ((i, sel) # rest) = map_option ((@) ns2) (?D rest)" by simp
      with ns2 show ?thesis by blast
    next
      case field
      from iter_drain_node[OF iter_next_frame_field[OF i field]] d2
      have "\<forall>rest. ?D ((i, sel) # rest) = map_option ((@) (?nd # ns2)) (?D rest)"
        by (simp add: map_option_append_Cons)
      moreover from selOrder_child[OF fin mem] field(2) ns2
      have "\<forall>nd\<in>set (?nd # ns2). (getSelectionSet nd, sel) \<in> selOrder ?fs" by simp
      ultimately show ?thesis by blast
    next
      case (push f)
      have less: "(getSelectionSet f, sel) \<in> selOrder ?fs"
      proof (cases "isInlineFragment ?nd")
        case True
        with push(3) have "f = ?nd" by (simp add: fragmentNodeOf_def)
        with selOrder_child[OF fin mem] True show ?thesis by simp
      next
        case False
        with push(3) have "?fs (getName ?nd) = Some f" by (simp add: fragmentNodeOf_def)
        from selOrder_fragment[OF fin acyc mem push(2) False this] show ?thesis .
      qed
      from 1(1)[OF less acyclicFrom_less[OF less acyc], of 0] obtain ns1 where
        ns1: "\<forall>nd\<in>set ns1. (getSelectionSet nd, getSelectionSet f) \<in> selOrder ?fs"
        and d1: "\<forall>rest. ?D ((0, getSelectionSet f) # rest) = map_option ((@) ns1) (?D rest)"
        by blast
      from iter_drain_cong[OF iter_next_frame_push[OF i push]] d1 d2
      have "\<forall>rest. ?D ((i, sel) # rest) = map_option ((@) (ns1 @ ns2)) (?D rest)"
        by (simp add: map_option_append_append)
      moreover from ns1 ns2 less
      have "\<forall>nd\<in>set (ns1 @ ns2). (getSelectionSet nd, sel) \<in> selOrder ?fs"
        by (auto intro: trans_selOrder)
      ultimately show ?thesis by blast
    qed
  qed
qed

lemma iter_drain_total:
  assumes "finite (dom (ctx_fragments ctx))"
    and "\<forall>fr\<in>set stack. acyclicFrom (ctx_fragments ctx) (snd fr)"
  shows "\<exists>ns. iter_drain h ctx tn ek stack = Some ns"
  using assms(2)
proof (induction stack)
  case Nil
  show ?case by (simp add: iter_drain_Nil)
next
  case (Cons fr stack)
  obtain i sel where fr: "fr = (i, sel)" by (cases fr)
  from Cons.prems fr have "acyclicFrom (ctx_fragments ctx) sel" by simp
  from frame_drain[OF assms(1) this, of h tn ek i] Cons show ?case
    unfolding fr by auto
qed

lemma iter_next_total:
  assumes "finite (dom (ctx_fragments ctx))"
    and "\<forall>fr\<in>set stack. acyclicFrom (ctx_fragments ctx) (snd fr)"
  shows "\<exists>r. iter_next h ctx tn ek stack = Some r"
proof -
  from iter_drain_total[OF assms, of h tn ek] obtain ns
    where "iter_drain h ctx tn ek stack = Some ns" by blast
  then show ?thesis
    by (subst (asm) iter_drain.simps) (cases "iter_next h ctx tn ek stack"; simp)
qed

lemma fuel_le_refl [simp]: "fuel_le a a"
  by (simp add: fuel_le_def)

lemma fuel_le_None [simp]: "fuel_le None a"
  by (simp add: fuel_le_def)

lemma fuel_le_trans: "fuel_le a b \<Longrightarrow> fuel_le b c \<Longrightarrow> fuel_le a c"
  by (auto simp: fuel_le_def)

lemma bindR_fuel_le:
  "fuel_le m m' \<Longrightarrow> (\<And>x. fuel_le (g x) (g' x)) \<Longrightarrow> fuel_le (bindR m g) (bindR m' g')"
  by (auto simp: fuel_le_def bindR_def split: option.splits sum.splits)

lemma bindR_fuel_le_prod:
  "fuel_le m m' \<Longrightarrow> (\<And>a b. fuel_le (g a b) (g' a b)) \<Longrightarrow>
   fuel_le (bindR m (case_prod g)) (bindR m' (case_prod g'))"
  by (rule bindR_fuel_le) auto

lemmas read_simps = readSelection.simps readLoop.simps readFieldValue.simps
  resolveResolverResult.simps resolveResolverResults.simps resolveLink.simps resolveLinks.simps

lemma fuel_mono_all:
  "(\<forall>h ctx st ek sel d. fuel_le (readSelection n h ctx st ek sel d)
        (readSelection (Suc n) h ctx st ek sel d)) \<and>
   (\<forall>h ctx st tn ek q stack d hf. fuel_le (readLoop n h ctx st tn ek q stack d hf)
        (readLoop (Suc n) h ctx st tn ek q stack d hf)) \<and>
   (\<forall>h ctx st tn ek nd d. fuel_le (readFieldValue n h ctx st tn ek nd d)
        (readFieldValue (Suc n) h ctx st tn ek nd d)) \<and>
   (\<forall>h ctx st res key sel prev. fuel_le (resolveResolverResult n h ctx st res key sel prev)
        (resolveResolverResult (Suc n) h ctx st res key sel prev)) \<and>
   (\<forall>h ctx st rs i key sel prev. fuel_le (resolveResolverResults n h ctx st rs i key sel prev)
        (resolveResolverResults (Suc n) h ctx st rs i key sel prev)) \<and>
   (\<forall>h ctx st l sel prev. fuel_le (resolveLink n h ctx st l sel prev)
        (resolveLink (Suc n) h ctx st l sel prev)) \<and>
   (\<forall>h ctx st ls i sel prev. fuel_le (resolveLinks n h ctx st ls i sel prev)
        (resolveLinks (Suc n) h ctx st ls i sel prev))"
proof (induction n)
  case 0
  show ?case by simp
next
  case (Suc n)
  have ih1: "\<And>h ctx st ek sel d. fuel_le (readSelection n h ctx st ek sel d)
        (readSelection (Suc n) h ctx st ek sel d)"
    using Suc by auto
  have ih2: "\<And>h ctx st tn ek q stack d hf. fuel_le (readLoop n h ctx st tn ek q stack d hf)
        (readLoop (Suc n) h ctx st tn ek q stack d hf)"
    using Suc by auto
  have ih3: "\<And>h ctx st tn ek nd d. fuel_le (readFieldValue n h ctx st tn ek nd d)
        (readFieldValue (Suc n) h ctx st tn ek nd d)"
    using Suc by auto
  have ih4: "\<And>h ctx st res key sel prev. fuel_le (resolveResolverResult n h ctx st res key sel prev)
        (resolveResolverResult (Suc n) h ctx st res key sel prev)"
    using Suc by auto
  have ih5: "\<And>h ctx st rs i key sel prev. fuel_le (resolveResolverResults n h ctx st rs i key sel prev)
        (resolveResolverResults (Suc n) h ctx st rs i key sel prev)"
    using Suc by auto
  have ih6: "\<And>h ctx st l sel prev. fuel_le (resolveLink n h ctx st l sel prev)
        (resolveLink (Suc n) h ctx st l sel prev)"
    using Suc by auto
  have ih7: "\<And>h ctx st ls i sel prev. fuel_le (resolveLinks n h ctx st ls i sel prev)
        (resolveLinks (Suc n) h ctx st ls i sel prev)"
    using Suc by auto
  have c1: "fuel_le (readSelection (Suc n) h ctx st ek sel d)
        (readSelection (Suc (Suc n)) h ctx st ek sel d)" for h ctx st ek sel d
    unfolding readSelection_Suc
    by (cases "stringOf (entityTypename h ctx ek)")
       (auto simp del: read_simps intro!: bindR_fuel_le ih2)
  have c2: "fuel_le (readLoop (Suc n) h ctx st tn ek q stack d hf)
        (readLoop (Suc (Suc n)) h ctx st tn ek q stack d hf)" for h ctx st tn ek q stack d hf
  proof (cases "iter_next h ctx (Some tn) ek stack")
    case None
    then show ?thesis by simp
  next
    case (Some p)
    obtain ndo stack' where p: "p = (ndo, stack')" by (cases p)
    show ?thesis
    proof (cases ndo)
      case None
      with Some p show ?thesis by simp
    next
      case nd: (Some nd)
      with Some p have it: "iter_next h ctx (Some tn) ek stack = Some (Some nd, stack')" by simp
      show ?thesis
        unfolding readLoop_Suc_node[OF it]
        by (rule bindR_fuel_le[OF ih3])
           (auto simp del: read_simps split: option.splits intro: ih2)
    qed
  qed
  have c3: "fuel_le (readFieldValue (Suc n) h ctx st tn ek nd d)
        (readFieldValue (Suc (Suc n)) h ctx st tn ek nd d)" for h ctx st tn ek nd d
    by (simp only: readFieldValue.simps Let_def)
       (auto simp del: read_simps split: option.splits intro!: bindR_fuel_le ih4 ih6)
  have c4: "fuel_le (resolveResolverResult (Suc n) h ctx st res key sel prev)
        (resolveResolverResult (Suc (Suc n)) h ctx st res key sel prev)"
    for h ctx st res key sel prev
    by (simp only: resolveResolverResult.simps Let_def)
       (auto simp del: read_simps split: option.splits intro!: bindR_fuel_le ih1 ih5)
  have c5: "fuel_le (resolveResolverResults (Suc n) h ctx st rs i key sel prev)
        (resolveResolverResults (Suc (Suc n)) h ctx st rs i key sel prev)"
    for h ctx st rs i key sel prev
  proof (cases rs)
    case Nil
    show ?thesis unfolding Nil resolveResolverResults.simps by (rule fuel_le_refl)
  next
    case (Cons c rs')
    show ?thesis unfolding Cons resolveResolverResults.simps
      by (intro bindR_fuel_le[OF fuel_le_refl] bindR_fuel_le_prod[OF ih4]
            bindR_fuel_le_prod[OF ih5] fuel_le_refl)
  qed
  have c6: "fuel_le (resolveLink (Suc n) h ctx st l sel prev)
        (resolveLink (Suc (Suc n)) h ctx st l sel prev)" for h ctx st l sel prev
    by (cases l; simp only: resolveLink.simps link.case)
       (auto simp del: read_simps intro!: bindR_fuel_le ih1 ih7)
  have c7: "fuel_le (resolveLinks (Suc n) h ctx st ls i sel prev)
        (resolveLinks (Suc (Suc n)) h ctx st ls i sel prev)" for h ctx st ls i sel prev
  proof (cases ls)
    case Nil
    show ?thesis unfolding Nil resolveLinks.simps by (rule fuel_le_refl)
  next
    case (Cons l ls')
    show ?thesis unfolding Cons resolveLinks.simps
      by (intro bindR_fuel_le[OF fuel_le_refl] bindR_fuel_le_prod[OF ih6]
            bindR_fuel_le_prod[OF ih7] fuel_le_refl)
  qed
  show ?case
    using c1 c2 c3 c4 c5 c6 c7 by blast
qed

lemma fuel_le_add:
  assumes "\<And>n. fuel_le (f n) (f (Suc n))"
  shows "fuel_le (f n) (f (n + k))"
proof (induction k)
  case 0
  show ?case by simp
next
  case (Suc k)
  have "fuel_le (f (n + k)) (f (Suc (n + k)))" by (rule assms)
  with Suc have "fuel_le (f n) (f (Suc (n + k)))" by (rule fuel_le_trans)
  then show ?case by simp
qed

lemma fuel_enough:
  assumes "\<And>n. fuel_le (f n) (f (Suc n))" "f n = Some r" "n \<le> m"
  shows "f m = Some r"
proof -
  have "fuel_le (f n) (f (n + (m - n)))" using assms(1) by (rule fuel_le_add[of f n "m - n"])
  with assms(2,3) show ?thesis by (simp add: fuel_le_def)
qed

lemma readSelection_fuel:
  assumes "readSelection n h ctx st ek sel d = Some r" "n \<le> m"
  shows "readSelection m h ctx st ek sel d = Some r"
proof (rule fuel_enough[where f = "\<lambda>n. readSelection n h ctx st ek sel d", OF _ assms])
  fix k
  show "fuel_le (readSelection k h ctx st ek sel d) (readSelection (Suc k) h ctx st ek sel d)"
    using fuel_mono_all[of k] by simp
qed

lemma readLoop_fuel:
  assumes "readLoop n h ctx st tn ek q stack d hf = Some r" "n \<le> m"
  shows "readLoop m h ctx st tn ek q stack d hf = Some r"
proof (rule fuel_enough[where f = "\<lambda>n. readLoop n h ctx st tn ek q stack d hf", OF _ assms])
  fix k
  show "fuel_le (readLoop k h ctx st tn ek q stack d hf) (readLoop (Suc k) h ctx st tn ek q stack d hf)"
    using fuel_mono_all[of k] by simp
qed

lemma readFieldValue_fuel:
  assumes "readFieldValue n h ctx st tn ek nd d = Some r" "n \<le> m"
  shows "readFieldValue m h ctx st tn ek nd d = Some r"
proof (rule fuel_enough[where f = "\<lambda>n. readFieldValue n h ctx st tn ek nd d", OF _ assms])
  fix k
  show "fuel_le (readFieldValue k h ctx st tn ek nd d) (readFieldValue (Suc k) h ctx st tn ek nd d)"
    using fuel_mono_all[of k] by simp
qed

lemma resolveResolverResult_fuel:
  assumes "resolveResolverResult n h ctx st res key sel prev = Some r" "n \<le> m"
  shows "resolveResolverResult m h ctx st res key sel prev = Some r"
proof (rule fuel_enough[where f = "\<lambda>n. resolveResolverResult n h ctx st res key sel prev", OF _ assms])
  fix k
  show "fuel_le (resolveResolverResult k h ctx st res key sel prev) (resolveResolverResult (Suc k) h ctx st res key sel prev)"
    using fuel_mono_all[of k] by simp
qed

lemma resolveResolverResults_fuel:
  assumes "resolveResolverResults n h ctx st rs i key sel prev = Some r" "n \<le> m"
  shows "resolveResolverResults m h ctx st rs i key sel prev = Some r"
proof (rule fuel_enough[where f = "\<lambda>n. resolveResolverResults n h ctx st rs i key sel prev", OF _ assms])
  fix k
  show "fuel_le (resolveResolverResults k h ctx st rs i key sel prev) (resolveResolverResults (Suc k) h ctx st rs i key sel prev)"
    using fuel_mono_all[of k] by simp
qed

lemma resolveLink_fuel:
  assumes "resolveLink n h ctx st l sel prev = Some r" "n \<le> m"
  shows "resolveLink m h ctx st l sel prev = Some r"
proof (rule fuel_enough[where f = "\<lambda>n. resolveLink n h ctx st l sel prev", OF _ assms])
  fix k
  show "fuel_le (resolveLink k h ctx st l sel prev) (resolveLink (Suc k) h ctx st l sel prev)"
    using fuel_mono_all[of k] by simp
qed

lemma resolveLinks_fuel:
  assumes "resolveLinks n h ctx st ls i sel prev = Some r" "n \<le> m"
  shows "resolveLinks m h ctx st ls i sel prev = Some r"
proof (rule fuel_enough[where f = "\<lambda>n. resolveLinks n h ctx st ls i sel prev", OF _ assms])
  fix k
  show "fuel_le (resolveLinks k h ctx st ls i sel prev) (resolveLinks (Suc k) h ctx st ls i sel prev)"
    using fuel_mono_all[of k] by simp
qed

lemma bindR_returns:
  assumes "m = Some a" "\<And>x. a = Inr x \<Longrightarrow> \<exists>y. g x = Some y"
  shows "\<exists>y. bindR m g = Some y"
  using assms by (cases a) (auto simp: bindR_def)

lemma resolveLinks_returns:
  assumes "\<And>l st prev. l \<in> set ls \<Longrightarrow> \<exists>n r. resolveLink n h ctx st l sel prev = Some r"
  shows "\<exists>n r. resolveLinks n h ctx st ls i sel prev = Some r"
  using assms
proof (induction ls arbitrary: st i)
  case Nil
  have "resolveLinks (Suc 0) h ctx st [] i sel prev = Some (Inr ([], st))" by simp
  then show ?case by blast
next
  case (Cons l ls)
  show ?case
  proof (cases "prevDataAt prev i")
    case None
    then show ?thesis by (cases prev) simp_all
  next
    case (Some a)
    show ?thesis
    proof (cases a)
      case (Inl e)
      with Some have "resolveLinks (Suc 0) h ctx st (l # ls) i sel prev = Some (Inl e)" by simp
      then show ?thesis by blast
    next
      case (Inr data)
      from Cons.prems[of l st data] obtain n1 r1 where
        n1: "resolveLink n1 h ctx st l sel data = Some r1" by auto
      show ?thesis
      proof (cases r1)
        case (Inl e)
        with n1 Some Inr
        have "resolveLinks (Suc n1) h ctx st (l # ls) i sel prev = Some (Inl e)" by simp
        then show ?thesis by blast
      next
        case r1: (Inr p)
        obtain v st1 where p: "p = (v, st1)" by (cases p)
        from Cons.IH[of st1 "Suc i"] Cons.prems obtain n2 r2 where
          n2: "resolveLinks n2 h ctx st1 ls (Suc i) sel prev = Some r2" by auto
        let ?N = "max n1 n2"
        from resolveLink_fuel[OF n1, of ?N] r1 p
        have a: "resolveLink ?N h ctx st l sel data = Some (Inr (v, st1))" by simp
        from resolveLinks_fuel[OF n2, of ?N]
        have b: "resolveLinks ?N h ctx st1 ls (Suc i) sel prev = Some r2" by simp
        have "\<exists>y. resolveLinks (Suc ?N) h ctx st (l # ls) i sel prev = Some y"
          unfolding resolveLinks.simps Some Inr bindR_simps a prod.case b
          by (rule bindR_returns[OF refl]) auto
        then show ?thesis by blast
      qed
    qed
  qed
qed

lemma resolveLink_returns:
  assumes "selectionReturns h ctx sel"
  shows "\<exists>n r. resolveLink n h ctx st l sel prev = Some r"
proof (induction l arbitrary: st prev)
  case LNull
  have "resolveLink (Suc 0) h ctx st LNull sel prev = Some (Inr (VNull, st))" by simp
  then show ?case by blast
next
  case (LKey k)
  from assms obtain n r where
    n: "readSelection n h ctx st k sel (dataOrNew prev) = Some r"
    unfolding selectionReturns_def by blast
  have "\<exists>y. resolveLink (Suc n) h ctx st (LKey k) sel prev = Some y"
    unfolding resolveLink_key by (rule bindR_returns[OF n]) auto
  then show ?case by blast
next
  case (LArr ls)
  from resolveLinks_returns[of ls h ctx sel st 0 prev] LArr obtain n r where
    n: "resolveLinks n h ctx st ls 0 sel prev = Some r" by blast
  have "\<exists>y. resolveLink (Suc n) h ctx st (LArr ls) sel prev = Some y"
    unfolding resolveLink.simps link.case by (rule bindR_returns[OF n]) auto
  then show ?case by blast
qed

lemma resolveResolverResults_returns:
  assumes "\<And>c st key prev. c \<in> set rs \<Longrightarrow>
             \<exists>n r. resolveResolverResult n h ctx st c key sel prev = Some r"
  shows "\<exists>n r. resolveResolverResults n h ctx st rs i key sel prev = Some r"
  using assms
proof (induction rs arbitrary: st i)
  case Nil
  have "resolveResolverResults (Suc 0) h ctx st [] i key sel prev = Some (Inr ([], st))" by simp
  then show ?case by blast
next
  case (Cons c rs)
  show ?case
  proof (cases "prevDataAt prev i")
    case None
    then show ?thesis by (cases prev) simp_all
  next
    case (Some a)
    show ?thesis
    proof (cases a)
      case (Inl e)
      with Some
      have "resolveResolverResults (Suc 0) h ctx st (c # rs) i key sel prev = Some (Inl e)"
        by simp
      then show ?thesis by blast
    next
      case (Inr data)
      have "c \<in> set (c # rs)" by simp
      from Cons.prems[OF this, of st "joinKeys key (show_nat i)" data] obtain n1 r1 where
        n1: "resolveResolverResult n1 h ctx st c (joinKeys key (show_nat i)) sel data = Some r1"
        by blast
      show ?thesis
      proof (cases r1)
        case (Inl e)
        with n1 Some Inr
        have "resolveResolverResults (Suc n1) h ctx st (c # rs) i key sel prev = Some (Inl e)"
          by simp
        then show ?thesis by blast
      next
        case r1: (Inr p)
        obtain v st1 where p: "p = (v, st1)" by (cases p)
        have "\<exists>n r. resolveResolverResults n h ctx st1 rs (Suc i) key sel prev = Some r"
          by (rule Cons.IH) (rule Cons.prems, simp)
        then obtain n2 r2 where
          n2: "resolveResolverResults n2 h ctx st1 rs (Suc i) key sel prev = Some r2" by blast
        let ?N = "max n1 n2"
        from resolveResolverResult_fuel[OF n1, of ?N] r1 p
        have a: "resolveResolverResult ?N h ctx st c (joinKeys key (show_nat i)) sel data
                   = Some (Inr (v, st1))" by simp
        from resolveResolverResults_fuel[OF n2, of ?N]
        have b: "resolveResolverResults ?N h ctx st1 rs (Suc i) key sel prev = Some r2" by simp
        have "\<exists>y. resolveResolverResults (Suc ?N) h ctx st (c # rs) i key sel prev = Some y"
          unfolding resolveResolverResults.simps Some Inr bindR_simps a prod.case b
          by (rule bindR_returns[OF refl]) auto
        then show ?thesis by blast
      qed
    qed
  qed
qed

lemma resolveResolverResult_plain_returns:
  assumes "selectionReturns h ctx sel" "arrayOf res = None"
  shows "\<exists>n r. resolveResolverResult n h ctx st res key sel prev = Some r"
proof -
  from assms(1) obtain n r where
    n: "readSelection n h ctx st (childKeyOf (ctx_store ctx) res key) sel (dataOrNew prev) = Some r"
    unfolding selectionReturns_def by blast
  have "\<exists>y. resolveResolverResult (Suc n) h ctx st res key sel prev = Some y"
    unfolding resolveResolverResult.simps assms(2) option.case n
    by (cases r) auto
  then show ?thesis by blast
qed

lemma resolveResolverResult_returns:
  assumes "selectionReturns h ctx sel"
  shows "\<exists>n r. resolveResolverResult n h ctx st res key sel prev = Some r"
proof (induction res arbitrary: st key prev)
  case (VArr rs)
  from resolveResolverResults_returns[of rs h ctx sel st 0 key prev] VArr obtain n r where
    n: "resolveResolverResults n h ctx st rs 0 key sel prev = Some r" by blast
  have "\<exists>y. resolveResolverResult (Suc n) h ctx st (VArr rs) key sel prev = Some y"
    unfolding resolveResolverResult.simps arrayOf.simps option.case
    by (rule bindR_returns[OF n]) auto
  then show ?case by blast
qed (rule resolveResolverResult_plain_returns[OF assms], simp)+

lemma readFieldValue_returns:
  assumes "selectionReturns h ctx (getSelectionSet nd)"
  shows "\<exists>n r. readFieldValue n h ctx st tn ek nd d = Some r"
proof -
  let ?fa = "getFieldArguments h nd (ctx_variables ctx)"
  let ?fk = "joinKeys ek (keyOfField h (getName nd) ?fa)"
  let ?fv = "getRecord (ctx_store ctx) ?fk"
  show ?thesis
  proof (cases "resolvers (ctx_store ctx) tn (getName nd)")
    case (Some resolver)
    let ?d1 = "if ?fv \<noteq> VUndefined then setProp d (getFieldAlias nd) ?fv else d"
    let ?rv = "resolver ?d1 (case ?fa of None \<Rightarrow> [] | Some args \<Rightarrow> args)"
    from resolveResolverResult_returns[OF assms] obtain n r where
      n: "resolveResolverResult n h ctx st ?rv ?fk (getSelectionSet nd)
            (getProp ?d1 (getFieldAlias nd)) = Some r" by blast
    have "\<exists>y. readFieldValue (Suc n) h ctx st tn ek nd d = Some y"
      unfolding readFieldValue.simps Let_def Some option.case n
      by (cases r) auto
    then show ?thesis by blast
  next
    case None
    show ?thesis
    proof (cases "getLink (ctx_store ctx) ?fk")
      case no_link: None
      have "\<exists>y. readFieldValue (Suc 0) h ctx st tn ek nd d = Some y"
        unfolding readFieldValue.simps Let_def None no_link option.case
        by auto
      then show ?thesis by blast
    next
      case (Some l)
      from resolveLink_returns[OF assms] obtain n r where
        n: "resolveLink n h ctx st l (getSelectionSet nd) (getProp d (getFieldAlias nd)) = Some r"
        by blast
      have "\<exists>y. readFieldValue (Suc n) h ctx st tn ek nd d = Some y"
        unfolding readFieldValue.simps Let_def None Some option.case n
        by (cases r) auto
      then show ?thesis by blast
    qed
  qed
qed

lemma iter_drain_NilE:
  assumes "iter_drain h ctx tn ek s = Some []"
  shows "\<exists>s'. iter_next h ctx tn ek s = Some (None, s')"
  using assms
  by (subst (asm) iter_drain.simps) (auto simp: bind_eq_Some_conv split: option.splits)

lemma iter_drain_ConsE:
  assumes "iter_drain h ctx tn ek s = Some (nd # ns)"
  shows "\<exists>s'. iter_next h ctx tn ek s = Some (Some nd, s') \<and> iter_drain h ctx tn ek s' = Some ns"
  using assms
  by (subst (asm) iter_drain.simps) (auto simp: bind_eq_Some_conv split: option.splits)

lemma readLoop_returns:
  assumes "iter_drain h ctx (Some tn) ek stack = Some ns"
    and "\<forall>nd\<in>set ns. selectionReturns h ctx (getSelectionSet nd)"
  shows "\<exists>n r. readLoop n h ctx st tn ek q stack d hf = Some r"
  using assms
proof (induction ns arbitrary: stack st d hf)
  case Nil
  from iter_drain_NilE[OF Nil(1)] obtain s' where
    "iter_next h ctx (Some tn) ek stack = Some (None, s')" by blast
  from readLoop_Suc_done[OF this, of 0] show ?case by blast
next
  case (Cons nd ns)
  from iter_drain_ConsE[OF Cons.prems(1)] obtain s' where
    nx: "iter_next h ctx (Some tn) ek stack = Some (Some nd, s')"
    and dr: "iter_drain h ctx (Some tn) ek s' = Some ns" by blast
  from Cons.prems(2) have sub: "selectionReturns h ctx (getSelectionSet nd)" by simp
  from Cons.prems(2) have rest: "\<forall>nd\<in>set ns. selectionReturns h ctx (getSelectionSet nd)"
    by simp
  note ih = Cons.IH[OF dr rest]
  from readFieldValue_returns[OF sub] obtain n1 r1 where
    n1: "readFieldValue n1 h ctx (loopState h ctx ek q nd st) tn ek nd d = Some r1" by blast
  show ?case
  proof (cases r1)
    case (Inl e)
    have "readLoop (Suc n1) h ctx st tn ek q stack d hf = Some (Inl e)"
      unfolding readLoop_Suc_node[OF nx] n1 Inl by simp
    then show ?thesis by blast
  next
    case (Inr p)
    obtain v d1 st2 where p: "p = (v, d1, st2)" by (cases p)
    let ?st3 = "case ctx_schemaPredicates ctx of Some sp \<Rightarrow> st2\<lparr>partial := True\<rparr> | None \<Rightarrow> st2"
    let ?d3 = "case ctx_schemaPredicates ctx of
                 Some sp \<Rightarrow> setProp d1 (getFieldAlias nd) VNull
               | None \<Rightarrow> setProp d1 (getFieldAlias nd) v"
    from ih[of ?st3 ?d3 True] obtain n2 r2 where
      n2: "readLoop n2 h ctx ?st3 tn ek q s' ?d3 True = Some r2" by blast
    let ?N = "max n1 n2"
    from readFieldValue_fuel[OF n1, of ?N] Inr p
    have a: "readFieldValue ?N h ctx (loopState h ctx ek q nd st) tn ek nd d
               = Some (Inr (v, d1, st2))" by simp
    from readLoop_fuel[OF n2, of ?N]
    have b: "readLoop ?N h ctx ?st3 tn ek q s' ?d3 True = Some r2" by simp
    have "\<exists>y. readLoop (Suc ?N) h ctx st tn ek q stack d hf = Some y"
      unfolding readLoop_Suc_node[OF nx] a bindR_simps prod.case
      using b by (cases "ctx_schemaPredicates ctx") auto
    then show ?thesis by blast
  qed
qed

lemma selectionReturns_all:
  assumes fin: "finite (dom (ctx_fragments ctx))"
  shows "acyclicFrom (ctx_fragments ctx) sel \<Longrightarrow> selectionReturns h ctx sel"
proof (induction sel rule: wf_induct_rule[OF wf_selOrder[of "ctx_fragments ctx"]])
  case (1 sel)
  note acyc = 1(2)
  show ?case unfolding selectionReturns_def
  proof (intro allI)
    fix st ek data
    let ?store = "ctx_store ctx"
    let ?q = "ek = getRootKey ?store OpQuery"
    let ?st1 = "if \<not> ?q then addDependency ek st else st"
    let ?tv = "if ?q then VStr (getRootKey ?store OpQuery) else getField h ?store ek ''__typename''"
    show "\<exists>n r. readSelection n h ctx st ek sel data = Some r"
    proof (cases "stringOf ?tv")
      case None
      have "\<exists>y. readSelection (Suc 0) h ctx st ek sel data = Some y"
        unfolding readSelection.simps Let_def None by simp
      then show ?thesis by blast
    next
      case (Some t)
      show ?thesis
      proof -
        obtain a where ad: "asData data = Some a" by (cases data) simp_all
        show ?thesis
        proof (cases a)
          case (Inl e)
          have "readSelection (Suc 0) h ctx st ek sel data = Some (Inl e)"
            unfolding readSelection.simps Let_def \<open>stringOf ?tv = Some t\<close> ad Inl by simp
          then show ?thesis by blast
        next
          case (Inr d)
          from frame_drain[OF fin acyc, of h "Some t" ek 0] obtain ns where
            sm: "\<forall>nd\<in>set ns. (getSelectionSet nd, sel) \<in> selOrder (ctx_fragments ctx)"
            and dr: "\<forall>rest. iter_drain h ctx (Some t) ek ((0, sel) # rest)
                      = map_option ((@) ns) (iter_drain h ctx (Some t) ek rest)" by blast
          from dr[rule_format, of "[]"]
          have d0: "iter_drain h ctx (Some t) ek (iter_init sel) = Some ns"
            by (simp add: iter_init_def iter_drain_Nil)
          from sm 1(1) acyclicFrom_less[OF _ acyc]
          have "\<forall>nd\<in>set ns. selectionReturns h ctx (getSelectionSet nd)" by blast
          from readLoop_returns[OF d0 this, of ?st1 ?q "setProp d ''__typename'' (VStr t)" False]
          obtain n r where
            n: "readLoop n h ctx ?st1 t ek ?q (iter_init sel)
                  (setProp d ''__typename'' (VStr t)) False = Some r" by blast
          have "readSelection (Suc n) h ctx st ek sel data = Some r"
            unfolding readSelection.simps Let_def \<open>stringOf ?tv = Some t\<close> ad Inr
            using n by simp
          then show ?thesis by blast
        qed
      qed
    qed
  qed
qed

lemmas readRoot_simps = readRoot.simps readRootLoop.simps readRootField.simps
  readRootFields.simps

lemma readSelection_fuel_step:
  "fuel_le (readSelection n h ctx st ek sel d) (readSelection (Suc n) h ctx st ek sel d)"
  using fuel_mono_all[of n] by simp

lemma root_fuel_mono_all:
  "(\<forall>h ctx st ek sel d. fuel_le (readRoot n h ctx st ek sel d)
        (readRoot (Suc n) h ctx st ek sel d)) \<and>
   (\<forall>h ctx st ek stack inp acc. fuel_le (readRootLoop n h ctx st ek stack inp acc)
        (readRootLoop (Suc n) h ctx st ek stack inp acc)) \<and>
   (\<forall>h ctx st sel v. fuel_le (readRootField n h ctx st sel v)
        (readRootField (Suc n) h ctx st sel v)) \<and>
   (\<forall>h ctx st sel xs. fuel_le (readRootFields n h ctx st sel xs)
        (readRootFields (Suc n) h ctx st sel xs))"
proof (induction n)
  case 0
  show ?case by simp
next
  case (Suc n)
  have ih1: "\<And>h ctx st ek sel d. fuel_le (readRoot n h ctx st ek sel d)
        (readRoot (Suc n) h ctx st ek sel d)"
    using Suc by auto
  have ih2: "\<And>h ctx st ek stack inp acc. fuel_le (readRootLoop n h ctx st ek stack inp acc)
        (readRootLoop (Suc n) h ctx st ek stack inp acc)"
    using Suc by auto
  have ih3: "\<And>h ctx st sel v. fuel_le (readRootField n h ctx st sel v)
        (readRootField (Suc n) h ctx st sel v)"
    using Suc by auto
  have ih4: "\<And>h ctx st sel xs. fuel_le (readRootFields n h ctx st sel xs)
        (readRootFields (Suc n) h ctx st sel xs)"
    using Suc by auto
  have c1: "fuel_le (readRoot (Suc n) h ctx st ek sel d)
        (readRoot (Suc (Suc n)) h ctx st ek sel d)" for h ctx st ek sel d
    by (simp only: readRoot.simps) (auto simp del: readRoot_simps intro: ih2)
  have c2: "fuel_le (readRootLoop (Suc n) h ctx st ek stack inp acc)
        (readRootLoop (Suc (Suc n)) h ctx st ek stack inp acc)" for h ctx st ek stack inp acc
  proof (cases "iter_next h ctx (Some ek) ek stack")
    case None
    then show ?thesis by simp
  next
    case (Some p)
    obtain ndo stack' where p: "p = (ndo, stack')" by (cases p)
    show ?thesis
    proof (cases ndo)
      case None
      with Some p show ?thesis by simp
    next
      case nd: (Some nd)
      with Some p have it: "iter_next h ctx (Some ek) ek stack = Some (Some nd, stack')" by simp
      show ?thesis
      proof (cases "copied inp nd")
        case True
        show ?thesis unfolding readRootLoop_Suc_copy[OF it True] by (rule ih2)
      next
        case False
        show ?thesis unfolding readRootLoop_Suc_recurse[OF it False]
          by (intro bindR_fuel_le_prod[OF ih3] ih2)
      qed
    qed
  qed
  have c3: "fuel_le (readRootField (Suc n) h ctx st sel v)
        (readRootField (Suc (Suc n)) h ctx st sel v)" for h ctx st sel v
    by (simp only: readRootField.simps)
       (auto simp del: readRoot_simps read_simps split: option.splits
             intro!: bindR_fuel_le ih1 ih4 readSelection_fuel_step)
  have c4: "fuel_le (readRootFields (Suc n) h ctx st sel xs)
        (readRootFields (Suc (Suc n)) h ctx st sel xs)" for h ctx st sel xs
  proof (cases xs)
    case Nil
    show ?thesis unfolding Nil readRootFields.simps by (rule fuel_le_refl)
  next
    case (Cons x xs')
    show ?thesis unfolding Cons readRootFields.simps
      by (intro bindR_fuel_le_prod[OF ih3] bindR_fuel_le_prod[OF ih4] fuel_le_refl)
  qed
  show ?case
    using c1 c2 c3 c4 by blast
qed

lemma readRoot_fuel:
  assumes "readRoot n h ctx st ek sel d = Some r" "n \<le> m"
  shows "readRoot m h ctx st ek sel d = Some r"
proof (rule fuel_enough[where f = "\<lambda>n. readRoot n h ctx st ek sel d", OF _ assms])
  fix k
  show "fuel_le (readRoot k h ctx st ek sel d) (readRoot (Suc k) h ctx st ek sel d)"
    using root_fuel_mono_all[of k] by simp
qed

lemma readRootLoop_fuel:
  assumes "readRootLoop n h ctx st ek stack inp acc = Some r" "n \<le> m"
  shows "readRootLoop m h ctx st ek stack inp acc = Some r"
proof (rule fuel_enough[where f = "\<lambda>n. readRootLoop n h ctx st ek stack inp acc", OF _ assms])
  fix k
  show "fuel_le (readRootLoop k h ctx st ek stack inp acc)
          (readRootLoop (Suc k) h ctx st ek stack inp acc)"
    using root_fuel_mono_all[of k] by simp
qed

lemma readRootField_fuel:
  assumes "readRootField n h ctx st sel v = Some r" "n \<le> m"
  shows "readRootField m h ctx st sel v = Some r"
proof (rule fuel_enough[where f = "\<lambda>n. readRootField n h ctx st sel v", OF _ assms])
  fix k
  show "fuel_le (readRootField k h ctx st sel v) (readRootField (Suc k) h ctx st sel v)"
    using root_fuel_mono_all[of k] by simp
qed

lemma readRootFields_fuel:
  assumes "readRootFields n h ctx st sel xs = Some r" "n \<le> m"
  shows "readRootFields m h ctx st sel xs = Some r"
proof (rule fuel_enough[where f = "\<lambda>n. readRootFields n h ctx st sel xs", OF _ assms])
  fix k
  show "fuel_le (readRootFields k h ctx st sel xs) (readRootFields (Suc k) h ctx st sel xs)"
    using root_fuel_mono_all[of k] by simp
qed

lemma readRootFields_returns:
  assumes "\<And>x st. x \<in> set xs \<Longrightarrow> \<exists>n r. readRootField n h ctx st sel x = Some r"
  shows "\<exists>n r. readRootFields n h ctx st sel xs = Some r"
  using assms
proof (induction xs arbitrary: st)
  case Nil
  have "readRootFields (Suc 0) h ctx st sel [] = Some (Inr ([], st))" by simp
  then show ?case by blast
next
  case (Cons x xs)
  have "x \<in> set (x # xs)" by simp
  from Cons.prems[OF this, of st] obtain n1 r1 where
    n1: "readRootField n1 h ctx st sel x = Some r1" by blast
  show ?case
  proof (cases r1)
    case (Inl e)
    with n1 have "readRootFields (Suc n1) h ctx st sel (x # xs) = Some (Inl e)" by simp
    then show ?thesis by blast
  next
    case r1: (Inr p)
    obtain v st1 where p: "p = (v, st1)" by (cases p)
    have "\<exists>n r. readRootFields n h ctx st1 sel xs = Some r"
      by (rule Cons.IH) (rule Cons.prems, simp)
    then obtain n2 r2 where n2: "readRootFields n2 h ctx st1 sel xs = Some r2" by blast
    let ?N = "max n1 n2"
    from readRootField_fuel[OF n1, of ?N] r1 p
    have a: "readRootField ?N h ctx st sel x = Some (Inr (v, st1))" by simp
    from readRootFields_fuel[OF n2, of ?N]
    have b: "readRootFields ?N h ctx st1 sel xs = Some r2" by simp
    have "\<exists>y. readRootFields (Suc ?N) h ctx st sel (x # xs) = Some y"
      unfolding readRootFields.simps a bindR_simps prod.case b
      by (rule bindR_returns[OF refl]) auto
    then show ?thesis by blast
  qed
qed

lemma readRootField_plain_returns:
  assumes "selectionReturns h ctx sel" "rootReturns h ctx sel" "arrayOf v = None"
  shows "\<exists>n r. readRootField n h ctx st sel v = Some r"
proof (cases "objectOf v")
  case None
  have "\<exists>y. readRootField (Suc 0) h ctx st sel v = Some y"
    unfolding readRootField.simps assms(3) None option.case by auto
  then show ?thesis by blast
next
  case (Some d)
  show ?thesis
  proof (cases "keyOfEntity (ctx_store ctx) d")
    case (Some k)
    from assms(1) obtain n r where n: "readSelection n h ctx st k sel (VObj []) = Some r"
      unfolding selectionReturns_def by blast
    have "\<exists>y. readRootField (Suc n) h ctx st sel v = Some y"
      unfolding readRootField.simps assms(3) \<open>objectOf v = Some d\<close> Some option.case n
      by (cases r) auto
    then show ?thesis by blast
  next
    case None
    show ?thesis
    proof (cases "stringOf (getProp d ''__typename'')")
      case no: None
      have "\<exists>y. readRootField (Suc 0) h ctx st sel v = Some y"
        unfolding readRootField.simps assms(3) \<open>objectOf v = Some d\<close> None no option.case
        by auto
      then show ?thesis by blast
    next
      case (Some t)
      from assms(2) obtain n r where n: "readRoot n h ctx st t sel d = Some r"
        unfolding rootReturns_def by blast
      have "\<exists>y. readRootField (Suc n) h ctx st sel v = Some y"
        unfolding readRootField.simps assms(3) \<open>objectOf v = Some d\<close> None Some option.case n
        by (cases r) auto
      then show ?thesis by blast
    qed
  qed
qed

lemma readRootField_returns:
  assumes "selectionReturns h ctx sel" "rootReturns h ctx sel"
  shows "\<exists>n r. readRootField n h ctx st sel v = Some r"
proof (induction v arbitrary: st)
  case (VArr xs)
  from readRootFields_returns[of xs h ctx sel st] VArr obtain n r where
    n: "readRootFields n h ctx st sel xs = Some r" by blast
  have "\<exists>y. readRootField (Suc n) h ctx st sel (VArr xs) = Some y"
    unfolding readRootField.simps arrayOf.simps option.case
    by (rule bindR_returns[OF n]) auto
  then show ?case by blast
qed (rule readRootField_plain_returns[OF assms], simp)+

lemma readRootLoop_returns:
  assumes "iter_drain h ctx (Some ek) ek stack = Some ns"
    and "\<forall>nd\<in>set ns. selectionReturns h ctx (getSelectionSet nd)
                       \<and> rootReturns h ctx (getSelectionSet nd)"
  shows "\<exists>n r. readRootLoop n h ctx st ek stack inp acc = Some r"
  using assms
proof (induction ns arbitrary: stack st acc)
  case Nil
  from iter_drain_NilE[OF Nil(1)] obtain s' where
    "iter_next h ctx (Some ek) ek stack = Some (None, s')" by blast
  from readRootLoop_Suc_done[OF this, of 0] show ?case by blast
next
  case (Cons nd ns)
  from iter_drain_ConsE[OF Cons.prems(1)] obtain s' where
    nx: "iter_next h ctx (Some ek) ek stack = Some (Some nd, s')"
    and dr: "iter_drain h ctx (Some ek) ek s' = Some ns" by blast
  from Cons.prems(2) have sub: "selectionReturns h ctx (getSelectionSet nd)"
    "rootReturns h ctx (getSelectionSet nd)" by simp_all
  from Cons.prems(2) have rest: "\<forall>nd\<in>set ns. selectionReturns h ctx (getSelectionSet nd)
                       \<and> rootReturns h ctx (getSelectionSet nd)"
    by simp
  note ih = Cons.IH[OF dr rest]
  show ?case
  proof (cases "copied inp nd")
    case True
    from ih obtain n r where
      "readRootLoop n h ctx st ek s' inp
         (setProp acc (getFieldAlias nd) (getProp inp (getFieldAlias nd))) = Some r" by blast
    then have "readRootLoop (Suc n) h ctx st ek stack inp acc = Some r"
      unfolding readRootLoop_Suc_copy[OF nx True] .
    then show ?thesis by blast
  next
    case False
    from readRootField_returns[OF sub] obtain n1 r1 where
      n1: "readRootField n1 h ctx st (getSelectionSet nd) (getProp inp (getFieldAlias nd))
             = Some r1" by blast
    show ?thesis
    proof (cases r1)
      case (Inl e)
      have "readRootLoop (Suc n1) h ctx st ek stack inp acc = Some (Inl e)"
        unfolding readRootLoop_Suc_recurse[OF nx False] n1 Inl by simp
      then show ?thesis by blast
    next
      case (Inr p)
      obtain v st1 where p: "p = (v, st1)" by (cases p)
      from ih obtain n2 r2 where
        n2: "readRootLoop n2 h ctx st1 ek s' inp (setProp acc (getFieldAlias nd) v) = Some r2"
        by blast
      let ?N = "max n1 n2"
      from readRootField_fuel[OF n1, of ?N] Inr p
      have a: "readRootField ?N h ctx st (getSelectionSet nd) (getProp inp (getFieldAlias nd))
                 = Some (Inr (v, st1))" by simp
      from readRootLoop_fuel[OF n2, of ?N]
      have b: "readRootLoop ?N h ctx st1 ek s' inp (setProp acc (getFieldAlias nd) v) = Some r2"
        by simp
      have "readRootLoop (Suc ?N) h ctx st ek stack inp acc = Some r2"
        unfolding readRootLoop_Suc_recurse[OF nx False] a bindR_simps prod.case b ..
      then show ?thesis by blast
    qed
  qed
qed

lemma rootReturns_all:
  assumes fin: "finite (dom (ctx_fragments ctx))"
  shows "acyclicFrom (ctx_fragments ctx) sel \<Longrightarrow> rootReturns h ctx sel"
proof (induction sel rule: wf_induct_rule[OF wf_selOrder[of "ctx_fragments ctx"]])
  case (1 sel)
  note acyc = 1(2)
  show ?case unfolding rootReturns_def
  proof (intro allI)
    fix st ek d
    show "\<exists>n r. readRoot n h ctx st ek sel d = Some r"
    proof (cases "isString (getProp d ''__typename'')")
      case False
      then have "readRoot (Suc 0) h ctx st ek sel d = Some (Inr (d, st))" by simp
      then show ?thesis by blast
    next
      case True
      from frame_drain[OF fin acyc, of h "Some ek" ek 0] obtain ns where
        sm: "\<forall>nd\<in>set ns. (getSelectionSet nd, sel) \<in> selOrder (ctx_fragments ctx)"
        and dr: "\<forall>rest. iter_drain h ctx (Some ek) ek ((0, sel) # rest)
                  = map_option ((@) ns) (iter_drain h ctx (Some ek) ek rest)" by blast
      from dr[rule_format, of "[]"]
      have d0: "iter_drain h ctx (Some ek) ek (iter_init sel) = Some ns"
        by (simp add: iter_init_def iter_drain_Nil)
      from sm 1(1) acyclicFrom_less[OF _ acyc] selectionReturns_all[OF fin]
      have "\<forall>nd\<in>set ns. selectionReturns h ctx (getSelectionSet nd)
                       \<and> rootReturns h ctx (getSelectionSet nd)" by blast
      from readRootLoop_returns[OF d0 this] obtain n r where
        n: "readRootLoop n h ctx st ek (iter_init sel) d
              (setProp [] ''__typename'' (getProp d ''__typename'')) = Some r" by blast
      have "readRoot (Suc n) h ctx st ek sel d = Some r"
        using True n by simp
      then show ?thesis by blast
    qed
  qed
qed

lemma read_returns:
  assumes "finite (dom (req_fragments request))"
    and "acyclicFrom (req_fragments request) (req_selectionSet request)"
  shows "\<exists>n r. read n h s request input deps = Some r"
proof -
  let ?ctx = "makeContext s request"
  let ?st = "\<lparr> partial = False, dependencies = deps \<rparr>"
  have f: "finite (dom (ctx_fragments ?ctx))"
    "acyclicFrom (ctx_fragments ?ctx) (req_selectionSet request)"
    using assms by (simp_all add: makeContext_def)
  show ?thesis
  proof (cases input)
    case None
    from selectionReturns_all[OF f, of h] obtain n r where
      n: "readSelection n h ?ctx ?st (getRootKey s (req_operation request))
            (req_selectionSet request) (VObj []) = Some r"
      unfolding selectionReturns_def by blast
    have "\<exists>y. read n h s request input deps = Some y"
      unfolding read_def Let_def None option.case n by (cases r) auto
    then show ?thesis by blast
  next
    case (Some d)
    from rootReturns_all[OF f, of h] obtain n r where
      n: "readRoot n h ?ctx ?st (getRootKey s (req_operation request))
            (req_selectionSet request) d = Some r"
      unfolding rootReturns_def by blast
    have "\<exists>y. read n h s request input deps = Some y"
      unfolding read_def Let_def Some option.case n by (cases r) auto
    then show ?thesis by blast
  qed
qed

lemma fragment_request_refs:
  "fragmentRefs (req_fragments fragment_request) = {(''TodoId'', ''TodoFields'')}"
  by (auto simp: fragmentRefs_def fragment_request_def selectionRefs_def split: if_splits)

lemma fragment_request_acyclic:
  "acyclicFrom (req_fragments fragment_request) (req_selectionSet fragment_request)"
  unfolding acyclicFrom_def fragment_request_refs
proof (intro ballI notI)
  fix f
  assume "(f, f) \<in> {(''TodoId'', ''TodoFields'')}\<^sup>+"
  from tranclD[OF this] tranclD2[OF this] show False by auto
qed

text \<open>
  C9: for a request whose fragment map is finite and whose selection set has acyclic
  fragment references through that map, the calls to \<open>SelectionIterator.next\<close> on the
  selection set all return and after finitely many of them return \<open>undefined\<close>, for every
  typename and entity key; and \<open>read\<close>, with or without prior data, returns: some amount
  of fuel is enough for its traversal, which therefore takes finitely many steps.
\<close>

theorem read_traversal_terminates:
  assumes "finite (dom (req_fragments request))"
    and "acyclicFrom (req_fragments request) (req_selectionSet request)"
  shows "(\<exists>ns. iter_drain h (makeContext s request) tn ek (iter_init (req_selectionSet request))
                 = Some ns)
         \<and> (\<exists>n r. read n h s request input deps = Some r)"
proof
  have "finite (dom (ctx_fragments (makeContext s request)))"
    using assms(1) by (simp add: makeContext_def)
  moreover have "\<forall>fr\<in>set (iter_init (req_selectionSet request)).
      acyclicFrom (ctx_fragments (makeContext s request)) (snd fr)"
    using assms(2) by (simp add: makeContext_def iter_init_def)
  ultimately show "\<exists>ns. iter_drain h (makeContext s request) tn ek
      (iter_init (req_selectionSet request)) = Some ns"
    by (rule iter_drain_total)
  show "\<exists>n r. read n h s request input deps = Some r"
    using assms by (rule read_returns)
qed

theorem read_traversal_terminates_witness:
  "finite (dom (req_fragments fragment_request))
   \<and> acyclicFrom (req_fragments fragment_request) (req_selectionSet fragment_request)
   \<and> (\<exists>ns. iter_drain plain_helpers (makeContext linked_store fragment_request) (Some ''Query'')
              ''Query'' (iter_init (req_selectionSet fragment_request)) = Some ns)
   \<and> (\<exists>n r. read n plain_helpers linked_store fragment_request None {} = Some r)"
proof -
  have f: "finite (dom (req_fragments fragment_request))"
    by (simp add: fragment_request_def)
  from read_traversal_terminates[OF f fragment_request_acyclic] f fragment_request_acyclic
  show ?thesis by blast
qed

section \<open>The populate transform on the documents of its tests\<close>

lemma show_nat_digits:
  "show_nat 0 = ''0''" "show_nat (Suc 0) = ''1''" "show_nat (Suc (Suc 0)) = ''2''"
  by code_simp+

lemmas populate_defs = show_nat_digits populateExchange_def initial_state_def handleQuery_def handleTeardown_def
  extractDocument_def fieldTypeIn_def isObjectType_def addFragment_def fragmentName_def
  rewriteDocument_def documentFragments_def requiredUserFragments_def populatedSelection_def
  populatedFragments_def liveFragments_def isLive_def isPopulate_def typenameField_def
  firstOccurrences_def test_schema_def default_rootFields_def leaf_def Let_def

text \<open>
  The model gives the snapshots of the tests: a mutation before any query, a query with
  nested selection sets, a query and a mutation with user fragments, a mutation that
  returns an interface, one that returns a union, and a mutation after a teardown.
\<close>

lemma populate_without_queries:
  "populateExchange test_schema [MutationOperation 1234 (populate_mutation ''addTodo'')]
   = [MutationOperation 1234
        \<lparr> doc_operation = OpMutation, doc_name = Some ''MyMutation'',
          doc_selectionSet = [Field None ''addTodo'' [] [] (Some [leaf ''__typename''])],
          doc_fragments = [] \<rparr>]"
  by (simp add: populate_defs populate_mutation_def del: show_nat.simps)

lemma populate_nested:
  "populateExchange test_schema
     [QueryOperation 1234 nested_query, MutationOperation 5678 (populate_mutation ''addTodo'')] ! 1
   = MutationOperation 5678
        \<lparr> doc_operation = OpMutation, doc_name = Some ''MyMutation'',
          doc_selectionSet =
            [Field None ''addTodo'' [] []
               (Some [FragmentSpread ''Todo_PopulateFragment_0'' [],
                      FragmentSpread ''Todo_PopulateFragment_1'' []])],
          doc_fragments =
            [FragmentDefinition ''Todo_PopulateFragment_0'' (Some ''Todo'') []
               [leaf ''id'', leaf ''text'',
                Field None ''creator'' [] [] (Some [leaf ''id'', leaf ''name''])],
             FragmentDefinition ''Todo_PopulateFragment_1'' (Some ''Todo'') []
               [leaf ''text'']] \<rparr>"
  by (simp add: populate_defs populate_mutation_def nested_query_def del: show_nat.simps)

lemma populate_user_fragments:
  "populateExchange test_schema
     [QueryOperation 1234 fragment_query, MutationOperation 5678 fragment_mutation] ! 1
   = MutationOperation 5678
        \<lparr> doc_operation = OpMutation, doc_name = Some ''MyMutation'',
          doc_selectionSet =
            [Field None ''addTodo'' [] []
               (Some [FragmentSpread ''Todo_PopulateFragment_0'' [],
                      FragmentSpread ''TodoFragment'' []])],
          doc_fragments =
            [FragmentDefinition ''TodoFragment'' (Some ''Todo'') [] [leaf ''id'', leaf ''text''],
             FragmentDefinition ''Todo_PopulateFragment_0'' (Some ''Todo'') []
               [FragmentSpread ''TodoFragment'' [],
                Field None ''creator'' [] [] (Some [FragmentSpread ''CreatorFragment'' []])],
             FragmentDefinition ''CreatorFragment'' (Some ''User'') []
               [leaf ''id'', leaf ''name'']] \<rparr>"
  by (simp add: populate_defs fragment_mutation_def fragment_query_def del: show_nat.simps)



lemma populate_after_teardown:
  "populateExchange test_schema
     [QueryOperation 1234 todos_users_query, TeardownOperation 1234,
      MutationOperation 5678 (populate_mutation ''addTodo'')] ! 2
   = MutationOperation 5678
        \<lparr> doc_operation = OpMutation, doc_name = Some ''MyMutation'',
          doc_selectionSet = [Field None ''addTodo'' [] [] (Some [leaf ''__typename''])],
          doc_fragments = [] \<rparr>"
  by (simp add: populate_defs populate_mutation_def todos_users_query_def del: show_nat.simps)

section \<open>Order of the populated fragments\<close>

















section \<open>Teardown and empty populate\<close>

lemma state_populateFrom_append:
  "snd (populateFrom sch st (xs @ ys)) = snd (populateFrom sch (snd (populateFrom sch st xs)) ys)"
  by (induction xs arbitrary: st) (simp_all add: split_beta)

lemma set_firstOccurrences [simp]: "set (firstOccurrences xs) = set xs"
  by (simp add: firstOccurrences_def)

lemma populatedFragments_live:
  "f \<in> set (populatedFragments sch st parent n) \<Longrightarrow> isLive st f"
  by (auto simp: populatedFragments_def liveFragments_def split: option.splits)

lemma usedFragments_live:
  "f \<in> set (usedFragments sch st parent nd) \<Longrightarrow> isLive st f"
  by (induction sch st parent nd rule: usedFragments.induct)
     (auto dest: populatedFragments_live split: if_splits)

lemma documentFragments_live:
  "f \<in> set (documentFragments sch st doc) \<Longrightarrow> isLive st f"
  by (auto simp: documentFragments_def dest: usedFragments_live)

lemma inactive_step:
  "activeQueries st key = None \<Longrightarrow> \<not> isQueryOf key op \<Longrightarrow>
   activeQueries (snd (populateStep sch st op)) key = None"
  by (cases op) (auto simp: handleQuery_def handleTeardown_def Let_def)

lemma inactive_populateFrom:
  "activeQueries st key = None \<Longrightarrow> \<not> list_ex (isQueryOf key) ops \<Longrightarrow>
   activeQueries (snd (populateFrom sch st ops)) key = None"
proof (induction ops arbitrary: st)
  case Nil
  then show ?case by simp
next
  case (Cons op ops)
  from Cons.prems have "\<not> isQueryOf key op" "\<not> list_ex (isQueryOf key) ops" by simp_all
  from Cons.IH[OF inactive_step[OF Cons.prems(1) this(1), of sch] this(2)] show ?case
    by (simp add: split_beta)
qed

lemma inactive_after_teardown:
  assumes "\<not> list_ex (isQueryOf key) later"
  shows "activeQueries (stateAfter sch (earlier @ TeardownOperation key # later)) key = None"
proof -
  have "activeQueries (snd (populateStep sch st (TeardownOperation key))) key = None" for st
    by (simp add: handleTeardown_def)
  from inactive_populateFrom[OF this assms] show ?thesis
    by (simp add: stateAfter_def state_populateFrom_append split_beta)
qed

lemma rewriteNode_spreads:
  "set (spreadNames (rewriteNode sch st parent nd))
     \<subseteq> set (spreadNames nd) \<union> pf_name ` set (usedFragments sch st parent nd)"
proof (induction sch st parent nd rule: rewriteNode.induct)
  case (2 sch st parent a n args ds sel)
  have "set (concat (map spreadNames (map (rewriteNode sch st (fieldTypeIn sch parent n)) sel)))
          \<subseteq> set (concat (map spreadNames sel))
            \<union> pf_name ` set (concat (map (usedFragments sch st (fieldTypeIn sch parent n)) sel))"
    using 2 by fastforce
  then show ?case
    by (auto simp: populatedSelection_def typenameField_def Let_def)
next
  case (4 sch st parent tc ds sel)
  then show ?case by fastforce
next
  case (5 sch st parent n tc ds sel)
  then show ?case by fastforce
qed (auto simp: populatedSelection_def typenameField_def Let_def)

text \<open>
  C6: after a teardown of a key, and until a query of that key is observed again, no
  synthesized fragment of that key is among the fragments that a rewritten document
  spreads and appends; and a field annotated \<open>@populate\<close> for which no concrete type of
  its return type has a live fragment is rewritten with the selection set
  \<open>{ __typename }\<close>.
\<close>

theorem populate_teardown_and_empty:
  "(\<not> list_ex (isQueryOf key) later \<longrightarrow>
      list_all (\<lambda>f. pf_key f \<noteq> key)
        (documentFragments sch (stateAfter sch (earlier @ TeardownOperation key # later)) doc)) \<and>
   (list_ex isPopulate ds \<and>
    (\<forall>t. fieldTypeIn sch parent n = Some t \<longrightarrow>
       (\<forall>c\<in>set (possibleTypesOf sch t). \<forall>f\<in>set (typeFragments st c). \<not> isLive st f))
    \<longrightarrow> getSelectionSet (rewriteNode sch st parent (Field a n args ds selo)) = [typenameField])"
proof (intro conjI impI)
  assume "\<not> list_ex (isQueryOf key) later"
  from inactive_after_teardown[OF this, of sch earlier]
  show "list_all (\<lambda>f. pf_key f \<noteq> key)
        (documentFragments sch (stateAfter sch (earlier @ TeardownOperation key # later)) doc)"
    by (auto simp: list_all_iff isLive_def dest!: documentFragments_live)
next
  assume h: "list_ex isPopulate ds \<and>
    (\<forall>t. fieldTypeIn sch parent n = Some t \<longrightarrow>
       (\<forall>c\<in>set (possibleTypesOf sch t). \<forall>f\<in>set (typeFragments st c). \<not> isLive st f))"
  then have "populatedFragments sch st parent n = []"
    by (auto simp: populatedFragments_def liveFragments_def filter_empty_conv split: option.splits)
  with h show "getSelectionSet (rewriteNode sch st parent (Field a n args ds selo)) = [typenameField]"
    by (cases selo) (simp_all add: populatedSelection_def)
qed

theorem populate_teardown_and_empty_witness:
  "\<not> list_ex (isQueryOf 1) [MutationOperation 3 (populate_mutation ''removeTodo'')] \<and>
   list_all (\<lambda>f. pf_key f \<noteq> 1)
     (documentFragments test_schema
        (stateAfter test_schema
           ([QueryOperation 1 todos_users_query, QueryOperation 2 nested_query]
            @ TeardownOperation 1 # [MutationOperation 3 (populate_mutation ''removeTodo'')]))
        (populate_mutation ''addTodo'')) \<and>
   map pf_name
     (documentFragments test_schema
        (stateAfter test_schema
           ([QueryOperation 1 todos_users_query, QueryOperation 2 nested_query]
            @ TeardownOperation 1 # [MutationOperation 3 (populate_mutation ''removeTodo'')]))
        (populate_mutation ''addTodo''))
     = [''Todo_PopulateFragment_1'', ''Todo_PopulateFragment_2''] \<and>
   list_ex isPopulate [Directive ''populate'' []] \<and>
   activeQueries
     (stateAfter test_schema [QueryOperation 1234 todos_users_query, TeardownOperation 1234])
     = Map.empty \<and>
   getSelectionSet
     (rewriteNode test_schema
        (stateAfter test_schema [QueryOperation 1234 todos_users_query, TeardownOperation 1234])
        (Some ''Mutation'') (Field None ''addTodo'' [] [Directive ''populate'' []] None))
     = [typenameField]"
proof -
  let ?st = "stateAfter test_schema
               [QueryOperation 1234 todos_users_query, TeardownOperation 1234]"
  have a: "\<not> list_ex (isQueryOf 1) [MutationOperation 3 (populate_mutation ''removeTodo'')]"
    by simp
  have b: "list_ex isPopulate [Directive ''populate'' []]"
    by (simp add: isPopulate_def)
  have c: "activeQueries ?st = Map.empty"
    by (simp add: stateAfter_def populate_defs)
  then have d: "\<forall>t. fieldTypeIn test_schema (Some ''Mutation'') ''addTodo'' = Some t \<longrightarrow>
       (\<forall>c\<in>set (possibleTypesOf test_schema t). \<forall>f\<in>set (typeFragments ?st c). \<not> isLive ?st f)"
    by (simp add: isLive_def)
  have e: "map pf_name
     (documentFragments test_schema
        (stateAfter test_schema
           ([QueryOperation 1 todos_users_query, QueryOperation 2 nested_query]
            @ TeardownOperation 1 # [MutationOperation 3 (populate_mutation ''removeTodo'')]))
        (populate_mutation ''addTodo''))
     = [''Todo_PopulateFragment_1'', ''Todo_PopulateFragment_2'']"
    by code_simp
  have p1: "list_all (\<lambda>f. pf_key f \<noteq> 1)
     (documentFragments test_schema
        (stateAfter test_schema
           ([QueryOperation 1 todos_users_query, QueryOperation 2 nested_query]
            @ TeardownOperation 1 # [MutationOperation 3 (populate_mutation ''removeTodo'')]))
        (populate_mutation ''addTodo''))"
    by (rule mp[OF conjunct1[OF populate_teardown_and_empty] a])
  have p2: "getSelectionSet
     (rewriteNode test_schema ?st (Some ''Mutation'')
        (Field None ''addTodo'' [] [Directive ''populate'' []] None))
     = [typenameField]"
    by (rule mp[OF conjunct2[OF populate_teardown_and_empty] conjI[OF b d]])
  show ?thesis
    by (intro conjI a p1 e b c p2)
qed

end
